(* ===== verification/Prelude.thy ===== *)
theory Prelude
  imports Main "HOL-Library.Word"
begin

unbundle bit_operations_syntax

text \<open>
  Shared vocabulary of the development: the machine integers of
  \<^verbatim>\<open>src/include/type.h\<close> as fixed-width words, the kernel's ways of not returning
  (\<^verbatim>\<open>panic\<close>, a failed \<^verbatim>\<open>ASSERT\<close>, a store through NULL, an access outside an array) as
  values of an error type, the error monad the models are written in, checked array
  accesses, and two interfaces (locales) that several
  components implement: a transition system with an inductive invariant and a finite pool
  of slots.
\<close>

section \<open>Machine integers\<close>

text \<open>
  \<^verbatim>\<open>typedef char int8_t\<close>: on RISC-V plain \<^verbatim>\<open>char\<close> is unsigned, so \<^verbatim>\<open>int8_t\<close> fields are
  modelled by \<open>u8\<close> wherever the sign could matter.
\<close>

type_synonym u8 = "8 word"
type_synonym u16 = "16 word"
type_synonym u32 = "32 word"
type_synonym u64 = "64 word"

type_synonym i16 = "16 word"
type_synonym i32 = "32 word"
type_synonym i64 = "64 word"

lemma unat_bound: "unat (x :: 'a::len word) < 2 ^ LENGTH('a)"
  by (rule unsigned_less)

lemma unat_ucast_mod:
  "unat (ucast (x :: 'a::len word) :: 'b::len word) = unat x mod 2 ^ LENGTH('b)"
  by (simp add: unsigned_ucast_eq take_bit_eq_mod)

lemma unat_ucast_up:
  "LENGTH('a::len) \<le> LENGTH('b::len) \<Longrightarrow> unat (ucast (x :: 'a word) :: 'b word) = unat x"
  by (simp add: unsigned_ucast_eq take_bit_nat_eq_self_iff)
     (meson less_le_trans one_le_numeral power_increasing unsigned_less)

lemma ucast_ucast_up:
  assumes "LENGTH('a::len) \<le> LENGTH('b::len)"
  shows "ucast (ucast (x :: 'a word) :: 'b word) = x"
proof -
  have "unat (ucast (ucast x :: 'b word) :: 'a word) = unat x mod 2 ^ LENGTH('a)"
    by (subst unat_ucast_mod) (simp only: unat_ucast_up [OF assms])
  also have "\<dots> = unat x" by (simp add: unsigned_less)
  finally show ?thesis by (simp only: word_unat_eq_iff)
qed

lemmas unat_widen [simp] =
  unat_ucast_up [where 'a = 8 and 'b = 16, simplified]
  unat_ucast_up [where 'a = 8 and 'b = 32, simplified]
  unat_ucast_up [where 'a = 8 and 'b = 64, simplified]
  unat_ucast_up [where 'a = 16 and 'b = 32, simplified]
  unat_ucast_up [where 'a = 16 and 'b = 64, simplified]
  unat_ucast_up [where 'a = 32 and 'b = 64, simplified]

lemmas narrow_widen [simp] =
  ucast_ucast_up [where 'a = 8 and 'b = 16, simplified]
  ucast_ucast_up [where 'a = 8 and 'b = 32, simplified]
  ucast_ucast_up [where 'a = 16 and 'b = 32, simplified]
  ucast_ucast_up [where 'a = 32 and 'b = 64, simplified]

lemma and_not_mask_eq: "x AND NOT (mask n) = push_bit n (drop_bit n (x :: 'a::len word))"
  by (rule bit_word_eqI) (auto simp: bit_simps)

lemma unat_and_not_mask:
  "unat (x AND NOT (mask n) :: 'a::len word) = unat x div 2 ^ n * 2 ^ n"
proof -
  have "unat x div 2 ^ n * 2 ^ n \<le> unat x" by simp
  then have "unat x div 2 ^ n * 2 ^ n < 2 ^ LENGTH('a)" using unat_bound [of x] by linarith
  then show ?thesis
    unfolding and_not_mask_eq unsigned_push_bit_eq unsigned_drop_bit_eq
    by (simp add: take_bit_eq_mod push_bit_eq_mult drop_bit_eq_div)
qed

section \<open>Errors and the error monad\<close>

text \<open>
  \<open>Panic m\<close>: \<^verbatim>\<open>panic(m)\<close> prints \<open>m\<close> and loops for ever (\<^verbatim>\<open>src/print/panic.c\<close>).
  \<open>AssertFail\<close>: the \<^verbatim>\<open>ASSERT\<close> macro of \<^verbatim>\<open>src/include/macro.h\<close> failed, which also
  panics. \<open>NullDeref\<close>: a load or store through a null pointer. \<open>OutOfBounds\<close>: an access
  outside the array or table the pointer points into. \<open>Hang\<close>: a busy-wait loop whose
  condition cannot change.
\<close>

datatype kerror = Panic string | AssertFail | NullDeref | OutOfBounds | Hang

type_synonym 'a res = "kerror + 'a"

definition kbind :: "'a res \<Rightarrow> ('a \<Rightarrow> 'b res) \<Rightarrow> 'b res" where
  "kbind m f = (case m of Inl e \<Rightarrow> Inl e | Inr x \<Rightarrow> f x)"

definition kassert :: "bool \<Rightarrow> unit res" where
  "kassert b = (if b then Inr () else Inl AssertFail)"

definition is_ok :: "'a res \<Rightarrow> bool" where
  "is_ok r = (case r of Inl _ \<Rightarrow> False | Inr _ \<Rightarrow> True)"

named_theorems kmonad \<open>equations that run the error monad\<close>

lemma kbind_simps [simp, kmonad]:
  "kbind (Inl e) f = Inl e"
  "kbind (Inr x) f = f x"
  by (simp_all add: kbind_def)

lemma is_ok_simps [simp, kmonad]: "is_ok (Inr x)" "\<not> is_ok (Inl e)"
  by (simp_all add: is_ok_def)

lemma kassert_simps [simp, kmonad]: "kassert True = Inr ()" "kassert False = Inl AssertFail"
  by (simp_all add: kassert_def)

lemma kassert_eq_Inr [simp]: "kassert b = Inr u \<longleftrightarrow> b"
  by (simp add: kassert_def)

lemma kbind_eq_Inr: "kbind m f = Inr y \<longleftrightarrow> (\<exists>x. m = Inr x \<and> f x = Inr y)"
  by (cases m) auto

lemma Inr_eq_kbind: "Inr y = kbind m f \<longleftrightarrow> (\<exists>x. m = Inr x \<and> f x = Inr y)"
  by (cases m) auto

lemma kbind_InrE:
  assumes "kbind m f = Inr y"
  obtains x where "m = Inr x" and "f x = Inr y"
  using assms by (auto simp: kbind_eq_Inr)

lemma kbind_cong [fundef_cong]:
  assumes "m = m'" and "\<And>x. m' = Inr x \<Longrightarrow> f x = f' x"
  shows "kbind m f = kbind m' f'"
  using assms by (cases m') auto

lemma kbind_assoc: "kbind (kbind m f) g = kbind m (\<lambda>x. kbind (f x) g)"
  by (cases m) auto

lemma kbind_split:
  "P (kbind m f) \<longleftrightarrow> (\<forall>e. m = Inl e \<longrightarrow> P (Inl e)) \<and> (\<forall>x. m = Inr x \<longrightarrow> P (f x))"
  by (cases m) auto

lemma is_ok_kbind: "is_ok (kbind m f) \<longleftrightarrow> (\<exists>x. m = Inr x \<and> is_ok (f x))"
  by (cases m) auto

lemma is_okE:
  assumes "is_ok r"
  obtains x where "r = Inr x"
  using assms by (cases r) auto

section \<open>Checked array accesses\<close>

definition kget :: "'a list \<Rightarrow> nat \<Rightarrow> 'a res" where
  "kget xs i = (if i < length xs then Inr (xs ! i) else Inl OutOfBounds)"

definition kput :: "'a list \<Rightarrow> nat \<Rightarrow> 'a \<Rightarrow> 'a list res" where
  "kput xs i v = (if i < length xs then Inr (xs[i := v]) else Inl OutOfBounds)"

lemma kget_in [simp]: "i < length xs \<Longrightarrow> kget xs i = Inr (xs ! i)"
  by (simp add: kget_def)

lemma kput_in [simp]: "i < length xs \<Longrightarrow> kput xs i v = Inr (xs[i := v])"
  by (simp add: kput_def)

lemma kget_eq_Inr [simp]: "kget xs i = Inr v \<longleftrightarrow> i < length xs \<and> xs ! i = v"
  by (auto simp: kget_def)

lemma kput_eq_Inr [simp]: "kput xs i v = Inr ys \<longleftrightarrow> i < length xs \<and> ys = xs[i := v]"
  by (auto simp: kput_def)

section \<open>Lists\<close>

text \<open>The first index of \<open>[lo, hi)\<close> at which a test holds.\<close>

function first_index :: "(nat \<Rightarrow> bool) \<Rightarrow> nat \<Rightarrow> nat \<Rightarrow> nat option" where
  "first_index P lo hi =
     (if lo < hi then (if P lo then Some lo else first_index P (Suc lo) hi) else None)"
  by pat_completeness auto
termination
  by (relation "measure (\<lambda>(P, lo, hi). hi - lo)") auto

declare first_index.simps [simp del]

lemma first_index_Some:
  "first_index P lo hi = Some i \<Longrightarrow> lo \<le> i \<and> i < hi \<and> P i \<and> (\<forall>j. lo \<le> j \<longrightarrow> j < i \<longrightarrow> \<not> P j)"
proof (induction P lo hi rule: first_index.induct)
  case (1 P lo hi)
  show ?case
  proof (cases "lo < hi \<and> \<not> P lo")
    case True
    then have "first_index P (Suc lo) hi = Some i"
      using "1.prems" by (simp add: first_index.simps [of P lo hi])
    then have "Suc lo \<le> i \<and> i < hi \<and> P i \<and> (\<forall>j. Suc lo \<le> j \<longrightarrow> j < i \<longrightarrow> \<not> P j)"
      using "1.IH" True by blast
    then show ?thesis using True by (metis Suc_leI le_neq_implies_less Suc_leD)
  next
    case False
    then show ?thesis
      using "1.prems" by (auto simp: first_index.simps [of P lo hi] split: if_splits)
  qed
qed

lemma first_index_None:
  "first_index P lo hi = None \<longleftrightarrow> (\<forall>j. lo \<le> j \<longrightarrow> j < hi \<longrightarrow> \<not> P j)"
proof (induction P lo hi rule: first_index.induct)
  case (1 P lo hi)
  then show ?case
    by (subst first_index.simps) (auto simp: Suc_le_eq, metis le_neq_implies_less)
qed

section \<open>Interface: transition systems\<close>

text \<open>
  Reachable states of a step relation, and the interface every state machine of the
  kernel implements: an invariant of the initial states that every step keeps.
\<close>

inductive reach :: "('s \<Rightarrow> bool) \<Rightarrow> ('s \<Rightarrow> 's \<Rightarrow> bool) \<Rightarrow> 's \<Rightarrow> bool"
  for init :: "'s \<Rightarrow> bool" and step :: "'s \<Rightarrow> 's \<Rightarrow> bool" where
  reach_init: "init s \<Longrightarrow> reach init step s"
| reach_step: "reach init step s \<Longrightarrow> step s t \<Longrightarrow> reach init step t"

locale invariant_system =
  fixes init :: "'s \<Rightarrow> bool" and step :: "'s \<Rightarrow> 's \<Rightarrow> bool" and inv :: "'s \<Rightarrow> bool"
  assumes inv_init: "init s \<Longrightarrow> inv s"
    and inv_step: "inv s \<Longrightarrow> step s t \<Longrightarrow> inv t"
begin

lemma reach_inv: "reach init step s \<Longrightarrow> inv s"
  by (induction rule: reach.induct) (auto intro: inv_init inv_step)

lemma run_inv: "step\<^sup>*\<^sup>* s t \<Longrightarrow> inv s \<Longrightarrow> inv t"
  by (induction rule: rtranclp_induct) (auto intro: inv_step)

end

section \<open>Interface: a pool of slots\<close>

text \<open>
  Several tables of the kernel hand out slots and take them back: the page pool, the
  virtio descriptors, the open-file table. The interface: \<open>alloc\<close> returns a slot that was
  not live and makes it live, \<open>release\<close> makes a live slot free again.
\<close>

fun take_slots :: "('s \<Rightarrow> ('i \<times> 's) option) \<Rightarrow> nat \<Rightarrow> 's \<Rightarrow> ('i list \<times> 's) option" where
  "take_slots alloc 0 s = Some ([], s)"
| "take_slots alloc (Suc n) s =
     (case alloc s of None \<Rightarrow> None
      | Some (x, s1) \<Rightarrow> (case take_slots alloc n s1 of None \<Rightarrow> None
                       | Some (xs, s2) \<Rightarrow> Some (x # xs, s2)))"

lemma take_slots_numeral:
  "take_slots alloc (numeral n) s =
     (case alloc s of None \<Rightarrow> None
      | Some (x, s1) \<Rightarrow> (case take_slots alloc (pred_numeral n) s1 of None \<Rightarrow> None
                       | Some (xs, s2) \<Rightarrow> Some (x # xs, s2)))"
  by (simp add: numeral_eq_Suc)

locale slot_pool =
  fixes alloc :: "'s \<Rightarrow> ('i \<times> 's) option" and release :: "'i \<Rightarrow> 's \<Rightarrow> 's"
    and live :: "'s \<Rightarrow> 'i set" and inv :: "'s \<Rightarrow> bool"
  assumes alloc_fresh: "inv s \<Longrightarrow> alloc s = Some (x, s') \<Longrightarrow> x \<notin> live s"
    and alloc_live: "inv s \<Longrightarrow> alloc s = Some (x, s') \<Longrightarrow> live s' = insert x (live s)"
    and alloc_inv: "inv s \<Longrightarrow> alloc s = Some (x, s') \<Longrightarrow> inv s'"
    and release_live: "inv s \<Longrightarrow> x \<in> live s \<Longrightarrow> live (release x s) = live s - {x}"
    and release_inv: "inv s \<Longrightarrow> x \<in> live s \<Longrightarrow> inv (release x s)"
begin

lemma take_slots_fresh:
  "inv s \<Longrightarrow> take_slots alloc n s = Some (xs, s') \<Longrightarrow>
   distinct xs \<and> length xs = n \<and> set xs \<inter> live s = {} \<and> live s' = live s \<union> set xs \<and> inv s'"
proof (induction n arbitrary: s xs)
  case 0
  then show ?case by simp
next
  case (Suc n)
  then obtain x s1 ys where a: "alloc s = Some (x, s1)"
    and ys: "take_slots alloc n s1 = Some (ys, s')" and xs: "xs = x # ys"
    by (auto split: option.splits)
  note step = alloc_fresh [OF Suc.prems(1) a] alloc_live [OF Suc.prems(1) a]
  have "distinct ys \<and> length ys = n \<and> set ys \<inter> live s1 = {} \<and> live s' = live s1 \<union> set ys \<and> inv s'"
    using Suc.IH [OF alloc_inv [OF Suc.prems(1) a] ys] .
  then show ?case using step xs by auto
qed

lemma alloc_release:
  assumes "inv s" and "alloc s = Some (x, s')"
  shows "live (release x s') = live s"
proof -
  have "x \<in> live s'" using alloc_live [OF assms] by simp
  then show ?thesis
    using release_live [OF alloc_inv [OF assms]] alloc_live [OF assms] alloc_fresh [OF assms] by auto
qed

end

end
