(* ===== verification/Pages.thy ===== *)
theory Pages
  imports Prelude
begin

text \<open>
  The physical page allocator, \<^verbatim>\<open>src/mm/page.c\<close>. Its state is the page descriptor table
  (one \<^verbatim>\<open>struct Page\<close>, a flag byte, per page, laid out from \<^verbatim>\<open>HEAP_START\<close>), the three
  static variables, and the words of heap memory that \<^verbatim>\<open>page_free\<close> writes. An abstract
  view of the table as a sequence of free pages and allocated runs is defined and each
  operation is shown to implement it.
\<close>

section \<open>State and flags\<close>

record pgstate =
  heap_start :: u32             \<comment> \<open>linker symbol \<open>HEAP_START\<close>\<close>
  heap_size :: u32              \<comment> \<open>linker symbol \<open>HEAP_SIZE\<close>\<close>
  alloc_start :: u32            \<comment> \<open>\<open>_alloc_start\<close>\<close>
  alloc_end :: u32              \<comment> \<open>\<open>_alloc_end\<close>\<close>
  num_pages :: u32              \<comment> \<open>\<open>_num_pages\<close>\<close>
  descs :: "u8 list"            \<comment> \<open>the \<open>struct Page\<close> bytes from \<open>HEAP_START\<close> on\<close>
  hmem :: "u64 \<Rightarrow> u64"          \<comment> \<open>8-byte words of heap memory, by address\<close>

definition PAGE_SIZE :: nat where "PAGE_SIZE = 4096"

definition PAGE_ORDER :: nat where "PAGE_ORDER = 12"

definition PAGE_TAKEN :: u8 where "PAGE_TAKEN = 1"

definition PAGE_LAST :: u8 where "PAGE_LAST = 2"

definition page_is_free :: "u8 \<Rightarrow> bool" where
  "page_is_free flags = (flags AND PAGE_TAKEN = 0)"

definition page_is_last :: "u8 \<Rightarrow> bool" where
  "page_is_last flags = (flags AND PAGE_LAST \<noteq> 0)"

definition page_set_flag :: "u8 list \<Rightarrow> nat \<Rightarrow> u8 \<Rightarrow> u8 list res" where
  "page_set_flag ds k fl = kbind (kget ds k) (\<lambda>f. kput ds k (f OR fl))"

definition page_clear :: "u8 list \<Rightarrow> nat \<Rightarrow> u8 list res" where
  "page_clear ds k = kput ds k 0"

definition align_page :: "u32 \<Rightarrow> u32" where
  "align_page address = (let order = push_bit PAGE_ORDER 1 - 1 in (address + order) AND NOT order)"

section \<open>Initialisation\<close>

fun clear_pages :: "u8 list \<Rightarrow> nat \<Rightarrow> nat \<Rightarrow> u8 list res" where
  "clear_pages ds i 0 = Inr ds"
| "clear_pages ds i (Suc n) = kbind (page_clear ds i) (\<lambda>ds'. clear_pages ds' (Suc i) n)"

definition Init_page :: "pgstate \<Rightarrow> pgstate res" where
  "Init_page s =
     (let n = heap_size s div 4096 - 8;
          start = align_page (heap_start s + 8 * 4096);
          fin = start + 4096 * n
      in kbind (clear_pages (descs s) 0 (unat n)) (\<lambda>ds.
         Inr (s\<lparr>num_pages := n, alloc_start := start, alloc_end := fin, descs := ds\<rparr>)))"

section \<open>Allocation\<close>

text \<open>The inner loop: are the \<open>n\<close> descriptors from index \<open>j\<close> on all free?\<close>

fun rest_free :: "u8 list \<Rightarrow> nat \<Rightarrow> nat \<Rightarrow> bool res" where
  "rest_free ds j 0 = Inr True"
| "rest_free ds j (Suc n) =
     kbind (kget ds j) (\<lambda>f. if \<not> page_is_free f then Inr False else rest_free ds (Suc j) n)"

text \<open>The housekeeping loop: \<^verbatim>\<open>_set_flag(page_k, PAGE_TAKEN)\<close> on \<open>n\<close> pages from \<open>k\<close>.\<close>

fun take_pages :: "u8 list \<Rightarrow> nat \<Rightarrow> nat \<Rightarrow> u8 list res" where
  "take_pages ds k 0 = Inr ds"
| "take_pages ds k (Suc n) =
     kbind (page_set_flag ds k PAGE_TAKEN) (\<lambda>ds'. take_pages ds' (Suc k) n)"

text \<open>
  The outer loop over \<open>i\<close>, with its bound \<^verbatim>\<open>_num_pages - npages\<close> computed in unsigned
  32-bit arithmetic. After the housekeeping loop \<^verbatim>\<open>page_k--\<close> steps back one descriptor,
  which for an empty request at \<open>i = 0\<close> is the byte before the table.
\<close>

function page_alloc_loop :: "u32 \<Rightarrow> int \<Rightarrow> nat \<Rightarrow> u8 list \<Rightarrow> (nat option \<times> u8 list) res" where
  "page_alloc_loop bound npages i ds =
     (if i \<le> unat bound then
        kbind (kget ds i) (\<lambda>f.
          if page_is_free f then
            kbind (rest_free ds (i + 1) (nat (npages - 1))) (\<lambda>found.
              if found then
                kbind (take_pages ds i (nat npages)) (\<lambda>ds1.
                  if i + nat npages = 0 then Inl OutOfBounds
                  else kbind (page_set_flag ds1 (i + nat npages - 1) PAGE_LAST)
                         (\<lambda>ds2. Inr (Some i, ds2)))
              else page_alloc_loop bound npages (Suc i) ds)
          else page_alloc_loop bound npages (Suc i) ds)
      else Inr (None, ds))"
  by pat_completeness auto
termination
  by (relation "measure (\<lambda>(bound, npages, i, ds). length ds - i)") auto

declare page_alloc_loop.simps [simp del]

definition page_alloc :: "int \<Rightarrow> pgstate \<Rightarrow> (u64 \<times> pgstate) res" where
  "page_alloc npages s =
     kbind (page_alloc_loop (num_pages s - of_int npages) npages 0 (descs s)) (\<lambda>(r, ds).
       Inr (case r of
              Some i \<Rightarrow> ucast (alloc_start s + of_nat i * 4096)
            | None \<Rightarrow> 0,
            s\<lparr>descs := ds\<rparr>))"

section \<open>Release\<close>

function page_free_loop :: "u8 list \<Rightarrow> nat \<Rightarrow> u8 list res" where
  "page_free_loop ds k =
     kbind (kget ds k) (\<lambda>f.
       if page_is_free f then Inr ds
       else if page_is_last f then page_clear ds k
       else kbind (page_clear ds k) (\<lambda>ds'. page_free_loop ds' (Suc k)))"
  by pat_completeness auto
termination
  by (relation "measure (\<lambda>(ds, k). length ds - k)") (auto simp: page_clear_def)

declare page_free_loop.simps [simp del]

text \<open>
  \<^verbatim>\<open>page_free\<close> stores a zero word through \<open>p\<close> before it tests \<open>p\<close>, so a null argument
  faults. The index of the first descriptor is computed in 32 bits.
\<close>

definition page_free :: "u64 \<Rightarrow> pgstate \<Rightarrow> pgstate res" where
  "page_free p s =
     (if p = 0 then Inl NullDeref
      else
        let s1 = s\<lparr>hmem := (hmem s)(p := 0)\<rparr>; p32 = ucast p :: u32
        in if alloc_end s \<le> p32 then Inr s1
           else kbind (page_free_loop (descs s) (unat ((p32 - alloc_start s) div 4096)))
                  (\<lambda>ds. Inr (s1\<lparr>descs := ds\<rparr>)))"

section \<open>The loops in closed form\<close>

definition run_free :: "u8 list \<Rightarrow> nat \<Rightarrow> nat \<Rightarrow> bool" where
  "run_free ds i n = (\<forall>j<n. page_is_free (ds ! (i + j)))"

definition taken_flags :: "nat \<Rightarrow> nat \<Rightarrow> nat \<Rightarrow> u8" where
  "taken_flags i n k =
     (if i \<le> k \<and> k < i + n then (if k + 1 = i + n then PAGE_TAKEN OR PAGE_LAST else PAGE_TAKEN) else 0)"

text \<open>The table after the \<open>n\<close> pages from \<open>i\<close> are taken: a frame condition and the new flags.\<close>

definition mark_run :: "u8 list \<Rightarrow> nat \<Rightarrow> nat \<Rightarrow> u8 list" where
  "mark_run ds i n = map (\<lambda>k. ds ! k OR taken_flags i n k) [0..<length ds]"

lemma length_mark_run [simp]: "length (mark_run ds i n) = length ds"
  by (simp add: mark_run_def)

lemma nth_mark_run [simp]: "k < length ds \<Longrightarrow> mark_run ds i n ! k = ds ! k OR taken_flags i n k"
  by (simp add: mark_run_def)

lemma rest_free_eq: "j + n \<le> length ds \<Longrightarrow> rest_free ds j n = Inr (run_free ds j n)"
proof (induction n arbitrary: j)
  case 0
  then show ?case by (simp add: run_free_def)
next
  case (Suc n)
  then have "rest_free ds (Suc j) n = Inr (run_free ds (Suc j) n)" by simp
  moreover have "run_free ds j (Suc n) \<longleftrightarrow> page_is_free (ds ! j) \<and> run_free ds (Suc j) n"
    by (auto simp: run_free_def less_Suc_eq_0_disj)
  ultimately show ?case using Suc.prems by simp
qed

lemma take_pages_eq:
  "k + n \<le> length ds \<Longrightarrow>
   take_pages ds k n =
     Inr (map (\<lambda>x. if k \<le> x \<and> x < k + n then ds ! x OR PAGE_TAKEN else ds ! x) [0..<length ds])"
proof (induction n arbitrary: k ds)
  case 0
  then show ?case by (auto intro!: nth_equalityI)
next
  case (Suc n)
  let ?ds = "ds[k := ds ! k OR PAGE_TAKEN]"
  have "take_pages ds k (Suc n) = take_pages ?ds (Suc k) n"
    using Suc.prems by (simp add: page_set_flag_def)
  also have "\<dots> = Inr (map (\<lambda>x. if Suc k \<le> x \<and> x < Suc k + n then ?ds ! x OR PAGE_TAKEN else ?ds ! x)
                       [0..<length ?ds])"
    using Suc.prems by (intro Suc.IH) simp
  also have "\<dots> = Inr (map (\<lambda>x. if k \<le> x \<and> x < k + Suc n then ds ! x OR PAGE_TAKEN else ds ! x)
                       [0..<length ds])"
    by (auto simp: nth_list_update not_less_eq_eq dest: le_antisym)
  finally show ?case .
qed

lemma take_and_last:
  assumes "0 < n" and "i + n \<le> length ds"
  shows "kbind (take_pages ds i n) (\<lambda>ds1. page_set_flag ds1 (i + n - 1) PAGE_LAST) = Inr (mark_run ds i n)"
proof -
  have "i + n - 1 < length ds" using assms by simp
  then show ?thesis
    using assms
    by (auto simp: take_pages_eq page_set_flag_def or.assoc taken_flags_def nth_list_update
        intro!: nth_equalityI)
qed

text \<open>The outer loop is a first-fit search.\<close>

lemma page_alloc_loop_eq:
  assumes "0 < n" and "unat bound + n \<le> length ds"
  shows "page_alloc_loop bound (int n) i ds =
     Inr (case first_index (\<lambda>i. run_free ds i n) i (unat bound + 1) of
            None \<Rightarrow> (None, ds)
          | Some k \<Rightarrow> (Some k, mark_run ds k n))"
  using assms(2)
proof (induction bound "int n" i ds rule: page_alloc_loop.induct)
  case (1 bound i ds)
  show ?case
  proof (cases "i \<le> unat bound")
    case True
    have nn: "nat (int n - 1) = n - 1" by simp
    have split: "run_free ds i n \<longleftrightarrow> page_is_free (ds ! i) \<and> run_free ds (i + 1) (n - 1)"
      using assms(1) by (cases n) (auto simp: run_free_def less_Suc_eq_0_disj)
    have rest: "rest_free ds (i + 1) (n - 1) = Inr (run_free ds (i + 1) (n - 1))"
      using True "1.prems" assms(1) by (intro rest_free_eq) simp
    have i: "i < length ds" using True "1.prems" assms(1) by simp
    have fin: "kbind (take_pages ds i n) (\<lambda>ds1. kbind (page_set_flag ds1 (i + n - 1) PAGE_LAST)
        (\<lambda>ds2. Inr (Some i, ds2))) = Inr (Some i, mark_run ds i n)"
      using take_and_last [of n i ds] True "1.prems" assms(1)
      by (simp add: kbind_assoc [symmetric])
    have go: "\<not> run_free ds i n \<Longrightarrow> page_alloc_loop bound (int n) (Suc i) ds =
        Inr (case first_index (\<lambda>i. run_free ds i n) (Suc i) (unat bound + 1) of
            None \<Rightarrow> (None, ds) | Some k \<Rightarrow> (Some k, mark_run ds k n))"
      using "1.hyps" [OF True] i rest split "1.prems" unfolding nn by auto
    show ?thesis
      using True i rest split fin go assms(1)
      by (subst page_alloc_loop.simps)
         (auto simp: first_index.simps [of _ i "unat bound + 1"] nn
            simp del: One_nat_def)
  next
    case False
    then show ?thesis by (subst page_alloc_loop.simps) (simp add: first_index.simps)
  qed
qed

section \<open>Specification: a table of free pages and allocated runs\<close>

text \<open>\<open>Block n\<close> is one allocation of \<open>n + 1\<close> pages.\<close>

datatype blk = FreePage | Block nat

fun blk_flags :: "blk \<Rightarrow> u8 list" where
  "blk_flags FreePage = [0]"
| "blk_flags (Block n) = replicate n PAGE_TAKEN @ [PAGE_TAKEN OR PAGE_LAST]"

definition table_of :: "blk list \<Rightarrow> u8 list" where
  "table_of bs = concat (map blk_flags bs)"

text \<open>
  The abstraction relation: the descriptors of the managed pages spell the block list, the
  page addresses do not wrap in 32 bits and none of them is null.
\<close>

definition pg_abs :: "pgstate \<Rightarrow> blk list \<Rightarrow> bool" where
  "pg_abs s bs \<longleftrightarrow>
     take (unat (num_pages s)) (descs s) = table_of bs \<and> unat (num_pages s) \<le> length (descs s) \<and>
     alloc_start s \<noteq> 0 \<and> unat (alloc_start s) + 4096 * unat (num_pages s) < 2 ^ 32 \<and>
     alloc_end s = alloc_start s + 4096 * num_pages s"

definition page_addr :: "pgstate \<Rightarrow> nat \<Rightarrow> u64" where
  "page_addr s i = ucast (alloc_start s + of_nat i * 4096)"

lemmas page_flag_defs = PAGE_TAKEN_def PAGE_LAST_def page_is_free_def page_is_last_def

lemma page_flag_simps [simp]:
  "page_is_free 0" "\<not> page_is_free PAGE_TAKEN" "\<not> page_is_free (PAGE_TAKEN OR PAGE_LAST)"
  "\<not> page_is_last PAGE_TAKEN" "page_is_last (PAGE_TAKEN OR PAGE_LAST)"
  by (simp_all add: page_flag_defs)

lemma table_of_simps [simp]:
  "table_of [] = []"
  "table_of (b # bs) = blk_flags b @ table_of bs"
  "table_of (as @ bs) = table_of as @ table_of bs"
  by (simp_all add: table_of_def)

lemma table_of_replicate_Free [simp]: "table_of (replicate n FreePage) = replicate n 0"
  by (induction n) simp_all

lemma free_page_split:
  "i < length (table_of bs) \<Longrightarrow> page_is_free (table_of bs ! i) \<Longrightarrow>
   \<exists>pre post. bs = pre @ FreePage # post \<and> length (table_of pre) = i"
proof (induction bs arbitrary: i)
  case Nil
  then show ?case by simp
next
  case (Cons b bs)
  show ?case
  proof (cases "i < length (blk_flags b)")
    case True
    then have "page_is_free (blk_flags b ! i)" using Cons.prems by (simp add: nth_append)
    then have "b = FreePage \<and> i = 0" using True
      by (cases b) (auto simp: nth_append split: if_splits)
    then show ?thesis by (intro exI [of _ "[]"] exI [of _ bs]) auto
  next
    case False
    then have "i - length (blk_flags b) < length (table_of bs)"
      and "page_is_free (table_of bs ! (i - length (blk_flags b)))"
      using Cons.prems by (auto simp: nth_append)
    then obtain pre post where "bs = pre @ FreePage # post"
      and "length (table_of pre) = i - length (blk_flags b)"
      using Cons.IH by blast
    then show ?thesis using False by (intro exI [of _ "b # pre"] exI [of _ post]) auto
  qed
qed

lemma free_run_prefix:
  "n \<le> length (table_of bs) \<Longrightarrow> run_free (table_of bs) 0 n \<Longrightarrow>
   \<exists>post. bs = replicate n FreePage @ post"
proof (induction n arbitrary: bs)
  case 0
  then show ?case by simp
next
  case (Suc n)
  then obtain b bs' where bs: "bs = b # bs'" by (cases bs) auto
  have "page_is_free (table_of bs ! 0)" using Suc.prems by (auto simp: run_free_def)
  then have b: "b = FreePage" using bs
    by (cases b) (auto simp: nth_append split: if_splits)
  have "run_free (table_of bs') 0 n"
    using Suc.prems(2) bs b by (auto simp: run_free_def dest: spec [of _ "Suc _"])
  then show ?case using Suc.IH [of bs'] Suc.prems(1) bs b by auto
qed

lemma free_run_split:
  assumes "0 < n" and "i + n \<le> length (table_of bs)" and "run_free (table_of bs) i n"
  shows "\<exists>pre post. bs = pre @ replicate n FreePage @ post \<and> length (table_of pre) = i"
proof -
  have "page_is_free (table_of bs ! i)" using assms(1,3) by (auto simp: run_free_def)
  then obtain pre post where bs: "bs = pre @ FreePage # post" and i: "length (table_of pre) = i"
    using free_page_split [of i bs] assms(1,2) by auto
  have "run_free (table_of (FreePage # post)) 0 n"
    using assms(3) bs i by (auto simp: run_free_def nth_append)
  then obtain post' where "FreePage # post = replicate n FreePage @ post'"
    using free_run_prefix [of n "FreePage # post"] assms(2) bs i by auto
  then show ?thesis using bs i by auto
qed

lemma run_free_replicate:
  "run_free (table_of pre @ replicate n 0 @ ys) (length (table_of pre)) n"
  by (auto simp: run_free_def nth_append)

lemma mark_run_table:
  assumes "0 < n"
  shows "mark_run (xs @ replicate n 0 @ ys) (length xs) n =
         xs @ (replicate (n - 1) PAGE_TAKEN @ [PAGE_TAKEN OR PAGE_LAST]) @ ys"
proof -
  obtain m where n: "n = Suc m" using assms by (cases n) auto
  show ?thesis
  proof (rule nth_equalityI)
    fix i assume "i < length (mark_run (xs @ replicate n 0 @ ys) (length xs) n)"
    then have i: "i < length xs + Suc m + length ys" by (simp add: n)
    consider "i < length xs" | k where "i = length xs + k" "k < m" | "i = length xs + m"
      | k where "i = length xs + Suc m + k"
      by (metis add_Suc_right add_Suc_shift le_add_diff_inverse linorder_neqE_nat not_less
          add_less_cancel_left less_iff_Suc_add)
    then show "mark_run (xs @ replicate n 0 @ ys) (length xs) n ! i =
        (xs @ (replicate (n - 1) PAGE_TAKEN @ [PAGE_TAKEN OR PAGE_LAST]) @ ys) ! i"
      using i by cases (auto simp: n nth_append taken_flags_def simp del: replicate_Suc)
  qed (simp add: n)
qed

lemma page_free_loop_run:
  "page_free_loop (xs @ replicate n PAGE_TAKEN @ (PAGE_TAKEN OR PAGE_LAST) # ys) (length xs) =
   Inr (xs @ replicate (Suc n) 0 @ ys)"
proof (induction n arbitrary: xs)
  case 0
  then show ?case by (simp add: page_free_loop.simps page_clear_def)
next
  case (Suc n)
  have "page_free_loop ((xs @ [0]) @ replicate n PAGE_TAKEN @ (PAGE_TAKEN OR PAGE_LAST) # ys)
          (length (xs @ [0])) = Inr ((xs @ [0]) @ replicate (Suc n) 0 @ ys)"
    by (rule Suc.IH)
  then show ?case
    by (subst page_free_loop.simps) (simp add: page_clear_def)
qed

lemma page_addr_facts:
  assumes "pg_abs s bs" and "i < unat (num_pages s)"
  shows "unat (page_addr s i) = unat (alloc_start s) + 4096 * i"
    and "page_addr s i \<noteq> 0"
    and "unat ((ucast (page_addr s i) - alloc_start s) div 4096) = i"
    and "\<not> alloc_end s \<le> ucast (page_addr s i)"
proof -
  have b: "unat (alloc_start s) + 4096 * unat (num_pages s) < 2 ^ 32" and nz: "alloc_start s \<noteq> 0"
    and e: "alloc_end s = alloc_start s + 4096 * num_pages s"
    using assms(1) by (auto simp: pg_abs_def)
  have u: "unat (alloc_start s + of_nat i * 4096) = unat (alloc_start s) + 4096 * i"
  proof -
    have "unat (alloc_start s) + 4096 * i < 2 ^ 32" using b assms(2) by simp
    then show ?thesis by (simp add: unat_word_ariths unat_of_nat)
  qed
  have d: "unat (alloc_start s + of_nat i * 4096 - alloc_start s) = 4096 * i"
  proof -
    have "4096 * i < 2 ^ 32" using b assms(2) by simp
    then show ?thesis by (simp add: unat_word_ariths unat_of_nat)
  qed
  have f: "unat (alloc_end s) = unat (alloc_start s) + 4096 * unat (num_pages s)"
    using b by (simp add: e unat_word_ariths)
  show "unat (page_addr s i) = unat (alloc_start s) + 4096 * i"
    using u by (simp add: page_addr_def)
  then show "page_addr s i \<noteq> 0" using nz by (metis add_eq_0_iff_both_eq_0 unat_0 unat_eq_0)
  show "unat ((ucast (page_addr s i) - alloc_start s) div 4096) = i"
    using d by (simp add: page_addr_def unat_div)
  show "\<not> alloc_end s \<le> ucast (page_addr s i)"
    using u f assms(2) by (simp add: page_addr_def word_le_nat_alt)
qed

section \<open>Properties\<close>

lemma pg_abs_descs:
  assumes "pg_abs s bs"
  obtains junk where "descs s = table_of bs @ junk" and "length (table_of bs) = unat (num_pages s)"
    and "junk = drop (unat (num_pages s)) (descs s)"
  using assms unfolding pg_abs_def by (metis append_take_drop_id length_take min.absorb2)

lemma pg_abs_update:
  assumes "pg_abs s bs" and "length (table_of bs') = length (table_of bs)"
  shows "pg_abs (s\<lparr>descs := table_of bs' @ drop (unat (num_pages s)) (descs s)\<rparr>) bs'"
  using pg_abs_descs [OF assms(1)] assms unfolding pg_abs_def by fastforce

text \<open>Inside the managed pages a request is answered by first fit on the raw table.\<close>

lemma page_alloc_first_fit:
  assumes "0 < n" and "n \<le> unat (num_pages s)" and "unat (num_pages s) \<le> length (descs s)"
  shows "page_alloc (int n) s =
     Inr (case first_index (\<lambda>i. run_free (descs s) i n) 0 (unat (num_pages s) - n + 1) of
            None \<Rightarrow> (0, s)
          | Some i \<Rightarrow> (page_addr s i, s\<lparr>descs := mark_run (descs s) i n\<rparr>))"
proof -
  have "n < 2 ^ 32" using assms(2) unat_bound [of "num_pages s"] by simp
  then have "unat (num_pages s - of_nat n) = unat (num_pages s) - n"
    using assms(2) by (subst unat_sub) (auto simp: word_le_nat_alt unat_of_nat)
  then show ?thesis
    using page_alloc_loop_eq [OF assms(1), of "num_pages s - of_nat n" "descs s" 0] assms
    by (auto simp: page_alloc_def page_addr_def split: option.splits)
qed

lemma page_alloc_cases:
  assumes "pg_abs s bs" and "0 < n" and "n \<le> unat (num_pages s)"
  shows "(page_alloc (int n) s = Inr (0, s) \<and> (\<forall>pre post. bs \<noteq> pre @ replicate n FreePage @ post)) \<or>
    (\<exists>pre post. bs = pre @ replicate n FreePage @ post \<and>
        (\<forall>pre' post'. bs = pre' @ replicate n FreePage @ post' \<longrightarrow>
           length (table_of pre) \<le> length (table_of pre')) \<and>
        page_alloc (int n) s = Inr (page_addr s (length (table_of pre)),
          s\<lparr>descs := table_of (pre @ Block (n - 1) # post) @ drop (unat (num_pages s)) (descs s)\<rparr>))"
proof -
  obtain junk where ds: "descs s = table_of bs @ junk"
    and len: "length (table_of bs) = unat (num_pages s)"
    and junk: "junk = drop (unat (num_pages s)) (descs s)"
    using assms(1) by (rule pg_abs_descs)
  let ?P = "\<lambda>i. run_free (descs s) i n"
  have eq: "?P i \<longleftrightarrow> run_free (table_of bs) i n" if "i < unat (num_pages s) - n + 1" for i
    using that ds len assms(3) by (auto simp: run_free_def nth_append)
  have hit: "?P (length (table_of pre)) \<and> length (table_of pre) < unat (num_pages s) - n + 1"
    if "bs = pre @ replicate n FreePage @ post" for pre post
    using that len ds run_free_replicate [of pre n] by auto
  have ff: "page_alloc (int n) s =
     Inr (case first_index ?P 0 (unat (num_pages s) - n + 1) of
            None \<Rightarrow> (0, s)
          | Some i \<Rightarrow> (page_addr s i, s\<lparr>descs := mark_run (descs s) i n\<rparr>))"
    using assms(2,3) ds len by (intro page_alloc_first_fit) auto
  show ?thesis
  proof (cases "first_index ?P 0 (unat (num_pages s) - n + 1)")
    case None
    then have "page_alloc (int n) s = Inr (0, s)" using ff by simp
    then show ?thesis using None hit unfolding first_index_None by blast
  next
    case (Some i)
    note fi = first_index_Some [OF Some]
    then have "i + n \<le> length (table_of bs)" and "run_free (table_of bs) i n"
      using eq len assms(3) by auto
    then obtain pre post where bs: "bs = pre @ replicate n FreePage @ post"
      and i: "length (table_of pre) = i"
      using free_run_split [OF assms(2)] by blast
    have "mark_run (descs s) i n = table_of (pre @ Block (n - 1) # post) @ junk"
      using ds bs i mark_run_table [OF assms(2), of "table_of pre"] by auto
    moreover have "i \<le> length (table_of pre')"
      if "bs = pre' @ replicate n FreePage @ post'" for pre' post'
      using hit [OF that] fi by (meson le0 not_less)
    moreover have "page_alloc (int n) s = Inr (page_addr s i, s\<lparr>descs := mark_run (descs s) i n\<rparr>)"
      using ff Some by simp
    ultimately show ?thesis using bs i junk
      by (intro disjI2 exI [of _ pre] exI [of _ post]) simp
  qed
qed

lemma pg_abs_alloc:
  assumes "pg_abs s (pre @ replicate n FreePage @ post)" and "0 < n"
  shows "pg_abs (s\<lparr>descs := table_of (pre @ Block (n - 1) # post) @ drop (unat (num_pages s)) (descs s)\<rparr>)
           (pre @ Block (n - 1) # post)"
  using assms by (intro pg_abs_update [OF assms(1)]) simp

lemma page_free_concrete:
  assumes "pg_abs s (pre @ Block m # post)"
  shows "page_free (page_addr s (length (table_of pre))) s =
    Inr (s\<lparr>hmem := (hmem s)(page_addr s (length (table_of pre)) := 0),
          descs := table_of (pre @ replicate (m + 1) FreePage @ post) @ drop (unat (num_pages s)) (descs s)\<rparr>)"
proof -
  let ?bs = "pre @ Block m # post" and ?i = "length (table_of pre)"
  obtain junk where ds: "descs s = table_of ?bs @ junk"
    and len: "length (table_of ?bs) = unat (num_pages s)"
    and junk: "junk = drop (unat (num_pages s)) (descs s)"
    using assms by (rule pg_abs_descs)
  have i: "?i < unat (num_pages s)" using len by simp
  have "page_free_loop (descs s) ?i = Inr (table_of (pre @ replicate (m + 1) FreePage @ post) @ junk)"
    using ds page_free_loop_run [of "table_of pre" m "table_of post @ junk"] by simp
  then show ?thesis
    using page_addr_facts [OF assms i] junk by (simp add: page_free_def)
qed

text \<open>
  C11. \<open>page_alloc(n)\<close> for a request between one page and the size of the pool always
  returns. It returns NULL and changes nothing exactly when no \<open>n\<close> consecutive free pages
  exist; otherwise it carves the first such run into one block and returns its address.
\<close>

theorem page_alloc_refines:
  assumes "pg_abs s bs" and "0 < n" and "n \<le> unat (num_pages s)"
  shows "(page_alloc (int n) s = Inr (0, s) \<and> (\<forall>pre post. bs \<noteq> pre @ replicate n FreePage @ post)) \<or>
    (\<exists>pre post s'. bs = pre @ replicate n FreePage @ post \<and>
        (\<forall>pre' post'. bs = pre' @ replicate n FreePage @ post' \<longrightarrow>
           length (table_of pre) \<le> length (table_of pre')) \<and>
        page_alloc (int n) s = Inr (page_addr s (length (table_of pre)), s') \<and>
        pg_abs s' (pre @ Block (n - 1) # post))"
  using page_alloc_cases [OF assms]
proof (elim disjE exE conjE)
  fix pre post
  let ?s = "s\<lparr>descs := table_of (pre @ Block (n - 1) # post) @ drop (unat (num_pages s)) (descs s)\<rparr>"
  assume bs: "bs = pre @ replicate n FreePage @ post"
    and first: "\<forall>pre' post'. bs = pre' @ replicate n FreePage @ post' \<longrightarrow>
           length (table_of pre) \<le> length (table_of pre')"
    and alloc: "page_alloc (int n) s = Inr (page_addr s (length (table_of pre)), ?s)"
  have "pg_abs ?s (pre @ Block (n - 1) # post)"
    using assms(1,2) unfolding bs by (rule pg_abs_alloc)
  then show ?thesis using bs first alloc
    by (intro disjI2 exI [of _ pre] exI [of _ post] exI [of _ ?s] conjI)
qed simp

text \<open>
  C21. \<open>page_free\<close> on the address of an allocated block frees exactly the pages of that
  block, in one pass that stops at its last page; the rest of the table is untouched.
\<close>

theorem page_free_refines:
  assumes "pg_abs s (pre @ Block m # post)"
  shows "\<exists>s'. page_free (page_addr s (length (table_of pre))) s = Inr s' \<and>
              pg_abs s' (pre @ replicate (m + 1) FreePage @ post)"
proof -
  have "pg_abs (s\<lparr>descs := table_of (pre @ replicate (m + 1) FreePage @ post)
                    @ drop (unat (num_pages s)) (descs s)\<rparr>)
    (pre @ replicate (m + 1) FreePage @ post)"
    by (intro pg_abs_update [OF assms]) simp
  then show ?thesis using page_free_concrete [OF assms] by (auto simp: pg_abs_def)
qed

text \<open>
  Round trip: freeing what \<open>page_alloc\<close> returned restores the descriptor table byte
  for byte.
\<close>

lemma page_alloc_free_roundtrip:
  assumes "pg_abs s bs" and "0 < n" and "n \<le> unat (num_pages s)"
    and "page_alloc (int n) s = Inr (p, s')" and "p \<noteq> 0"
  shows "\<exists>s''. page_free p s' = Inr s'' \<and> descs s'' = descs s"
proof -
  let ?junk = "drop (unat (num_pages s)) (descs s)"
  obtain pre post where bs: "bs = pre @ replicate n FreePage @ post"
    and p: "p = page_addr s (length (table_of pre))"
    and s': "s' = s\<lparr>descs := table_of (pre @ Block (n - 1) # post) @ ?junk\<rparr>"
    using page_alloc_cases [OF assms(1-3)] assms(4,5) by auto
  have abs': "pg_abs s' (pre @ Block (n - 1) # post)"
    using pg_abs_alloc assms(1,2) bs s' by blast
  have ds: "descs s = table_of bs @ ?junk" and len: "length (table_of bs) = unat (num_pages s)"
    using pg_abs_descs [OF assms(1)] by metis+
  have "page_addr s' (length (table_of pre)) = p" by (simp add: p s' page_addr_def)
  moreover have "length (table_of (pre @ Block (n - 1) # post)) = unat (num_pages s)"
    using len bs assms(2) by simp
  then have "drop (unat (num_pages s')) (descs s') = ?junk"
    by (simp del: table_of_simps add: s' drop_append)
  ultimately show ?thesis
    using page_free_concrete [OF abs'] ds bs assms(2) by (auto simp del: replicate_Suc)
qed

lemma clear_pages_eq:
  "i + n \<le> length ds \<Longrightarrow> clear_pages ds i n = Inr (take i ds @ replicate n 0 @ drop (i + n) ds)"
proof (induction n arbitrary: i ds)
  case 0
  then show ?case by simp
next
  case (Suc n)
  then have "clear_pages ds i (Suc n) = Inr (take (Suc i) (ds[i := 0]) @ replicate n 0 @ drop (Suc i + n) (ds[i := 0]))"
    by (simp add: page_clear_def)
  then show ?case using Suc.prems
    by (simp add: take_Suc_conv_app_nth)
qed

lemma round_up:
  fixes d h :: nat
  assumes "0 < d"
  shows "h \<le> (h + (d - 1)) div d * d" and "(h + (d - 1)) div d * d \<le> h + (d - 1)"
    and "(h + (d - 1)) div d * d \<le> h \<longleftrightarrow> h mod d = 0"
proof -
  have split: "(h + (d - 1)) div d * d + (h + (d - 1)) mod d = h + (d - 1)" by simp
  have "(h + (d - 1)) mod d \<le> d - 1" using assms by (simp add: less_Suc_eq_le [symmetric])
  then show ge: "h \<le> (h + (d - 1)) div d * d" using split by linarith
  show "(h + (d - 1)) div d * d \<le> h + (d - 1)" using split by linarith
  show "(h + (d - 1)) div d * d \<le> h \<longleftrightarrow> h mod d = 0"
  proof
    assume "(h + (d - 1)) div d * d \<le> h"
    then have "h = (h + (d - 1)) div d * d" using ge by simp
    then show "h mod d = 0" by (metis mod_mult_self2_is_0)
  next
    assume "h mod d = 0"
    then obtain k where "h = k * d" by (metis mod_0_imp_dvd dvd_def mult.commute)
    then have "(h + (d - 1)) div d = k + (d - 1) div d" using assms by (simp only: div_mult_self3)
    then show "(h + (d - 1)) div d * d \<le> h" using assms \<open>h = k * d\<close> by simp
  qed
qed

lemma unat_align_page:
  assumes "unat a + 4095 < 2 ^ 32"
  shows "unat (align_page a) = (unat a + 4095) div 4096 * 4096"
proof -
  have "align_page a = (a + 4095) AND NOT (mask 12)"
    by (simp add: align_page_def PAGE_ORDER_def mask_eq_exp_minus_1)
  moreover have "unat (a + 4095) = unat a + 4095" using assms by (simp add: unat_word_ariths)
  ultimately show ?thesis by (simp only: unat_and_not_mask) simp
qed

text \<open>
  \<open>Init_page\<close> on a heap of \<open>k\<close> whole pages, more than the eight reserved for the
  descriptors: it sets up a pool of \<open>k - 8\<close> free pages that starts page-aligned and beyond
  the reserved pages. The pool ends inside the heap exactly when \<open>HEAP_START\<close> is
  page-aligned: the page lost to rounding \<open>_alloc_start\<close> up is not subtracted from
  \<open>_num_pages\<close>, so on an unaligned heap the last page reaches past its end.
\<close>

lemma Init_page_pool:
  assumes "unat (heap_size s) = 4096 * k" and "8 < k" and "k - 8 \<le> length (descs s)"
    and "unat (heap_start s) + 4096 * k + 4095 < 2 ^ 32"
  shows "\<exists>s'. Init_page s = Inr s' \<and> pg_abs s' (replicate (k - 8) FreePage) \<and>
     unat (num_pages s') = k - 8 \<and> unat (alloc_start s') mod 4096 = 0 \<and>
     unat (heap_start s) + 8 * 4096 \<le> unat (alloc_start s') \<and>
     (unat (alloc_end s') \<le> unat (heap_start s) + unat (heap_size s) \<longleftrightarrow>
        unat (heap_start s) mod 4096 = 0)"
proof -
  have mod32768: "(h + 32768) mod 4096 = h mod 4096" for h :: nat
    using mod_mult_self2 [of h 4096 8] by simp
  let ?n = "heap_size s div 4096 - 8" and ?st = "align_page (heap_start s + 8 * 4096)"
  have "unat (heap_size s div 4096) = k" using assms(1) by (simp add: unat_div)
  then have n: "unat ?n = k - 8" using assms(2) by (subst unat_sub) (auto simp: word_le_nat_alt)
  have hs: "unat (heap_start s + 8 * 4096) = unat (heap_start s) + 32768"
    using assms(2,4) by (simp add: unat_word_ariths)
  have st: "unat ?st = (unat (heap_start s) + 36863) div 4096 * 4096"
  proof -
    have "unat (heap_start s + 8 * 4096) + 4095 < 2 ^ 32" unfolding hs using assms(2,4) by simp
    then show ?thesis using unat_align_page [of "heap_start s + 8 * 4096"] unfolding hs by simp
  qed
  have st': "unat ?st = (unat (heap_start s) + 32768 + (4096 - 1)) div 4096 * 4096"
    unfolding st by simp
  note up = round_up [of 4096 "unat (heap_start s) + 32768", folded st', OF zero_less_numeral]
  have fin: "unat (?st + 4096 * ?n) = unat ?st + 4096 * (k - 8)"
  proof -
    have m: "unat (4096 * ?n) = 4096 * (k - 8)"
      using iffD1 [OF unat_mult_lem, of "4096 :: u32" ?n] n assms(2,4) by simp
    then have "unat ?st + unat (4096 * ?n) < 2 ^ LENGTH(32)" using up(2) assms(2,4) by simp
    from iffD1 [OF unat_add_lem this] show ?thesis by (simp only: m)
  qed
  have lt: "unat ?st + 4096 * unat ?n < 2 ^ 32" using up(2) assms(2,4) n by simp
  have nz: "?st \<noteq> 0" using up(1) by (metis add_is_0 le_zero_eq unat_0 zero_neq_numeral)
  have cl: "clear_pages (descs s) 0 (unat ?n) = Inr (replicate (k - 8) 0 @ drop (k - 8) (descs s))"
    using assms(3) n by (simp add: clear_pages_eq)
  let ?s' = "s\<lparr>num_pages := ?n, alloc_start := ?st, alloc_end := ?st + 4096 * ?n,
                 descs := replicate (k - 8) 0 @ drop (k - 8) (descs s)\<rparr>"
  have "Init_page s = Inr ?s'" using cl by (simp add: Init_page_def Let_def)
  moreover have "pg_abs ?s' (replicate (k - 8) FreePage)"
    using n nz lt assms(3) by (simp add: pg_abs_def)
  moreover have "unat ?st mod 4096 = 0" unfolding st by simp
  moreover have "unat ?st + 4096 * (k - 8) \<le> unat (heap_start s) + 4096 * k \<longleftrightarrow>
      unat (heap_start s) mod 4096 = 0"
  proof -
    have "4096 * k = 4096 * (k - 8) + 32768" using assms(2) by simp
    then have "unat ?st + 4096 * (k - 8) \<le> unat (heap_start s) + 4096 * k \<longleftrightarrow>
        unat ?st \<le> unat (heap_start s) + 32768" by linarith
    also have "\<dots> \<longleftrightarrow> unat (heap_start s) mod 4096 = 0" 
      unfolding up(3) mod32768 ..
    finally show ?thesis .
  qed
  ultimately show ?thesis using n up(1) fin assms(1) by (intro exI [of _ ?s']) simp
qed

section \<open>The page pool as a slot pool\<close>

text \<open>
  Every caller in the kernel asks for one page at a time. Restricted to such requests the
  allocator implements the slot-pool interface, with the addresses of the taken pages as
  the live slots.
\<close>

definition page_alloc1 :: "pgstate \<Rightarrow> (u64 \<times> pgstate) option" where
  "page_alloc1 s = (case page_alloc 1 s of Inr (p, s') \<Rightarrow> if p = 0 then None else Some (p, s') | Inl _ \<Rightarrow> None)"

definition page_free1 :: "u64 \<Rightarrow> pgstate \<Rightarrow> pgstate" where
  "page_free1 p s = (case page_free p s of Inr s' \<Rightarrow> s' | Inl _ \<Rightarrow> s)"

definition live_pages :: "pgstate \<Rightarrow> u64 set" where
  "live_pages s = {page_addr s i | i. i < unat (num_pages s) \<and> \<not> page_is_free (descs s ! i)}"

definition single_pages :: "pgstate \<Rightarrow> bool" where
  "single_pages s \<longleftrightarrow> 0 < unat (num_pages s) \<and> (\<exists>bs. pg_abs s bs \<and> set bs \<subseteq> {FreePage, Block 0})"

lemma table_of_singles:
  "set bs \<subseteq> {FreePage, Block 0} \<Longrightarrow>
   length (table_of bs) = length bs \<and>
   (\<forall>i<length bs. page_is_free (table_of bs ! i) \<longleftrightarrow> bs ! i = FreePage)"
proof (induction bs)
  case Nil
  then show ?case by simp
next
  case (Cons b bs)
  then show ?case by (auto simp: nth_Cons split: nat.splits)
qed

lemma live_pages_abs:
  assumes "pg_abs s bs" and "set bs \<subseteq> {FreePage, Block 0}"
  shows "live_pages s = {page_addr s i | i. i < length bs \<and> bs ! i = Block 0}"
    and "length bs = unat (num_pages s)"
proof -
  obtain junk where ds: "descs s = table_of bs @ junk" and len: "length (table_of bs) = unat (num_pages s)"
    using assms(1) by (rule pg_abs_descs)
  note t = table_of_singles [OF assms(2)]
  show l: "length bs = unat (num_pages s)" using t len by simp
  have "page_is_free (descs s ! i) \<longleftrightarrow> bs ! i \<noteq> Block 0" if "i < length bs" for i
  proof -
    have "bs ! i \<in> {FreePage, Block 0}" using assms(2) nth_mem [OF that] by blast
    moreover have "descs s ! i = table_of bs ! i" using that t ds by (simp add: nth_append)
    ultimately show ?thesis using t that by auto
  qed
  then show "live_pages s = {page_addr s i | i. i < length bs \<and> bs ! i = Block 0}"
    unfolding live_pages_def l [symmetric] by auto
qed

lemma page_addr_inj:
  assumes "pg_abs s bs" and "i < unat (num_pages s)" and "j < unat (num_pages s)"
    and "page_addr s i = page_addr s j"
  shows "i = j"
proof -
  have "unat (alloc_start s) + 4096 * i = unat (alloc_start s) + 4096 * j"
    using page_addr_facts(1) [OF assms(1,2)] page_addr_facts(1) [OF assms(1,3)] assms(4) by metis
  then show ?thesis by linarith
qed

lemma nth_middle_iff:
  "(pre @ x # post) ! i = c \<longleftrightarrow> (if i = length pre then x = c else (pre @ y # post) ! i = c)"
  by (auto simp: nth_append nth_Cons split: nat.splits)

lemma image_insert_index:
  "m < n \<Longrightarrow> {f i | i. i < n \<and> (i = m \<or> Q i)} = insert (f m) {f i | i. i < n \<and> Q i}"
  by (auto split: if_splits)

lemma image_remove_index:
  "(\<And>j. f m = f j \<Longrightarrow> j < n \<Longrightarrow> j = m) \<Longrightarrow>
   {f i | i. i < n \<and> i \<noteq> m \<and> Q i} = {f i | i. i < n \<and> Q i} - {f m}"
  by force

lemma page_alloc1_step:
  assumes "single_pages s" and "page_alloc1 s = Some (x, s')"
  obtains pre post where "pg_abs s (pre @ FreePage # post)" and "pg_abs s' (pre @ Block 0 # post)"
    and "set (pre @ post) \<subseteq> {FreePage, Block 0}" and "x = page_addr s (length pre)"
    and "num_pages s' = num_pages s" and "page_addr s' = page_addr s"
proof -
  obtain bs where n: "0 < unat (num_pages s)" and bs: "pg_abs s bs" "set bs \<subseteq> {FreePage, Block 0}"
    using assms(1) by (auto simp: single_pages_def)
  have "page_alloc (int 1) s = Inr (x, s')" and x: "x \<noteq> 0"
    using assms(2) by (auto simp: page_alloc1_def split: sum.splits if_splits)
  then obtain pre post where p: "bs = pre @ replicate 1 FreePage @ post"
    "x = page_addr s (length (table_of pre))"
    "s' = s\<lparr>descs := table_of (pre @ Block (1 - 1) # post) @ drop (unat (num_pages s)) (descs s)\<rparr>"
    using page_alloc_cases [OF bs(1), of 1] n by auto
  have "pg_abs s' (pre @ Block 0 # post)"
    using pg_abs_alloc [of s pre 1 post] bs(1) p(1,3) by simp
  moreover have "length (table_of pre) = length pre"
    using table_of_singles [of pre] bs(2) p(1) by auto
  moreover have "page_addr s' = page_addr s" by (simp add: p(3) page_addr_def fun_eq_iff)
  ultimately show ?thesis using that [of pre post] bs p by auto
qed

lemma live_page_cases:
  assumes "single_pages s" and "x \<in> live_pages s"
  obtains pre post where "pg_abs s (pre @ Block 0 # post)"
    and "set (pre @ post) \<subseteq> {FreePage, Block 0}" and "x = page_addr s (length pre)"
proof -
  obtain bs where bs: "pg_abs s bs" "set bs \<subseteq> {FreePage, Block 0}"
    using assms(1) by (auto simp: single_pages_def)
  then obtain i where i: "i < length bs" "bs ! i = Block 0" "x = page_addr s i"
    using assms(2) live_pages_abs(1) [OF bs] by auto
  then have "bs = take i bs @ Block 0 # drop (Suc i) bs" by (metis id_take_nth_drop)
  then show ?thesis
    using that [of "take i bs" "drop (Suc i) bs"] i bs
    by (auto dest: in_set_takeD in_set_dropD)
qed

interpretation page_pool: slot_pool page_alloc1 page_free1 live_pages single_pages
proof unfold_locales
  fix s x s' assume inv: "single_pages s" and a: "page_alloc1 s = Some (x, s')"
  then obtain pre post where s: "pg_abs s (pre @ FreePage # post)" and s': "pg_abs s' (pre @ Block 0 # post)"
    and set: "set (pre @ post) \<subseteq> {FreePage, Block 0}" and x: "x = page_addr s (length pre)"
    and n: "num_pages s' = num_pages s" and pa: "page_addr s' = page_addr s"
    by (rule page_alloc1_step)
  have l: "live_pages s = {page_addr s i | i. i < length (pre @ FreePage # post) \<and> (pre @ FreePage # post) ! i = Block 0}"
    and len: "length (pre @ FreePage # post) = unat (num_pages s)"
    using live_pages_abs [OF s] set by auto
  have l': "live_pages s' = {page_addr s i | i. i < length (pre @ Block 0 # post) \<and> (pre @ Block 0 # post) ! i = Block 0}"
    using live_pages_abs [OF s'] set pa by auto
  have inj: "j = length pre" if "page_addr s (length pre) = page_addr s j" "j < length (pre @ FreePage # post)" for j
    using page_addr_inj [OF s, of "length pre" j] that len by simp
  have taken: "(pre @ Block 0 # post) ! i = Block 0 \<longleftrightarrow> i = length pre \<or> (pre @ FreePage # post) ! i = Block 0" for i
    using nth_middle_iff [of pre "Block 0" post i "Block 0" FreePage] by simp
  show "x \<notin> live_pages s"
    unfolding l x by (auto dest!: inj)
  show "live_pages s' = insert x (live_pages s)"
    unfolding l l' x taken using image_insert_index [of "length pre" "length (pre @ FreePage # post)"]
    by simp
  show "single_pages s'" unfolding single_pages_def
    using s' set n inv by (intro conjI exI [of _ "pre @ Block 0 # post"]) (auto simp: single_pages_def)
next
  fix s x assume inv: "single_pages s" and x: "x \<in> live_pages s"
  then obtain pre post where s: "pg_abs s (pre @ Block 0 # post)"
    and set: "set (pre @ post) \<subseteq> {FreePage, Block 0}" and xa: "x = page_addr s (length pre)"
    by (rule live_page_cases)
  have tp: "length (table_of pre) = length pre" using table_of_singles [of pre] set by auto
  have free: "pg_abs (page_free1 x s) (pre @ FreePage # post)"
    and fields: "num_pages (page_free1 x s) = num_pages s" "page_addr (page_free1 x s) = page_addr s"
    using page_free_concrete [OF s] pg_abs_update [OF s, of "pre @ FreePage # post"] tp xa
    by (auto simp: page_free1_def pg_abs_def page_addr_def fun_eq_iff)
  have l: "live_pages s = {page_addr s i | i. i < length (pre @ Block 0 # post) \<and> (pre @ Block 0 # post) ! i = Block 0}"
    and len: "length (pre @ Block 0 # post) = unat (num_pages s)"
    using live_pages_abs [OF s] set by auto
  have l': "live_pages (page_free1 x s) =
      {page_addr s i | i. i < length (pre @ FreePage # post) \<and> (pre @ FreePage # post) ! i = Block 0}"
    using live_pages_abs [OF free] set fields by auto
  have inj: "j = length pre" if "page_addr s (length pre) = page_addr s j" "j < length (pre @ FreePage # post)" for j
    using page_addr_inj [OF s, of "length pre" j] that len by simp
  have freed: "(pre @ FreePage # post) ! i = Block 0 \<longleftrightarrow> i \<noteq> length pre \<and> (pre @ Block 0 # post) ! i = Block 0" for i
    using nth_middle_iff [of pre FreePage post i "Block 0" "Block 0"] by simp
  show "live_pages (page_free1 x s) = live_pages s - {x}"
    unfolding l l' freed unfolding xa
    using image_remove_index [of "page_addr s" "length pre" "length (pre @ FreePage # post)"] inj by simp
  show "single_pages (page_free1 x s)" unfolding single_pages_def
    using free set fields inv by (intro conjI exI [of _ "pre @ FreePage # post"]) (auto simp: single_pages_def)
qed

text \<open>
  Taking \<open>n\<close> pages one at a time: the addresses returned are pairwise distinct, none
  of them was in use before, and afterwards the used pages are exactly the old ones and
  the new ones.
\<close>

lemma page_alloc_distinct:
  assumes "single_pages s" and "take_slots page_alloc1 n s = Some (ps, s')"
  shows "distinct ps \<and> length ps = n \<and> set ps \<inter> live_pages s = {} \<and>
         live_pages s' = live_pages s \<union> set ps \<and> single_pages s'"
  by (rule page_pool.take_slots_fresh [OF assms])

section \<open>A concrete pool\<close>

definition pool4 :: pgstate where
  "pool4 = \<lparr>heap_start = 0x80300000, heap_size = 12 * 4096, alloc_start = 0x80308000,
            alloc_end = 0x8030C000, num_pages = 4, descs = [0, 0, 0, 0], hmem = (\<lambda>_. 0)\<rparr>"

lemma take_pages_numeral:
  "take_pages ds k (numeral n) =
     kbind (page_set_flag ds k PAGE_TAKEN) (\<lambda>ds'. take_pages ds' (Suc k) (pred_numeral n))"
  by (simp add: numeral_eq_Suc)

lemma pool4_abs: "pg_abs pool4 [FreePage, FreePage, FreePage, FreePage]"
  by (simp add: pg_abs_def pool4_def)

lemma pool4_taken:
  "page_alloc (int 2) pool4 = Inr (0x80308000, pool4\<lparr>descs := [1, 3, 0, 0]\<rparr>)"
  by (simp add: page_alloc_def pool4_def page_alloc_loop.simps [of _ _ 0] take_pages_numeral
      page_flag_defs page_set_flag_def)

theorem page_alloc_refines_witness:
  "\<exists>pre post s'. [FreePage, FreePage, FreePage, FreePage] = pre @ replicate 2 FreePage @ post \<and>
     page_alloc (int 2) pool4 = Inr (0x80308000, s') \<and> pg_abs s' (pre @ Block 1 # post)"
  using page_alloc_refines [OF pool4_abs, of 2] pool4_taken
  by (auto simp: pool4_def)

lemma pool4_taken_abs:
  "pg_abs (pool4\<lparr>descs := [1, 3, 0, 0]\<rparr>) ([] @ Block 1 # [FreePage, FreePage])"
  by (simp add: pg_abs_def pool4_def page_flag_defs)

theorem page_free_refines_witness:
  "\<exists>s'. page_free 0x80308000 (pool4\<lparr>descs := [1, 3, 0, 0]\<rparr>) = Inr s' \<and>
        pg_abs s' [FreePage, FreePage, FreePage, FreePage]"
proof -
  have "page_addr (pool4\<lparr>descs := [1, 3, 0, 0]\<rparr>) (length (table_of [])) = 0x80308000"
    by (simp add: page_addr_def pool4_def)
  moreover have "[] @ replicate (1 + 1) FreePage @ [FreePage, FreePage] = [FreePage, FreePage, FreePage, FreePage]"
    by (simp only: replicate_add replicate_Suc One_nat_def replicate_0 append.simps)
  ultimately show ?thesis using page_free_refines [OF pool4_taken_abs] by metis
qed

lemma page_alloc_free_roundtrip_example:
  "\<exists>s''. page_free 0x80308000 (pool4\<lparr>descs := [1, 3, 0, 0]\<rparr>) = Inr s'' \<and> descs s'' = [0, 0, 0, 0]"
  using page_alloc_free_roundtrip [OF pool4_abs _ _ pool4_taken] by (simp add: pool4_def)

text \<open>A heap of twelve pages that starts 16 bytes past a page boundary.\<close>

definition unaligned_heap :: pgstate where
  "unaligned_heap = pool4\<lparr>heap_start := 0x80300010\<rparr>"

lemma Init_page_unaligned:
  "\<exists>s'. Init_page unaligned_heap = Inr s' \<and> unat (num_pages s') = 4 \<and>
        unat (heap_start unaligned_heap) + unat (heap_size unaligned_heap) < unat (alloc_end s')"
  using Init_page_pool [of unaligned_heap 12] by (auto simp: unaligned_heap_def pool4_def)

lemma page_alloc_distinct_example:
  "single_pages pool4 \<and> (\<exists>ps s'. take_slots page_alloc1 1 pool4 = Some (ps, s') \<and> distinct ps \<and>
     live_pages s' = live_pages pool4 \<union> set ps)"
proof -
  have inv: "single_pages pool4" unfolding single_pages_def
    using pool4_abs by (intro conjI exI [of _ "[FreePage, FreePage, FreePage, FreePage]"]) (auto simp: pool4_def)
  have "page_alloc 1 pool4 = Inr (0x80308000, pool4\<lparr>descs := [3, 0, 0, 0]\<rparr>)"
    by (simp add: page_alloc_def pool4_def page_alloc_loop.simps [of _ _ 0] page_flag_defs page_set_flag_def)
  then have "take_slots page_alloc1 1 pool4 = Some ([0x80308000], pool4\<lparr>descs := [3, 0, 0, 0]\<rparr>)"
    by (simp add: page_alloc1_def)
  with inv show ?thesis using page_alloc_distinct [OF inv, of 1] by blast
qed
end
