(* ===== verification/Malloc.thy ===== *)
theory Malloc
  imports Pages
begin

text \<open>
  The bucket allocator of \<^verbatim>\<open>src/mm/malloc.c\<close>, behind the macros \<^verbatim>\<open>malloc\<close> and \<^verbatim>\<open>free\<close>.
  A directory of ten size classes holds, per class, a list of descriptors, one for each
  page cut into objects of that size; the free objects of a page are chained through their
  first word. The descriptor lists are linked through \<^verbatim>\<open>next\<close> pointers in the code and are
  lists here (a descriptor keeps its address \<open>daddr\<close>); the chains of free objects stay in
  the heap memory of the page allocator's state, where they can be corrupted.
\<close>

section \<open>Descriptors and directory\<close>

record block_desc =
  daddr :: u64                  \<comment> \<open>the address of the descriptor itself\<close>
  block :: u64                  \<comment> \<open>the page\<close>
  freeptr :: u64                \<comment> \<open>head of the chain of free objects\<close>
  blocnt :: u16
  block_size :: u16

record mstate =
  pg :: pgstate
  block_dir :: "(u32 \<times> block_desc list) list"
  free_block_desc :: "u64 list"

text \<open>\<^verbatim>\<open>sizeof(struct block_desc)\<close>: three pointers and two 16-bit fields, padded to 32.\<close>

definition DESCS_PER_PAGE :: nat where "DESCS_PER_PAGE = 4096 div 32"

definition bucket_sizes :: "u32 list" where
  "bucket_sizes = [8, 16, 32, 64, 128, 256, 512, 1024, 2048, 4096]"

definition block_dir0 :: "(u32 \<times> block_desc list) list" where
  "block_dir0 = map (\<lambda>sz. (sz, [])) bucket_sizes @ [(0, [])]"

definition Init_block_desc :: "mstate \<Rightarrow> mstate res" where
  "Init_block_desc s =
     kbind (page_alloc 1 (pg s)) (\<lambda>(first, pg').
       if first = 0 then Inl (Panic ''Out of bolck_buket_desc[]!'')
       else Inr (s\<lparr>pg := pg',
                   free_block_desc := map (\<lambda>i. first + of_nat (32 * i)) [0..<DESCS_PER_PAGE]
                                        @ free_block_desc s\<rparr>))"

section \<open>Allocation\<close>

text \<open>The directory entry for a request: stops at the entry of size 0 that ends the table.\<close>

fun find_bdir :: "u32 \<Rightarrow> (u32 \<times> block_desc list) list \<Rightarrow> nat \<Rightarrow> nat res" where
  "find_bdir len [] i = Inl OutOfBounds"
| "find_bdir len ((sz, _) # ds) i =
     (if sz = 0 then Inl (Panic ''malloc : bad arg'')
      else if len \<le> sz then Inr i else find_bdir len ds (Suc i))"

fun find_free_desc :: "block_desc list \<Rightarrow> nat \<Rightarrow> nat option" where
  "find_free_desc [] i = None"
| "find_free_desc (d # ds) i = (if freeptr d \<noteq> 0 then Some i else find_free_desc ds (Suc i))"

text \<open>
  The chain of \<open>n\<close> objects of \<open>sz\<close> bytes from \<open>cp\<close> on: each first word points to the next
  object, the last one is NULL.
\<close>

fun chain_objects :: "(u64 \<Rightarrow> u64) \<Rightarrow> u64 \<Rightarrow> u64 \<Rightarrow> nat \<Rightarrow> u64 \<Rightarrow> u64" where
  "chain_objects hm cp sz 0 = hm(cp := 0)"
| "chain_objects hm cp sz (Suc n) = chain_objects (hm(cp := cp + sz)) (cp + sz) sz n"

definition new_desc :: "u32 \<Rightarrow> nat \<Rightarrow> mstate \<Rightarrow> mstate res" where
  "new_desc sz b s =
     kbind (if free_block_desc s = [] then Init_block_desc s else Inr s) (\<lambda>s1.
       case free_block_desc s1 of
         [] \<Rightarrow> Inl NullDeref
       | da # rest \<Rightarrow>
           kbind (page_alloc 1 (pg s1)) (\<lambda>(cp, pg').
             if cp = 0 then Inl (Panic ''out of memory in malloc '')
             else
               let d = \<lparr>daddr = da, block = cp, freeptr = cp, blocnt = 0, block_size = ucast sz\<rparr>;
                   hm = chain_objects (hmem pg') cp (ucast sz) (4096 div unat (block_size d) - 1)
               in kbind (kget (block_dir s1) b) (\<lambda>(bsz, ds).
                  Inr (s1\<lparr>pg := pg'\<lparr>hmem := hm\<rparr>, free_block_desc := rest,
                          block_dir := (block_dir s1)[b := (bsz, d # ds)]\<rparr>))))"

text \<open>Take the first free object of the descriptor at index \<open>k\<close> of bucket \<open>b\<close>.\<close>

definition take_object :: "nat \<Rightarrow> nat \<Rightarrow> mstate \<Rightarrow> (u64 \<times> mstate) res" where
  "take_object b k s =
     kbind (kget (block_dir s) b) (\<lambda>(sz, ds).
     kbind (kget ds k) (\<lambda>d.
       let retval = freeptr d;
           d' = d\<lparr>freeptr := hmem (pg s) retval, blocnt := blocnt d + 1\<rparr>
       in Inr (retval, s\<lparr>block_dir := (block_dir s)[b := (sz, ds[k := d'])]\<rparr>)))"

definition kmalloc :: "u32 \<Rightarrow> mstate \<Rightarrow> (u64 \<times> mstate) res" where
  "kmalloc len s =
     kbind (find_bdir len (block_dir s) 0) (\<lambda>b.
     kbind (kget (block_dir s) b) (\<lambda>(sz, ds).
       case find_free_desc ds 0 of
         Some k \<Rightarrow> take_object b k s
       | None \<Rightarrow> kbind (new_desc sz b s) (take_object b 0)))"

section \<open>Release\<close>

fun find_block :: "u64 \<Rightarrow> block_desc list \<Rightarrow> nat \<Rightarrow> nat option" where
  "find_block page [] k = None"
| "find_block page (d # ds) k = (if block d = page then Some k else find_block page ds (Suc k))"

fun find_owner :: "u64 \<Rightarrow> u32 \<Rightarrow> (u32 \<times> block_desc list) list \<Rightarrow> nat \<Rightarrow> (nat \<times> nat) res" where
  "find_owner page sze [] b = Inl OutOfBounds"
| "find_owner page sze ((sz, ds) # rest) b =
     (if sz = 0 then Inl (Panic ''error adress passed to _free_ ()'')
      else if sz < sze then find_owner page sze rest (Suc b)
      else case find_block page ds 0 of
             Some k \<Rightarrow> Inr (b, k)
           | None \<Rightarrow> find_owner page sze rest (Suc b))"

text \<open>
  Unlinking the descriptor at index \<open>k\<close>. For \<open>k = 0\<close> there is no predecessor and the head
  moves on. Otherwise the test \<^verbatim>\<open>prev->block != bdesc\<close> compares a page with a descriptor and
  holds (\<open>page_is_desc\<close> is its negation), so the search restarts at the head, where
  \<^verbatim>\<open>if(prev->next = bdesc)\<close> assigns instead of comparing: the head becomes the predecessor.
\<close>

definition unlink_desc :: "block_desc list \<Rightarrow> nat \<Rightarrow> block_desc list" where
  "unlink_desc ds k =
     (if k = 0 then drop 1 ds
      else let prev = ds ! (k - 1); bdesc = ds ! k
           in if block prev \<noteq> daddr bdesc then take 1 ds @ drop (Suc k) ds
              else take k ds @ drop (Suc k) ds)"

definition kfree :: "u64 \<Rightarrow> u32 \<Rightarrow> mstate \<Rightarrow> mstate res" where
  "kfree obj sze s =
     (let page = ucast ((ucast obj :: u32) AND 0xFFFFF000) :: u64 in
      kbind (find_owner page sze (block_dir s) 0) (\<lambda>(b, k).
      kbind (kget (block_dir s) b) (\<lambda>(sz, ds).
      kbind (kget ds k) (\<lambda>d.
        if obj = 0 then Inl NullDeref
        else
          let pg1 = (pg s)\<lparr>hmem := (hmem (pg s))(obj := freeptr d)\<rparr>;
              d' = d\<lparr>freeptr := obj, blocnt := blocnt d - 1\<rparr>;
              ds' = ds[k := d']
          in if blocnt d' = 0 then
               kbind (page_free (block d') pg1) (\<lambda>pg2.
                 Inr (s\<lparr>pg := pg2, block_dir := (block_dir s)[b := (sz, unlink_desc ds' k)],
                         free_block_desc := daddr d' # free_block_desc s\<rparr>))
             else Inr (s\<lparr>pg := pg1, block_dir := (block_dir s)[b := (sz, ds')]\<rparr>)))))"

section \<open>Objects, chains and the heap invariant\<close>

text \<open>The objects of a page: the addresses at multiples of the object size.\<close>

definition objects :: "u64 \<Rightarrow> nat \<Rightarrow> u64 set" where
  "objects b sz = {b + of_nat (k * sz) | k. k < 4096 div sz}"

text \<open>\<open>chain hm p xs\<close>: following first words from \<open>p\<close> visits exactly \<open>xs\<close> and ends in NULL.\<close>

fun chain :: "(u64 \<Rightarrow> u64) \<Rightarrow> u64 \<Rightarrow> u64 list \<Rightarrow> bool" where
  "chain hm p [] = (p = 0)"
| "chain hm p (x # xs) = (p = x \<and> x \<noteq> 0 \<and> chain hm (hm x) xs)"

text \<open>
  A descriptor is sound for size \<open>sz\<close> with free objects \<open>fs\<close>: they are distinct objects of its
  page, chained from \<^verbatim>\<open>freeptr\<close>, and the reference count is the number of the others.
\<close>

definition desc_ok :: "(u64 \<Rightarrow> u64) \<Rightarrow> nat \<Rightarrow> block_desc \<Rightarrow> u64 list \<Rightarrow> bool" where
  "desc_ok hm sz d fs \<longleftrightarrow>
     chain hm (freeptr d) fs \<and> distinct fs \<and> set fs \<subseteq> objects (block d) sz \<and>
     unat (blocnt d) + length fs = 4096 div sz"

definition bucket :: "mstate \<Rightarrow> nat \<Rightarrow> block_desc list" where
  "bucket s b = snd (block_dir s ! b)"

definition sizes :: "nat list" where
  "sizes = [8, 16, 32, 64, 128, 256, 512, 1024, 2048, 4096, 0]"

definition minv :: "mstate \<Rightarrow> bool" where
  "minv s \<longleftrightarrow>
     single_pages (pg s) \<and> 4096 dvd unat (alloc_start (pg s)) \<and>
     map (unat \<circ> fst) (block_dir s) = sizes \<and>
     (\<forall>i<10. distinct (map block (bucket s i)) \<and> block ` set (bucket s i) \<subseteq> live_pages (pg s) \<and>
             (\<forall>d\<in>set (bucket s i). \<exists>fs. desc_ok (hmem (pg s)) (sizes ! i) d fs)) \<and>
     (\<forall>i<10. \<forall>j<10. i \<noteq> j \<longrightarrow> block ` set (bucket s i) \<inter> block ` set (bucket s j) = {})"

text \<open>The objects handed out: objects of some page that are not on its chain.\<close>

definition live_of :: "(u64 \<Rightarrow> u64) \<Rightarrow> nat \<Rightarrow> block_desc \<Rightarrow> u64 set" where
  "live_of hm sz d = {a \<in> objects (block d) sz. \<exists>fs. desc_ok hm sz d fs \<and> a \<notin> set fs}"

definition live_objs :: "mstate \<Rightarrow> u64 set" where
  "live_objs s = (\<Union>i\<in>{..<10}. \<Union>d\<in>set (bucket s i). live_of (hmem (pg s)) (sizes ! i) d)"

lemma chain_unique: "chain hm p xs \<Longrightarrow> chain hm p ys \<Longrightarrow> xs = ys"
proof (induction xs arbitrary: p ys)
  case Nil
  then show ?case by (cases ys) auto
next
  case (Cons x xs)
  then show ?case by (cases ys) auto
qed

lemma chain_cong:
  "(\<And>a. a \<in> set xs \<Longrightarrow> hm' a = hm a) \<Longrightarrow> chain hm' p xs = chain hm p xs"
  by (induction xs arbitrary: p) auto

lemma desc_ok_unique: "desc_ok hm sz d fs \<Longrightarrow> desc_ok hm sz d gs \<Longrightarrow> fs = gs"
  by (auto simp: desc_ok_def dest: chain_unique)

lemma desc_ok_cong:
  assumes "\<And>a. a \<in> objects (block d) sz \<Longrightarrow> hm' a = hm a"
  shows "desc_ok hm' sz d fs = desc_ok hm sz d fs"
proof -
  have "set fs \<subseteq> objects (block d) sz \<Longrightarrow> chain hm' (freeptr d) fs = chain hm (freeptr d) fs"
    using assms by (intro chain_cong) auto
  then show ?thesis by (auto simp: desc_ok_def)
qed

lemma sizes_facts:
  assumes "b < 10"
  shows "8 \<le> sizes ! b" and "sizes ! b \<le> 4096" and "sizes ! b dvd 4096"
    and "1 \<le> 4096 div sizes ! b" and "4096 div sizes ! b \<le> 512"
proof -
  have "b \<in> {0, 1, 2, 3, 4, 5, 6, 7, 8, 9}" using assms by auto
  then show "8 \<le> sizes ! b" "sizes ! b \<le> 4096" "sizes ! b dvd 4096"
    "1 \<le> 4096 div sizes ! b" "4096 div sizes ! b \<le> 512"
    by (auto simp: sizes_def)
qed

section \<open>Addresses\<close>

definition page_of :: "u64 \<Rightarrow> u64" where
  "page_of obj = ucast ((ucast obj :: u32) AND 0xFFFFF000)"

lemma unat_page_of: "unat (page_of a) = unat a mod 2 ^ 32 div 4096 * 4096"
proof -
  have "(0xFFFFF000 :: u32) = NOT (mask 12)" by (simp add: mask_eq_exp_minus_1)
  then have "unat ((ucast a :: u32) AND 0xFFFFF000) = unat (ucast a :: u32) div 2 ^ 12 * 2 ^ 12"
    by (simp only: unat_and_not_mask)
  then show ?thesis by (simp add: page_of_def unat_ucast_mod)
qed

text \<open>A page the allocator can own: page-aligned, not NULL, below four gigabytes.\<close>

definition page_ok :: "u64 \<Rightarrow> bool" where
  "page_ok b \<longleftrightarrow> 4096 dvd unat b \<and> 0 < unat b \<and> unat b + 4096 \<le> 2 ^ 32"

lemma object_unat:
  assumes "page_ok b" and "k < 4096 div sz" and "sz \<le> 4096"
  shows "unat (b + of_nat (k * sz)) = unat b + k * sz" and "k * sz < 4096"
proof -
  have "sz \<noteq> 0" using assms(2) by (cases sz) auto
  then show lt: "k * sz < 4096"
    using assms(2) by (metis div_less_iff_less_mult leD leI neq0_conv nonzero_mult_div_cancel_right div_le_mono)
  have "unat (of_nat (k * sz) :: u64) = k * sz"
    using lt by (simp only: unat_of_nat) simp
  moreover have "unat b + k * sz < 2 ^ 64" using lt assms(1) by (simp add: page_ok_def)
  ultimately show "unat (b + of_nat (k * sz)) = unat b + k * sz"
    using iffD1 [OF unat_add_lem, of b "of_nat (k * sz)"] by simp
qed

lemma object_page:
  assumes "page_ok b" and "a \<in> objects b sz" and "sz \<le> 4096"
  shows "page_of a = b" and "a \<noteq> 0"
proof -
  obtain k where k: "k < 4096 div sz" "a = b + of_nat (k * sz)" using assms(2) by (auto simp: objects_def)
  note u = object_unat [OF assms(1) k(1) assms(3)]
  obtain q where q: "unat b = 4096 * q" using assms(1) by (auto simp: page_ok_def)
  have "unat a = 4096 * q + k * sz" using u k(2) q by simp
  moreover have "unat a < 2 ^ 32" using u k(2) assms(1) by (simp add: page_ok_def)
  ultimately have "unat (page_of a) = unat b" using u(2) q by (simp add: unat_page_of)
  then show "page_of a = b" by (simp only: word_unat_eq_iff)
  have "unat a \<noteq> 0" using u k(2) assms(1) by (simp add: page_ok_def)
  then show "a \<noteq> 0" by auto
qed

lemma objects_list:
  assumes "page_ok b" and "sz \<le> 4096"
  defines "xs \<equiv> map (\<lambda>k. b + of_nat (k * sz)) [0..<4096 div sz]"
  shows "distinct xs" and "set xs = objects b sz" and "length xs = 4096 div sz"
proof -
  show "distinct xs" unfolding xs_def distinct_map
  proof (intro conjI inj_onI)
    fix i j assume ij: "i \<in> set [0..<4096 div sz]" "j \<in> set [0..<4096 div sz]"
      and eq: "b + of_nat (i * sz) = b + of_nat (j * sz)"
    have "unat b + i * sz = unat b + j * sz"
      using object_unat(1) [OF assms(1) _ assms(2), of i] object_unat(1) [OF assms(1) _ assms(2), of j] ij
      unfolding eq by auto
    moreover have "sz \<noteq> 0" using ij by (cases sz) auto
    ultimately show "i = j" by (metis add_left_cancel mult_right_cancel)
  qed simp
  show "set xs = objects b sz" "length xs = 4096 div sz" by (auto simp: xs_def objects_def)
qed

lemma live_page_ok:
  assumes "single_pages g" and "4096 dvd unat (alloc_start g)" and "p \<in> live_pages g"
  shows "page_ok p"
proof -
  obtain bs where bs: "pg_abs g bs" using assms(1) by (auto simp: single_pages_def)
  obtain i where i: "i < unat (num_pages g)" "p = page_addr g i" using assms(3) by (auto simp: live_pages_def)
  have u: "unat p = unat (alloc_start g) + 4096 * i" using page_addr_facts(1) [OF bs i(1)] i(2) by simp
  have "unat (alloc_start g) + 4096 * unat (num_pages g) < 2 ^ 32" and nz: "alloc_start g \<noteq> 0"
    using bs by (auto simp: pg_abs_def)
  then have "unat p + 4096 \<le> 2 ^ 32" using u i(1) by simp
  moreover have "0 < unat p" using u nz by (simp add: unat_gt_0)
  ultimately show ?thesis using u assms(2) by (simp add: page_ok_def)
qed

lemma page_state_hmem [simp]:
  "single_pages (g\<lparr>hmem := h\<rparr>) = single_pages g" "live_pages (g\<lparr>hmem := h\<rparr>) = live_pages g"
  by (simp_all add: single_pages_def live_pages_def pg_abs_def page_addr_def)

lemma page_alloc_one:
  assumes "single_pages g"
  obtains "page_alloc 1 g = Inr (0, g)" and "page_alloc1 g = None"
  | p ds where "page_alloc 1 g = Inr (p, g\<lparr>descs := ds\<rparr>)" and "p \<noteq> 0"
      and "page_alloc1 g = Some (p, g\<lparr>descs := ds\<rparr>)"
proof -
  obtain bs where n: "0 < unat (num_pages g)" and bs: "pg_abs g bs"
    using assms by (auto simp: single_pages_def)
  have "1 \<le> unat (num_pages g)" using n by simp
  from page_alloc_cases [OF bs zero_less_one this] show ?thesis
  proof (elim disjE exE conjE)
    assume "page_alloc (int 1) g = Inr (0, g)"
    then show ?thesis using that(1) by (simp add: page_alloc1_def)
  next
    fix pre post
    let ?ds = "table_of (pre @ Block (1 - 1) # post) @ drop (unat (num_pages g)) (descs g)"
    assume sp: "bs = pre @ replicate 1 FreePage @ post"
      and a: "page_alloc (int 1) g = Inr (page_addr g (length (table_of pre)), g\<lparr>descs := ?ds\<rparr>)"
    have "length (table_of bs) = unat (num_pages g)" using bs by (rule pg_abs_descs)
    then have "length (table_of pre) < unat (num_pages g)" unfolding sp by simp
    then have "page_addr g (length (table_of pre)) \<noteq> 0" using page_addr_facts(2) [OF bs] by blast
    then show ?thesis using that(2) a by (simp add: page_alloc1_def)
  qed
qed

section \<open>The chain of a fresh page\<close>

lemma chain_objects_correct:
  assumes "distinct (map (\<lambda>k. cp + of_nat k * sz) [0..<Suc n])"
    and "0 \<notin> set (map (\<lambda>k. cp + of_nat k * sz) [0..<Suc n])"
  shows "chain (chain_objects hm cp sz n) cp (map (\<lambda>k. cp + of_nat k * sz) [0..<Suc n]) \<and>
    (\<forall>a. a \<notin> set (map (\<lambda>k. cp + of_nat k * sz) [0..<Suc n]) \<longrightarrow> chain_objects hm cp sz n a = hm a)"
  using assms
proof (induction n arbitrary: hm cp)
  case 0
  then show ?case by simp
next
  case (Suc n)
  have split: "map (\<lambda>k. cp + of_nat k * sz) [0..<Suc (Suc n)] =
      cp # map (\<lambda>k. (cp + sz) + of_nat k * sz) [0..<Suc n]" for cp
  proof -
    have "[0..<Suc (Suc n)] = 0 # map Suc [0..<Suc n]" 
      by (subst map_Suc_upt) (rule upt_conv_Cons, simp)
    then show ?thesis by (simp add: algebra_simps del: upt_Suc)
  qed
  let ?xs = "map (\<lambda>k. (cp + sz) + of_nat k * sz) [0..<Suc n]"
  have prems: "distinct (cp # ?xs)" "0 \<notin> set (cp # ?xs)" using Suc.prems unfolding split by simp_all
  have IH: "chain (chain_objects (hm(cp := cp + sz)) (cp + sz) sz n) (cp + sz) ?xs \<and>
    (\<forall>a. a \<notin> set ?xs \<longrightarrow> chain_objects (hm(cp := cp + sz)) (cp + sz) sz n a = (hm(cp := cp + sz)) a)"
    using prems by (intro Suc.IH) simp_all
  then have "chain_objects (hm(cp := cp + sz)) (cp + sz) sz n cp = cp + sz" using prems by simp
  with IH show ?case unfolding split using prems by (simp del: upt_Suc)
qed

lemma fresh_desc_ok:
  assumes "page_ok cp" and "b < 10" and "unat sz = sizes ! b"
    and hm': "hm' = chain_objects hm cp (ucast sz) (4096 div unat (ucast sz :: u16) - 1)"
    and d: "d = \<lparr>daddr = da, block = cp, freeptr = cp, blocnt = 0, block_size = ucast sz\<rparr>"
  shows "\<exists>fs. desc_ok hm' (sizes ! b) d fs \<and> set fs = objects cp (sizes ! b)"
    and "\<And>a. a \<notin> objects cp (sizes ! b) \<Longrightarrow> hm' a = hm a"
proof -
  note sf = sizes_facts [OF assms(2)]
  let ?n = "4096 div sizes ! b"
  let ?xs = "map (\<lambda>k. cp + of_nat k * ucast sz) [0..<Suc (?n - 1)]"
  have u16: "unat (ucast sz :: u16) = sizes ! b" using sf(2) assms(3) by (simp add: unat_ucast_mod)
  have "ucast sz = (of_nat (sizes ! b) :: u64)"
    using assms(3) by (metis unat_widen(6) word_nat_cases unat_of_nat word_unat_eq_iff of_nat_unat ucast_id)
  then have xs: "?xs = map (\<lambda>k. cp + of_nat (k * sizes ! b)) [0..<?n]" using sf(4) by simp
  note ol = objects_list [OF assms(1) sf(2), folded xs]
  have "0 \<notin> objects cp (sizes ! b)" using object_page(2) [OF assms(1) _ sf(2)] by blast
  then have z: "0 \<notin> set ?xs" unfolding ol(2) .
  have c: "chain hm' cp ?xs" and frame: "\<forall>a. a \<notin> set ?xs \<longrightarrow> hm' a = hm a"
    using chain_objects_correct [OF ol(1) z, of hm] unfolding hm' u16 by blast+
  then show "\<exists>fs. desc_ok hm' (sizes ! b) d fs \<and> set fs = objects cp (sizes ! b)"
    using ol unfolding desc_ok_def d by (intro exI [of _ ?xs]) (simp del: upt_Suc)
  show "hm' a = hm a" if "a \<notin> objects cp (sizes ! b)" for a using frame ol(2) that by blast
qed

section \<open>The directory\<close>

lemma minv_dir:
  assumes "minv s"
  shows "length (block_dir s) = 11" and "\<And>b. b < 11 \<Longrightarrow> unat (fst (block_dir s ! b)) = sizes ! b"
proof -
  have m: "map (unat \<circ> fst) (block_dir s) = sizes" using assms by (simp add: minv_def)
  then have "length (map (unat \<circ> fst) (block_dir s)) = 11" by (simp add: sizes_def)
  then show l: "length (block_dir s) = 11" by simp
  show "unat (fst (block_dir s ! b)) = sizes ! b" if "b < 11" for b
    using that l nth_map [of b "block_dir s" "unat \<circ> fst"] m by simp
qed

lemma find_bdir_Inr:
  "j < length es \<Longrightarrow> (\<forall>k\<le>j. fst (es ! k) \<noteq> 0) \<Longrightarrow> len \<le> fst (es ! j) \<Longrightarrow>
   \<exists>b\<le>j. find_bdir len es i = Inr (i + b) \<and> len \<le> fst (es ! b) \<and> (\<forall>k<b. fst (es ! k) < len)"
proof (induction es arbitrary: i j)
  case Nil
  then show ?case by simp
next
  case (Cons e es)
  obtain sz ds where e: "e = (sz, ds)" by (cases e)
  have nz: "sz \<noteq> 0" using Cons.prems(2) e by (metis fst_conv le0 nth_Cons_0)
  show ?case
  proof (cases "len \<le> sz")
    case True
    then show ?thesis using nz e by (intro exI [of _ 0]) simp
  next
    case False
    then obtain j' where j: "j = Suc j'" using Cons.prems(3) e by (cases j) auto
    have "\<forall>k\<le>j'. fst (es ! k) \<noteq> 0" using Cons.prems(2) j by (metis Suc_le_mono nth_Cons_Suc)
    then obtain b where b: "b \<le> j'" "find_bdir len es (Suc i) = Inr (Suc i + b)" "len \<le> fst (es ! b)"
      "\<forall>k<b. fst (es ! k) < len"
      using Cons.IH [of j' "Suc i"] Cons.prems j by auto
    have "\<forall>k<Suc b. fst ((e # es) ! k) < len"
      using b(4) False e by (auto simp: nth_Cons not_le split: nat.splits)
    then show ?thesis using b nz e j False by (intro exI [of _ "Suc b"]) simp
  qed
qed

lemma find_bdir_minv:
  assumes "minv s" and "unat len \<le> 4096"
  obtains b where "b < 10" and "find_bdir len (block_dir s) 0 = Inr b" and "unat len \<le> sizes ! b"
    and "\<forall>k<b. sizes ! k < unat len"
proof -
  note d = minv_dir [OF assms(1)]
  have "\<forall>k\<le>9. fst (block_dir s ! k) \<noteq> 0"
  proof (intro allI impI)
    fix k :: nat assume "k \<le> 9"
    then have "unat (fst (block_dir s ! k)) \<noteq> 0" using d(2) [of k] sizes_facts(1) [of k] by simp
    then show "fst (block_dir s ! k) \<noteq> 0" by auto
  qed
  moreover have "len \<le> fst (block_dir s ! 9)"
    using d(2) [of 9] assms(2) by (simp add: word_le_nat_alt sizes_def)
  ultimately obtain b where b: "b \<le> 9" "find_bdir len (block_dir s) 0 = Inr b"
    "len \<le> fst (block_dir s ! b)" "\<forall>k<b. fst (block_dir s ! k) < len"
    using find_bdir_Inr [of 9 "block_dir s" len 0] d(1) by auto
  show ?thesis
  proof
    show "unat len \<le> sizes ! b" using b(1,3) d(2) [of b] by (simp add: word_le_nat_alt)
    show "\<forall>k<b. sizes ! k < unat len"
    proof (intro allI impI)
      fix k assume "k < b"
      then show "sizes ! k < unat len" using b(1) b(4) [rule_format, of k] d(2) [of k] by (simp add: word_less_nat_alt)
    qed
  qed (use b in auto)
qed

section \<open>Replacing one descriptor\<close>

lemma live_of_ok: "desc_ok hm sz d fs \<Longrightarrow> live_of hm sz d = objects (block d) sz - set fs"
  by (auto simp: live_of_def dest: desc_ok_unique)

lemma live_of_cong:
  "(\<And>a. a \<in> objects (block d) sz \<Longrightarrow> hm' a = hm a) \<Longrightarrow> live_of hm' sz d = live_of hm sz d"
  using desc_ok_cong [of d sz hm' hm] by (simp add: live_of_def)

text \<open>
  Every operation replaces at most one descriptor of one bucket (none by a fresh one, one by
  its update, one by none) and writes only into the page \<open>P\<close> of that descriptor. The rest of
  the directory keeps its soundness and its live objects.
\<close>

definition others :: "mstate \<Rightarrow> nat \<Rightarrow> block_desc list \<Rightarrow> nat \<Rightarrow> block_desc list" where
  "others s b ds i = (if i = b then ds else bucket s i)"

definition live_others :: "mstate \<Rightarrow> nat \<Rightarrow> block_desc list \<Rightarrow> u64 set" where
  "live_others s b ds = (\<Union>i\<in>{..<10}. \<Union>d\<in>set (others s b ds i). live_of (hmem (pg s)) (sizes ! i) d)"

lemma live_objs_split:
  assumes "b < 10" and "bucket s b = l1 @ m @ l2"
  shows "live_objs s = live_others s b (l1 @ l2) \<union> (\<Union>d\<in>set m. live_of (hmem (pg s)) (sizes ! b) d)"
proof -
  have split: "(\<Union>i\<in>{..<10}. F i) = (\<Union>i\<in>{..<10} - {b}. F i) \<union> F b" for F :: "nat \<Rightarrow> u64 set"
    using assms(1) by blast
  have "(\<Union>i\<in>{..<10} - {b}. \<Union>d\<in>set (others s b (l1 @ l2) i). live_of (hmem (pg s)) (sizes ! i) d) =
    (\<Union>i\<in>{..<10} - {b}. \<Union>d\<in>set (bucket s i). live_of (hmem (pg s)) (sizes ! i) d)"
    by (intro SUP_cong refl) (auto simp: others_def)
  moreover have "others s b (l1 @ l2) b = l1 @ l2" by (simp add: others_def)
  ultimately show ?thesis
    unfolding live_objs_def live_others_def split using assms(2) by auto
qed

lemma minv_page_ok:
  assumes "minv s" and "i < 10" and "d \<in> set (bucket s i)"
  shows "page_ok (block d)" and "block d \<in> live_pages (pg s)"
    and "\<exists>fs. desc_ok (hmem (pg s)) (sizes ! i) d fs"
proof -
  show live: "block d \<in> live_pages (pg s)" and "\<exists>fs. desc_ok (hmem (pg s)) (sizes ! i) d fs"
    using assms unfolding minv_def by blast+
  show "page_ok (block d)" using assms(1) live_page_ok [OF _ _ live] by (simp add: minv_def)
qed

lemma disjoint_unions:
  assumes "A \<inter> B = {}" and "M \<inter> B = {}" and "N \<inter> A = {}" and "M \<inter> N = {}"
    and "X \<subseteq> A \<union> M" and "Y \<subseteq> B \<union> N"
  shows "X \<inter> Y = {}"
  using assms by blast

lemma replace_desc:
  assumes inv: "minv s" and b: "b < 10" and ds: "bucket s b = l1 @ m @ l2"
    and s': "s' = s\<lparr>pg := g, free_block_desc := fd,
                     block_dir := (block_dir s)[b := (fst (block_dir s ! b), l1 @ m' @ l2)]\<rparr>"
    and g: "single_pages g" "alloc_start g = alloc_start (pg s)" "live_pages (pg s) - {P} \<subseteq> live_pages g"
    and frame: "\<And>a. page_of a \<noteq> P \<Longrightarrow> hmem g a = hmem (pg s) a"
    and m': "length m' \<le> 1" "\<And>d. d \<in> set m' \<Longrightarrow> block d = P \<and> (\<exists>fs. desc_ok (hmem g) (sizes ! b) d fs)"
      "m' \<noteq> [] \<Longrightarrow> P \<in> live_pages g"
    and P: "\<And>i d. i < 10 \<Longrightarrow> d \<in> set (others s b (l1 @ l2) i) \<Longrightarrow> block d \<noteq> P"
  shows "minv s'" and "live_objs s' = live_others s b (l1 @ l2) \<union> (\<Union>d\<in>set m'. live_of (hmem g) (sizes ! b) d)"
proof -
  have len: "length (block_dir s) = 11" using minv_dir [OF inv] by simp
  have bk: "bucket s' i = (if i = b then l1 @ m' @ l2 else bucket s i)" if "i < 10" for i
    using that len b by (auto simp: bucket_def s' nth_list_update)
  have oth: "d \<in> set (bucket s i)" if "i < 10" "d \<in> set (others s b (l1 @ l2) i)" for i d
    using that ds by (auto simp: others_def split: if_splits)
  have keep: "hmem g a = hmem (pg s) a"
    if "i < 10" "d \<in> set (others s b (l1 @ l2) i)" "a \<in> objects (block d) (sizes ! i)" for i d a
  proof -
    have "page_of a = block d"
      using object_page(1) [OF minv_page_ok(1) [OF inv that(1) oth [OF that(1,2)]] that(3)] sizes_facts(2) that(1) by blast
    then show ?thesis using frame P that(1,2) by simp
  qed
  have sound: "\<exists>fs. desc_ok (hmem g) (sizes ! i) d fs" if "i < 10" "d \<in> set (others s b (l1 @ l2) i)" for i d
    using minv_page_ok(3) [OF inv that(1) oth [OF that]] by (simp add: desc_ok_cong [OF keep [OF that]])
  have blk: "block d \<in> live_pages g" if "i < 10" "d \<in> set (others s b (l1 @ l2) i)" for i d
    using minv_page_ok(2) [OF inv that(1) oth [OF that]] P [OF that] g(3) by blast
  have new: "set (bucket s' i) \<subseteq> set (others s b (l1 @ l2) i) \<union> (if i = b then set m' else {})" if "i < 10" for i
    using bk [OF that] by (auto simp: others_def)
  have dist: "distinct (map block (bucket s' i))" if "i < 10" for i
  proof (cases "i = b")
    case True
    have "distinct (map block (l1 @ m @ l2))" using inv b ds unfolding minv_def by metis
    then have d12: "distinct (map block (l1 @ l2))" by auto
    have n: "P \<notin> block ` set (l1 @ l2)" using P [OF b] by (auto simp: others_def)
    consider "m' = []" | d where "m' = [d]" "block d = P"
      using m'(1,2) by (cases m') (auto simp: le_Suc_eq)
    then show ?thesis using d12 n bk [OF b] True by cases auto
  next
    case False
    then show ?thesis using inv that bk [OF that] by (simp add: minv_def)
  qed
  have disj: "block ` set (bucket s' i) \<inter> block ` set (bucket s' j) = {}" if ij: "i < 10" "j < 10" "i \<noteq> j" for i j
  proof -
    have "block ` set (others s b (l1 @ l2) i) \<inter> block ` set (others s b (l1 @ l2) j) = {}"
    proof -
      have "block ` set (bucket s i) \<inter> block ` set (bucket s j) = {}" using inv ij unfolding minv_def by blast
      then show ?thesis using oth [OF ij(1)] oth [OF ij(2)] by blast
    qed
    moreover have n1: "block ` (if i = b then set m' else {}) \<inter> block ` set (others s b (l1 @ l2) j) = {}"
      and n2: "block ` (if j = b then set m' else {}) \<inter> block ` set (others s b (l1 @ l2) i) = {}"
      using P [OF ij(1)] P [OF ij(2)] m'(2) by auto
    moreover have "block ` (if i = b then set m' else {}) \<inter> block ` (if j = b then set m' else {}) = {}"
      using ij(3) by auto
    moreover have "block ` set (bucket s' i) \<subseteq> block ` set (others s b (l1 @ l2) i) \<union> block ` (if i = b then set m' else {})"
      "block ` set (bucket s' j) \<subseteq> block ` set (others s b (l1 @ l2) j) \<union> block ` (if j = b then set m' else {})"
      using image_mono [OF new [OF ij(1)], of block] image_mono [OF new [OF ij(2)], of block] by (simp_all only: image_Un)
    ultimately show ?thesis by (rule disjoint_unions)
  qed
  have "(\<exists>fs. desc_ok (hmem g) (sizes ! i) d fs) \<and> block d \<in> live_pages g" if "i < 10" "d \<in> set (bucket s' i)" for i d
  proof -
    have "d \<in> set (others s b (l1 @ l2) i) \<or> i = b \<and> d \<in> set m'"
      using subsetD [OF new [OF that(1)] that(2)] by (simp split: if_splits)
    then show ?thesis
    proof
      assume "d \<in> set (others s b (l1 @ l2) i)"
      then show ?thesis using sound blk that(1) by blast
    next
      assume d: "i = b \<and> d \<in> set m'"
      then have "m' \<noteq> []" by auto
      then show ?thesis using m'(2) [of d] m'(3) d by simp
    qed
  qed
  moreover have "map (unat \<circ> fst) (block_dir s') = sizes"
  proof -
    have "map (unat \<circ> fst) (block_dir s') = map (unat \<circ> fst) (block_dir s)"
      by (simp add: s' map_update) (metis comp_apply list_update_id map_update)
    then show ?thesis using inv by (simp add: minv_def)
  qed
  ultimately show "minv s'" using inv g dist disj by (auto simp: minv_def s')
  have "live_objs s' = (\<Union>i\<in>{..<10}. \<Union>d\<in>set (others s b (l1 @ l2) i). live_of (hmem g) (sizes ! i) d)
      \<union> (\<Union>d\<in>set m'. live_of (hmem g) (sizes ! b) d)"
    using live_objs_split [OF b, of s' l1 m' l2] bk b
    by (simp add: live_others_def others_def s' cong: if_cong)
  also have "(\<Union>i\<in>{..<10}. \<Union>d\<in>set (others s b (l1 @ l2) i). live_of (hmem g) (sizes ! i) d) = live_others s b (l1 @ l2)"
    unfolding live_others_def by (intro SUP_cong refl live_of_cong) (use keep in auto)
  finally show "live_objs s' = live_others s b (l1 @ l2) \<union> (\<Union>d\<in>set m'. live_of (hmem g) (sizes ! b) d)" .
qed

section \<open>Allocation\<close>

lemma others_block:
  assumes "minv s" and "b < 10" and "bucket s b = l1 @ d # l2" and "i < 10"
    and "e \<in> set (others s b (l1 @ l2) i)"
  shows "block e \<noteq> block d"
proof (cases "i = b")
  case True
  have "distinct (map block (bucket s b))" using assms(1,2) by (simp add: minv_def)
  then have "block d \<notin> block ` set (l1 @ l2)" using assms(3) by auto
  then show ?thesis using True assms(5) by (metis image_eqI others_def)
next
  case False
  then have e: "block e \<in> block ` set (bucket s i)" using assms(5) by (simp add: others_def)
  have "block ` set (bucket s i) \<inter> block ` set (bucket s b) = {}"
    using assms(1,2,4) False unfolding minv_def by blast
  moreover have "block d \<in> block ` set (bucket s b)" using assms(3) by simp
  ultimately show ?thesis using e by (metis IntI empty_iff)
qed

text \<open>An object of page \<open>P\<close> is not live in any other page.\<close>

lemma not_live_others:
  assumes "minv s" and "a \<in> objects P (sizes ! b)" and "b < 10" and "page_ok P"
    and "set ds \<subseteq> set (bucket s b)"
    and "\<And>i d. i < 10 \<Longrightarrow> d \<in> set (others s b ds i) \<Longrightarrow> block d \<noteq> P"
  shows "a \<notin> live_others s b ds"
proof
  assume "a \<in> live_others s b ds"
  then obtain i d where i: "i < 10" and d: "d \<in> set (others s b ds i)"
    and a: "a \<in> live_of (hmem (pg s)) (sizes ! i) d" by (auto simp: live_others_def)
  have "d \<in> set (bucket s i)" using d assms(5) by (auto simp: others_def split: if_splits)
  then have "page_ok (block d)" using minv_page_ok(1) [OF assms(1) i] by blast
  then have "page_of a = block d"
    using a object_page(1) sizes_facts(2) [OF i] by (auto simp: live_of_def)
  moreover have "page_of a = P" using object_page(1) [OF assms(4,2) sizes_facts(2) [OF assms(3)]] .
  ultimately show False using assms(6) [OF i d] by simp
qed

lemma take_object_correct:
  assumes inv: "minv s" and b: "b < 10" and ds: "bucket s b = l1 @ d # l2" and nz: "freeptr d \<noteq> 0"
  shows "\<exists>s'. take_object b (length l1) s = Inr (freeptr d, s') \<and> minv s' \<and>
    freeptr d \<notin> live_objs s \<and> live_objs s' = insert (freeptr d) (live_objs s) \<and>
    freeptr d \<in> objects (block d) (sizes ! b) \<and>
    (\<exists>d'. bucket s' b = l1 @ d' # l2 \<and> blocnt d' = blocnt d + 1 \<and> freeptr d \<in> live_of (hmem (pg s')) (sizes ! b) d')"
proof -
  let ?p = "freeptr d" and ?sz = "sizes ! b" and ?hm = "hmem (pg s)"
  let ?d = "d\<lparr>freeptr := ?hm ?p, blocnt := blocnt d + 1\<rparr>"
  let ?s = "s\<lparr>pg := pg s, free_block_desc := free_block_desc s,
               block_dir := (block_dir s)[b := (fst (block_dir s ! b), l1 @ [?d] @ l2)]\<rparr>"
  have din: "d \<in> set (bucket s b)" using ds by simp
  obtain fs where fs: "desc_ok ?hm ?sz d fs" using minv_page_ok(3) [OF inv b din] by blast
  then obtain gs where gs: "fs = ?p # gs" using nz by (cases fs) (auto simp: desc_ok_def)
  have cnt: "unat (blocnt d) + length gs + 1 = 4096 div ?sz" using fs gs by (simp add: desc_ok_def)
  then have "unat (blocnt d) + unat (1 :: u16) < 2 ^ LENGTH(16)" using sizes_facts(5) [OF b] by simp
  then have "unat (blocnt d + 1) = unat (blocnt d) + 1" using unat_add_lem by (metis unat_1)
  then have ok: "desc_ok ?hm ?sz ?d gs" using fs gs cnt by (simp add: desc_ok_def)
  have pin: "?p \<in> objects (block d) ?sz" using fs gs by (simp add: desc_ok_def)
  note P = others_block [OF inv b ds]
  have len: "b < length (block_dir s)" using minv_dir [OF inv] b by simp
  have "take_object b (length l1) s = Inr (?p, ?s)"
    using len ds by (cases "block_dir s ! b") (simp add: take_object_def Let_def bucket_def list_update_append)
  moreover have rd: "minv ?s" "live_objs ?s = live_others s b (l1 @ l2) \<union> (\<Union>d\<in>set [?d]. live_of ?hm ?sz d)"
  proof -
    have m: "bucket s b = l1 @ [d] @ l2" "length [?d] \<le> 1" "single_pages (pg s)"
      "live_pages (pg s) - {block d} \<subseteq> live_pages (pg s)" "block d \<in> live_pages (pg s)"
      using ds inv minv_page_ok(2) [OF inv b din] by (auto simp: minv_def)
    have e: "block e = block d \<and> (\<exists>fs. desc_ok ?hm ?sz e fs)" if "e \<in> set [?d]" for e
      using that ok by auto
    note r = replace_desc [OF inv b m(1) refl m(3) refl m(4) refl m(2) e m(5) P]
    show "minv ?s" "live_objs ?s = live_others s b (l1 @ l2) \<union> (\<Union>d\<in>set [?d]. live_of ?hm ?sz d)"
      by (rule r, assumption+)+
  qed
  moreover have l: "live_objs s = live_others s b (l1 @ l2) \<union> live_of ?hm ?sz d"
    using live_objs_split [OF b, of s l1 "[d]" l2] ds by simp
  moreover have "?p \<notin> live_others s b (l1 @ l2)"
    using not_live_others [OF inv pin b minv_page_ok(1) [OF inv b din], of "l1 @ l2"] ds P by auto
  moreover have "live_of ?hm ?sz d = objects (block d) ?sz - set fs" "live_of ?hm ?sz ?d = objects (block d) ?sz - set gs"
    "?p \<notin> set gs"
    using live_of_ok [OF fs] live_of_ok [OF ok] fs gs by (auto simp: desc_ok_def)
  moreover have "bucket ?s b = l1 @ ?d # l2" using len by (simp add: bucket_def)
  ultimately show ?thesis using pin gs by auto
qed

lemma find_free_desc_Some:
  "find_free_desc ds i = Some k \<Longrightarrow> \<exists>l1 d l2. ds = l1 @ d # l2 \<and> k = i + length l1 \<and> freeptr d \<noteq> 0"
proof (induction ds arbitrary: i)
  case Nil
  then show ?case by simp
next
  case (Cons e ds)
  show ?case
  proof (cases "freeptr e = 0")
    case True
    then obtain l1 d l2 where "ds = l1 @ d # l2" "k = Suc i + length l1" "freeptr d \<noteq> 0"
      using Cons by fastforce
    then show ?thesis by (intro exI [of _ "e # l1"] exI [of _ d] exI [of _ l2]) simp
  next
    case False
    then show ?thesis using Cons.prems by (intro exI [of _ "[]"] exI [of _ e] exI [of _ ds]) simp
  qed
qed

lemma page_alloc1_inv:
  assumes "minv s" and "page_alloc1 (pg s) = Some (p, (pg s)\<lparr>descs := ds\<rparr>)"
  shows "single_pages ((pg s)\<lparr>descs := ds\<rparr>)"
    and "live_pages ((pg s)\<lparr>descs := ds\<rparr>) = insert p (live_pages (pg s))"
    and "p \<notin> live_pages (pg s)" and "page_ok p"
proof -
  have sp: "single_pages (pg s)" and al: "4096 dvd unat (alloc_start (pg s))"
    using assms(1) by (simp_all add: minv_def)
  show inv: "single_pages ((pg s)\<lparr>descs := ds\<rparr>)"
    and live: "live_pages ((pg s)\<lparr>descs := ds\<rparr>) = insert p (live_pages (pg s))"
    and "p \<notin> live_pages (pg s)"
    using page_pool.alloc_inv [OF sp assms(2)] page_pool.alloc_live [OF sp assms(2)]
      page_pool.alloc_fresh [OF sp assms(2)] by auto
  show "page_ok p" using live_page_ok [OF inv, of p] al live by simp
qed

lemma minv_more_pages:
  assumes "minv s" and "page_alloc1 (pg s) = Some (p, (pg s)\<lparr>descs := ds\<rparr>)"
  shows "minv (s\<lparr>pg := (pg s)\<lparr>descs := ds\<rparr>, free_block_desc := fd\<rparr>)"
    and "live_objs (s\<lparr>pg := (pg s)\<lparr>descs := ds\<rparr>, free_block_desc := fd\<rparr>) = live_objs s"
    and "bucket (s\<lparr>pg := (pg s)\<lparr>descs := ds\<rparr>, free_block_desc := fd\<rparr>) = bucket s"
proof -
  show b: "bucket (s\<lparr>pg := (pg s)\<lparr>descs := ds\<rparr>, free_block_desc := fd\<rparr>) = bucket s"
    by (simp add: fun_eq_iff bucket_def)
  show "live_objs (s\<lparr>pg := (pg s)\<lparr>descs := ds\<rparr>, free_block_desc := fd\<rparr>) = live_objs s"
    by (simp add: live_objs_def b)
  have "live_pages (pg s) \<subseteq> live_pages ((pg s)\<lparr>descs := ds\<rparr>)"
    using page_alloc1_inv(2) [OF assms] by auto
  then show "minv (s\<lparr>pg := (pg s)\<lparr>descs := ds\<rparr>, free_block_desc := fd\<rparr>)"
    using assms(1) page_alloc1_inv(1) [OF assms] unfolding minv_def b by (simp, meson subset_trans)
qed

lemma new_desc_fresh_page:
  assumes inv: "minv s" and b: "b < 10" and fd: "free_block_desc s = da # rest"
    and a: "page_alloc 1 (pg s) = Inr (cp, (pg s)\<lparr>descs := ds\<rparr>)" "cp \<noteq> 0"
      "page_alloc1 (pg s) = Some (cp, (pg s)\<lparr>descs := ds\<rparr>)"
  shows "\<exists>s' d. new_desc (fst (block_dir s ! b)) b s = Inr s' \<and> minv s' \<and> live_objs s' = live_objs s \<and>
    bucket s' b = d # bucket s b \<and> freeptr d \<noteq> 0"
proof -
  let ?sz = "fst (block_dir s ! b)" and ?g = "(pg s)\<lparr>descs := ds\<rparr>"
  let ?hm = "chain_objects (hmem (pg s)) cp (ucast ?sz) (4096 div unat (ucast ?sz :: u16) - 1)"
  let ?d = "\<lparr>daddr = da, block = cp, freeptr = cp, blocnt = 0, block_size = ucast ?sz\<rparr>"
  let ?s = "s\<lparr>pg := ?g\<lparr>hmem := ?hm\<rparr>, free_block_desc := rest,
               block_dir := (block_dir s)[b := (?sz, [] @ [?d] @ bucket s b)]\<rparr>"
  note pi = page_alloc1_inv [OF inv a(3)]
  have len: "b < length (block_dir s)" and sz: "unat ?sz = sizes ! b" using minv_dir [OF inv] b by simp_all
  obtain fs where fs: "desc_ok ?hm (sizes ! b) ?d fs" "set fs = objects cp (sizes ! b)"
    using fresh_desc_ok(1) [OF pi(4) b sz refl refl] by metis
  have "new_desc ?sz b s = Inr ?s"
    using fd a(1,2) len by (cases "block_dir s ! b") (simp add: new_desc_def Let_def bucket_def)
  moreover have rd: "minv ?s" "live_objs ?s = live_others s b ([] @ bucket s b) \<union>
      (\<Union>d\<in>set [?d]. live_of (hmem (?g\<lparr>hmem := ?hm\<rparr>)) (sizes ! b) d)"
  proof -
    have m: "bucket s b = [] @ [] @ bucket s b" "length [?d] \<le> 1" "single_pages (?g\<lparr>hmem := ?hm\<rparr>)"
      "alloc_start (?g\<lparr>hmem := ?hm\<rparr>) = alloc_start (pg s)"
      "live_pages (pg s) - {cp} \<subseteq> live_pages (?g\<lparr>hmem := ?hm\<rparr>)" "cp \<in> live_pages (?g\<lparr>hmem := ?hm\<rparr>)"
      using pi(1,2) by auto
    have e: "block e = cp \<and> (\<exists>fs. desc_ok (hmem (?g\<lparr>hmem := ?hm\<rparr>)) (sizes ! b) e fs)" if "e \<in> set [?d]" for e
      using that fs(1) by auto
    have frame: "hmem (?g\<lparr>hmem := ?hm\<rparr>) x = hmem (pg s) x" if "page_of x \<noteq> cp" for x
      using that fresh_desc_ok(2) [OF pi(4) b sz refl refl, where hm = "hmem (pg s)" and a = x]
        object_page(1) [OF pi(4), of x "sizes ! b"] sizes_facts(2) [OF b] by auto
    have P: "block e \<noteq> cp" if "i < 10" "e \<in> set (others s b ([] @ bucket s b) i)" for i e
      using that pi(3) minv_page_ok(2) [OF inv that(1), of e] by (auto simp: others_def split: if_splits)
    note r = replace_desc [OF inv b m(1) refl m(3,4,5) frame m(2) e m(6) P]
    show "minv ?s" "live_objs ?s = live_others s b ([] @ bucket s b) \<union>
      (\<Union>d\<in>set [?d]. live_of (hmem (?g\<lparr>hmem := ?hm\<rparr>)) (sizes ! b) d)"
      by (rule r, assumption+)+
  qed
  moreover have "live_objs ?s = live_objs s"
    unfolding rd(2) live_objs_split [OF b, of s "[]" "[]" "bucket s b", simplified]
    using live_of_ok [OF fs(1)] fs(2) by simp
  moreover have "bucket ?s b = ?d # bucket s b" using len by (simp add: bucket_def)
  ultimately show ?thesis using a(2) by (intro exI [of _ ?s] exI [of _ ?d]) simp
qed

lemma new_desc_correct:
  assumes inv: "minv s" and b: "b < 10"
  shows "(\<exists>m. new_desc (fst (block_dir s ! b)) b s = Inl (Panic m) \<and> take_slots page_alloc1 2 (pg s) = None) \<or>
    (\<exists>s' d. new_desc (fst (block_dir s ! b)) b s = Inr s' \<and> minv s' \<and> live_objs s' = live_objs s \<and>
       bucket s' b = d # bucket s b \<and> freeptr d \<noteq> 0)"
proof (cases "free_block_desc s")
  case (Cons da rest)
  have sp: "single_pages (pg s)" using inv by (simp add: minv_def)
  then show ?thesis
  proof (cases rule: page_alloc_one)
    case 1
    then show ?thesis using Cons by (simp add: new_desc_def numeral_2_eq_2)
  next
    case (2 p ds)
    then show ?thesis using new_desc_fresh_page [OF inv b Cons] by blast
  qed
next
  case Nil
  have sp: "single_pages (pg s)" using inv by (simp add: minv_def)
  then show ?thesis
  proof (cases rule: page_alloc_one)
    case 1
    then show ?thesis using Nil by (simp add: new_desc_def Init_block_desc_def numeral_2_eq_2)
  next
    case (2 p ds)
    let ?fd = "map (\<lambda>i. p + of_nat (32 * i)) [0..<DESCS_PER_PAGE]"
    let ?s = "s\<lparr>pg := (pg s)\<lparr>descs := ds\<rparr>, free_block_desc := ?fd\<rparr>"
    have "?fd \<noteq> []" by (simp add: DESCS_PER_PAGE_def)
    then obtain da rest where fd: "?fd = da # rest" by (cases ?fd) auto
    have init: "Init_block_desc s = Inr ?s" using 2 Nil by (simp add: Init_block_desc_def)
    then have same: "new_desc sz b s = new_desc sz b ?s" for sz
      unfolding new_desc_def [of sz b s] new_desc_def [of sz b ?s] using Nil \<open>?fd \<noteq> []\<close> by simp
    note m = minv_more_pages [OF inv 2(3), of ?fd]
    have sp': "single_pages (pg ?s)" using m(1) by (simp add: minv_def)
    then show ?thesis
    proof (cases rule: page_alloc_one)
      case p1: 1
      then have "take_slots page_alloc1 2 (pg s) = None" using 2(3) by (simp add: numeral_2_eq_2)
      then show ?thesis using p1(1) fd unfolding same by (simp add: new_desc_def)
    next
      case p2: (2 p' ds')
      have "\<exists>s' d. new_desc (fst (block_dir ?s ! b)) b ?s = Inr s' \<and> minv s' \<and> live_objs s' = live_objs ?s \<and>
        bucket s' b = d # bucket ?s b \<and> freeptr d \<noteq> 0"
        using new_desc_fresh_page [OF m(1) b _ p2] fd by simp
      then show ?thesis unfolding same m(2,3) by simp
    qed
  qed
qed

lemma kmalloc_cases:
  assumes "minv s" and "unat len \<le> 4096"
  shows "(\<exists>m. kmalloc len s = Inl (Panic m) \<and> take_slots page_alloc1 2 (pg s) = None) \<or>
    (\<exists>p s'. kmalloc len s = Inr (p, s') \<and> minv s' \<and> p \<notin> live_objs s \<and>
       live_objs s' = insert p (live_objs s) \<and>
       (\<exists>b<10. unat len \<le> sizes ! b \<and> (\<forall>k<b. sizes ! k < unat len) \<and>
          (\<exists>P. page_ok P \<and> p \<in> objects P (sizes ! b))))"
proof -
  obtain b where b: "b < 10" "find_bdir len (block_dir s) 0 = Inr b" "unat len \<le> sizes ! b"
    "\<forall>k<b. sizes ! k < unat len"
    using find_bdir_minv [OF assms] .
  let ?sz = "fst (block_dir s ! b)"
  have "b < length (block_dir s)" using minv_dir [OF assms(1)] b(1) by simp
  then have km: "kmalloc len s = (case find_free_desc (bucket s b) 0 of
      Some k \<Rightarrow> take_object b k s | None \<Rightarrow> kbind (new_desc ?sz b s) (take_object b 0))"
    using b(2) by (cases "block_dir s ! b") (simp add: kmalloc_def bucket_def split: option.splits)
  have taken: ?thesis if s1: "minv s1" "live_objs s1 = live_objs s" "bucket s1 b = l1 @ d # l2" "freeptr d \<noteq> 0"
    and k: "kmalloc len s = take_object b (length l1) s1" for s1 l1 d l2
  proof -
    have "page_ok (block d)" using minv_page_ok(1) [OF s1(1) b(1), of d] s1(3) by simp
    then show ?thesis
      using take_object_correct [OF s1(1) b(1) s1(3,4)] s1(2) k b by (intro disjI2) auto
  qed
  show ?thesis
  proof (cases "find_free_desc (bucket s b) 0")
    case (Some k)
    then obtain l1 d l2 where "bucket s b = l1 @ d # l2" "k = length l1" "freeptr d \<noteq> 0"
      using find_free_desc_Some by fastforce
    then show ?thesis using taken [OF assms(1) refl] km Some by simp
  next
    case None
    from new_desc_correct [OF assms(1) b(1)] show ?thesis
    proof (elim disjE exE conjE)
      fix s' d assume s': "new_desc ?sz b s = Inr s'" "minv s'" "live_objs s' = live_objs s"
        "bucket s' b = d # bucket s b" "freeptr d \<noteq> 0"
      then show ?thesis using taken [OF s'(2,3), of "[]" d "bucket s b"] km None by simp
    qed (use km None in simp)
  qed
qed

text \<open>
  C9. \<open>malloc(len)\<close> for at most 4096 bytes in a sound heap: it either panics, and then fewer
  than two pages were left, or returns an object that was not in use, of the smallest size
  class that fits, at an object boundary of a page it owns; nothing else becomes live and
  the heap stays sound.
\<close>

theorem kmalloc_correct:
  assumes "minv s" and "unat len \<le> 4096"
  shows "(\<exists>m. kmalloc len s = Inl (Panic m) \<and> take_slots page_alloc1 2 (pg s) = None) \<or>
    (\<exists>p s'. kmalloc len s = Inr (p, s') \<and> minv s' \<and> p \<notin> live_objs s \<and>
       live_objs s' = insert p (live_objs s) \<and>
       (\<exists>b<10. unat len \<le> sizes ! b \<and> (\<forall>k<b. sizes ! k < unat len) \<and>
          (\<exists>P. page_ok P \<and> p \<in> objects P (sizes ! b))))"
  using assms by (rule kmalloc_cases)

section \<open>Release\<close>

lemma find_block_None: "page \<notin> block ` set ds \<Longrightarrow> find_block page ds i = None"
  by (induction ds arbitrary: i) auto

lemma find_block_Some:
  "page \<notin> block ` set l1 \<Longrightarrow> block d = page \<Longrightarrow> find_block page (l1 @ d # l2) i = Some (i + length l1)"
  by (induction l1 arbitrary: i) auto

lemma find_owner_Inr:
  "b < length es \<Longrightarrow> (\<forall>j\<le>b. fst (es ! j) \<noteq> 0) \<Longrightarrow> (\<forall>j<b. page \<notin> block ` set (snd (es ! j))) \<Longrightarrow>
   find_block page (snd (es ! b)) 0 = Some k \<Longrightarrow> find_owner page 0 es i = Inr (i + b, k)"
proof (induction es arbitrary: i b)
  case Nil
  then show ?case by simp
next
  case (Cons e es)
  obtain sz ds where e: "e = (sz, ds)" by (cases e)
  have nz: "sz \<noteq> 0" using Cons.prems(2) e by (metis fst_conv le0 nth_Cons_0)
  show ?case
  proof (cases b)
    case 0
    then show ?thesis using Cons.prems e nz by simp
  next
    case (Suc b')
    then have "page \<notin> block ` set ds" using Cons.prems(3) e by (metis nth_Cons_0 snd_conv zero_less_Suc)
    moreover have "\<forall>j\<le>b'. fst (es ! j) \<noteq> 0" using Cons.prems(2) Suc by (metis Suc_le_mono nth_Cons_Suc)
    moreover have "\<forall>j<b'. page \<notin> block ` set (snd (es ! j))"
      using Cons.prems(3) Suc by (metis Suc_less_eq nth_Cons_Suc)
    ultimately have "find_owner page 0 es (Suc i) = Inr (Suc i + b', k)"
      using Cons.IH [of b' "Suc i"] Cons.prems Suc by simp
    then show ?thesis using e nz \<open>page \<notin> block ` set ds\<close> Suc by (simp add: find_block_None)
  qed
qed

lemma find_owner_panic:
  "j < length es \<Longrightarrow> fst (es ! j) = 0 \<Longrightarrow> (\<forall>k<j. page \<notin> block ` set (snd (es ! k))) \<Longrightarrow>
   find_owner page 0 es i = Inl (Panic ''error adress passed to _free_ ()'')"
proof (induction es arbitrary: i j)
  case Nil
  then show ?case by simp
next
  case (Cons e es)
  obtain sz ds where e: "e = (sz, ds)" by (cases e)
  show ?case
  proof (cases "sz = 0")
    case False
    then obtain j' where j: "j = Suc j'" using Cons.prems(2) e by (cases j) auto
    then have "page \<notin> block ` set ds" using Cons.prems(3) e by (metis nth_Cons_0 snd_conv zero_less_Suc)
    moreover have "\<forall>k<j'. page \<notin> block ` set (snd (es ! k))"
      using Cons.prems(3) j by (metis Suc_less_eq nth_Cons_Suc)
    ultimately show ?thesis using Cons.IH [of j' "Suc i"] Cons.prems j False e by (simp add: find_block_None)
  qed (simp add: e)
qed

lemma minv_size_nz: "minv s \<Longrightarrow> b < 10 \<Longrightarrow> fst (block_dir s ! b) \<noteq> 0"
  using minv_dir(2) [of s b] sizes_facts(1) [of b] by auto

lemma find_owner_minv:
  assumes "minv s" and "b < 10" and "bucket s b = l1 @ d # l2"
  shows "find_owner (block d) 0 (block_dir s) 0 = Inr (b, length l1)"
proof -
  have o: "block d \<notin> block ` set (others s b (l1 @ l2) i)" if "i < 10" for i
    using others_block [OF assms that] by (metis imageE)
  have "block d \<notin> block ` set (snd (block_dir s ! j))" if "j < b" for j
    using o [of j] that assms(2) by (simp add: others_def bucket_def)
  moreover have "find_block (block d) (snd (block_dir s ! b)) 0 = Some (length l1)"
    using find_block_Some [of "block d" l1 d l2 0] o [OF assms(2)] assms(3) by (simp add: others_def bucket_def image_Un)
  ultimately show ?thesis
    using find_owner_Inr [of b "block_dir s" "block d" "length l1" 0] minv_dir(1) [OF assms(1)]
      minv_size_nz [OF assms(1)] assms(2) by simp
qed

lemma page_free_one:
  assumes "single_pages g" and "p \<in> live_pages g"
  shows "\<exists>ds. page_free p g = Inr (g\<lparr>hmem := (hmem g)(p := 0), descs := ds\<rparr>) \<and>
    single_pages (g\<lparr>hmem := (hmem g)(p := 0), descs := ds\<rparr>) \<and>
    live_pages (g\<lparr>hmem := (hmem g)(p := 0), descs := ds\<rparr>) = live_pages g - {p}"
proof -
  note rel = page_pool.release_live [OF assms] page_pool.release_inv [OF assms]
  have "page_free p g \<noteq> Inl e" for e
  proof
    assume "page_free p g = Inl e"
    then have "page_free1 p g = g" by (simp add: page_free1_def)
    then show False using rel(1) assms(2) by (metis DiffD2 insertI1)
  qed
  then obtain g' where g': "page_free p g = Inr g'" by (cases "page_free p g") auto
  have "\<exists>ds. g' = g\<lparr>hmem := (hmem g)(p := 0), descs := ds\<rparr>"
  proof -
    have "g\<lparr>hmem := h\<rparr> = g\<lparr>hmem := h, descs := descs g\<rparr>" for h by simp
    then have "\<exists>ds. g\<lparr>hmem := h\<rparr> = g\<lparr>hmem := h, descs := ds\<rparr>" for h by blast
    then show ?thesis using g'
      by (auto simp: page_free_def Let_def kbind_eq_Inr split: if_splits)
  qed
  then obtain ds where ds: "g' = g\<lparr>hmem := (hmem g)(p := 0), descs := ds\<rparr>" ..
  moreover have "page_free1 p g = g'" using g' by (simp add: page_free1_def)
  ultimately show ?thesis using rel g' by (intro exI [of _ ds]) simp
qed

text \<open>The state of an allocated object's page, and what the release of the object does to it.\<close>

lemma live_object:
  assumes inv: "minv s" and b: "b < 10" and d: "d \<in> set (bucket s b)"
    and a: "a \<in> live_of (hmem (pg s)) (sizes ! b) d"
  obtains fs where "desc_ok (hmem (pg s)) (sizes ! b) d fs" and "a \<in> objects (block d) (sizes ! b)"
    and "a \<notin> set fs" and "a \<noteq> 0" and "page_of a = block d" and "0 < unat (blocnt d)"
    and "desc_ok ((hmem (pg s))(a := freeptr d)) (sizes ! b) (d\<lparr>freeptr := a, blocnt := blocnt d - 1\<rparr>) (a # fs)"
    and "blocnt d = 1 \<Longrightarrow> live_of (hmem (pg s)) (sizes ! b) d = {a}"
proof -
  let ?sz = "sizes ! b" and ?hm = "hmem (pg s)"
  obtain fs where ok: "desc_ok ?hm ?sz d fs" and a: "a \<in> objects (block d) ?sz" "a \<notin> set fs"
    using a by (auto simp: live_of_def)
  note pk = minv_page_ok(1) [OF inv b d] and sf = sizes_facts [OF b]
  note ol = objects_list [OF pk sf(2)]
  note nz = object_page [OF pk a(1) sf(2)]
  have fin: "finite (objects (block d) ?sz)" and card: "card (objects (block d) ?sz) = 4096 div ?sz"
    using ol by (metis finite_set, metis distinct_card)
  have sub: "insert a (set fs) \<subseteq> objects (block d) ?sz" and dist: "distinct fs"
    using ok a by (auto simp: desc_ok_def)
  have "card (insert a (set fs)) \<le> 4096 div ?sz" using card_mono [OF fin sub] card by simp
  then have cnt: "unat (blocnt d) + length fs = 4096 div ?sz" and pos: "0 < unat (blocnt d)"
    using ok a(2) dist distinct_card [OF dist] by (auto simp: desc_ok_def)
  have "unat (blocnt d - 1) = unat (blocnt d) - 1"
    using pos by (subst unat_sub) (auto simp: word_le_nat_alt)
  moreover have "chain (?hm(a := freeptr d)) (freeptr d) fs"
    using ok a(2) by (subst chain_cong [where hm = ?hm]) (auto simp: desc_ok_def)
  ultimately have "desc_ok (?hm(a := freeptr d)) ?sz (d\<lparr>freeptr := a, blocnt := blocnt d - 1\<rparr>) (a # fs)"
    using nz(2) sub dist a(2) cnt pos by (simp add: desc_ok_def)
  moreover have "live_of ?hm ?sz d = {a}" if "blocnt d = 1"
  proof -
    have "card (objects (block d) ?sz - set fs) = 1"
      using cnt that card card_Diff_subset [of "set fs" "objects (block d) ?sz"] sub distinct_card [OF dist] by simp
    then obtain x where "objects (block d) ?sz - set fs = {x}" by (auto simp: card_1_singleton_iff)
    moreover have "a \<in> objects (block d) ?sz - set fs" using a by simp
    ultimately show ?thesis using live_of_ok [OF ok] by simp
  qed
  ultimately show ?thesis using that [OF ok a nz(2,1) pos] by blast
qed

lemma kfree_unfold:
  assumes inv: "minv s" and b: "b < 10" and ds: "bucket s b = l1 @ d # l2"
    and a: "a \<noteq> 0" "page_of a = block d"
  shows "kfree a 0 s =
    (let pg1 = (pg s)\<lparr>hmem := (hmem (pg s))(a := freeptr d)\<rparr>;
         d' = d\<lparr>freeptr := a, blocnt := blocnt d - 1\<rparr>; sz = fst (block_dir s ! b)
     in if blocnt d = 1 then
          kbind (page_free (block d) pg1) (\<lambda>pg2.
            Inr (s\<lparr>pg := pg2, block_dir := (block_dir s)[b := (sz, unlink_desc (l1 @ d' # l2) (length l1))],
                   free_block_desc := daddr d # free_block_desc s\<rparr>))
        else Inr (s\<lparr>pg := pg1, block_dir := (block_dir s)[b := (sz, l1 @ d' # l2)]\<rparr>))"
proof -
  have "b < length (block_dir s)" using minv_dir [OF inv] b by simp
  moreover have "find_owner (page_of a) 0 (block_dir s) 0 = Inr (b, length l1)"
    using find_owner_minv [OF inv b ds] a(2) by simp
  moreover have "blocnt d - 1 = 0 \<longleftrightarrow> blocnt d = 1" by (metis eq_iff_diff_eq_0)
  ultimately show ?thesis
    using ds a(1) by (cases "block_dir s ! b")
      (simp add: kfree_def page_of_def [symmetric] bucket_def Let_def list_update_append)
qed

lemma kfree_step:
  assumes inv: "minv s" and b: "b < 10" and ds: "bucket s b = l1 @ d # l2"
    and a: "a \<in> live_of (hmem (pg s)) (sizes ! b) d"
    and early: "blocnt d = 1 \<longrightarrow> length l1 \<le> 1"
  shows "\<exists>s'. kfree a 0 s = Inr s' \<and> minv s' \<and> live_objs s' = live_objs s - {a}"
proof -
  have din: "d \<in> set (bucket s b)" using ds by simp
  let ?sz = "sizes ! b" and ?hm = "(hmem (pg s))(a := freeptr d)"
  let ?d = "d\<lparr>freeptr := a, blocnt := blocnt d - 1\<rparr>" and ?pg = "(pg s)\<lparr>hmem := ?hm\<rparr>"
  obtain fs where fs: "desc_ok (hmem (pg s)) ?sz d fs" "a \<in> objects (block d) ?sz" "a \<notin> set fs" "a \<noteq> 0"
    "page_of a = block d" "0 < unat (blocnt d)" "desc_ok ?hm ?sz ?d (a # fs)"
    "blocnt d = 1 \<Longrightarrow> live_of (hmem (pg s)) ?sz d = {a}"
    by (rule live_object [OF inv b din a]) blast
  note P = others_block [OF inv b ds] and pk = minv_page_ok [OF inv b din]
  have sp: "single_pages (pg s)" using inv by (simp add: minv_def)
  have m: "bucket s b = l1 @ [d] @ l2" using ds by simp
  have split: "live_objs s = live_others s b (l1 @ l2) \<union> live_of (hmem (pg s)) ?sz d"
    using live_objs_split [OF b m] by simp
  have out: "a \<notin> live_others s b (l1 @ l2)"
    using not_live_others [OF inv fs(2) b pk(1), of "l1 @ l2"] ds P by auto
  show ?thesis
  proof (cases "blocnt d = 1")
    case True
    obtain dt where pf: "page_free (block d) ?pg = Inr (?pg\<lparr>hmem := ?hm(block d := 0), descs := dt\<rparr>)"
      "single_pages (?pg\<lparr>hmem := ?hm(block d := 0), descs := dt\<rparr>)"
      "live_pages (?pg\<lparr>hmem := ?hm(block d := 0), descs := dt\<rparr>) = live_pages (pg s) - {block d}"
      using page_free_one [of ?pg "block d"] sp pk(2) by auto
    let ?g = "?pg\<lparr>hmem := ?hm(block d := 0), descs := dt\<rparr>"
    let ?s = "s\<lparr>pg := ?g, free_block_desc := daddr d # free_block_desc s,
                 block_dir := (block_dir s)[b := (fst (block_dir s ! b), l1 @ [] @ l2)]\<rparr>"
    have "unlink_desc (l1 @ ?d # l2) (length l1) = l1 @ [] @ l2"
      using early True by (cases l1) (auto simp: unlink_desc_def Let_def)
    then have "kfree a 0 s = Inr ?s"
      using kfree_unfold [OF inv b ds fs(4,5)] True pf(1) by (simp add: Let_def)
    moreover have own: "page_of (block d) = block d"
    proof -
      have "block d \<in> objects (block d) ?sz" unfolding objects_def
        using sizes_facts(4) [OF b] by (intro CollectI exI [of _ 0]) simp
      then show ?thesis using object_page(1) [OF pk(1)] sizes_facts(2) [OF b] by blast
    qed
    have "minv ?s" "live_objs ?s = live_others s b (l1 @ l2) \<union> (\<Union>d\<in>set []. live_of (hmem ?g) ?sz d)"
    proof -
      have frame: "hmem ?g x = hmem (pg s) x" if "page_of x \<noteq> block d" for x
        using that fs(5) own by auto
      have g: "alloc_start ?g = alloc_start (pg s)" "live_pages (pg s) - {block d} \<subseteq> live_pages ?g"
        using pf(3) by auto
      have none: "length ([] :: block_desc list) \<le> 1" "([] :: block_desc list) \<noteq> [] \<Longrightarrow> block d \<in> live_pages ?g"
        "e \<in> set ([] :: block_desc list) \<Longrightarrow> block e = block d \<and> (\<exists>fs. desc_ok (hmem ?g) ?sz e fs)" for e
        by simp_all
      note r = replace_desc [OF inv b m refl pf(2) g frame none(1) none(3) none(2) P]
      show "minv ?s" "live_objs ?s = live_others s b (l1 @ l2) \<union> (\<Union>d\<in>set []. live_of (hmem ?g) ?sz d)"
        by (rule r, assumption+)+
    qed
    ultimately show ?thesis using split fs(8) [OF True] out by auto
  next
    case False
    let ?s = "s\<lparr>pg := ?pg, free_block_desc := free_block_desc s,
                 block_dir := (block_dir s)[b := (fst (block_dir s ! b), l1 @ [?d] @ l2)]\<rparr>"
    have "kfree a 0 s = Inr ?s"
      using kfree_unfold [OF inv b ds fs(4,5)] False by (simp add: Let_def)
    moreover have "minv ?s" "live_objs ?s = live_others s b (l1 @ l2) \<union> (\<Union>d\<in>set [?d]. live_of (hmem ?pg) ?sz d)"
    proof -
      have frame: "hmem ?pg x = hmem (pg s) x" if "page_of x \<noteq> block d" for x
        using that fs(5) by auto
      have g: "single_pages ?pg" "alloc_start ?pg = alloc_start (pg s)"
        "live_pages (pg s) - {block d} \<subseteq> live_pages ?pg" "block d \<in> live_pages ?pg" using sp pk(2) by auto
      have e: "block e = block d \<and> (\<exists>fs. desc_ok (hmem ?pg) ?sz e fs)" if "e \<in> set [?d]" for e
        using that fs(7) by auto
      have one: "length [?d] \<le> 1" by simp
      note r = replace_desc [OF inv b m refl g(1-3) frame one e g(4) P]
      show "minv ?s" "live_objs ?s = live_others s b (l1 @ l2) \<union> (\<Union>d\<in>set [?d]. live_of (hmem ?pg) ?sz d)"
        by (rule r, assumption+)+
    qed
    moreover have "live_of ?hm ?sz ?d = live_of (hmem (pg s)) ?sz d - {a}"
      using live_of_ok [OF fs(7)] live_of_ok [OF fs(1)] by auto
    ultimately show ?thesis using split out by auto
  qed
qed

text \<open>
  \<open>malloc\<close> followed by \<open>free\<close>: when every page of the size class is in use, the object can be given back at once, whatever page it came from, and the live objects are the
  ones from before. This is how the scheduler uses its queue nodes.
\<close>

definition busy :: "nat \<Rightarrow> mstate \<Rightarrow> bool" where
  "busy b s \<longleftrightarrow> (\<forall>d\<in>set (bucket s b). blocnt d \<noteq> 0)"

lemma kmalloc_others:
  assumes "find_bdir len (block_dir s) 0 = Inr b" "kmalloc len s = Inr (p, s')" "k \<noteq> b"
  shows "bucket s' k = bucket s k"
proof -
  have n: "block_dir s1 ! k = block_dir s ! k" if "new_desc sz b s = Inr s1" for sz s1
    using that assms(3) by (auto simp: new_desc_def Init_block_desc_def kbind_eq_Inr Let_def split: if_splits list.splits prod.splits)
  have t: "block_dir s2 ! k = block_dir s1 ! k" if "take_object b j s1 = Inr (p, s2)" for j s1 s2
    using that assms(3) by (auto simp: take_object_def kbind_eq_Inr Let_def split: prod.splits)
  show ?thesis using assms(1,2) n t by (auto simp: kmalloc_def bucket_def kbind_eq_Inr split: option.splits prod.splits)
qed

lemma kmalloc_kfree:
  assumes inv: "minv s" and len: "unat len \<le> 4096" and b: "find_bdir len (block_dir s) 0 = Inr b" and busy: "busy b s" and k: "kmalloc len s = Inr (p, s1)"
  shows "\<exists>s2. kfree p 0 s1 = Inr s2 \<and> minv s2 \<and> live_objs s2 = live_objs s"
proof -
  have b: "b < 10" "find_bdir len (block_dir s) 0 = Inr b" using find_bdir_minv [OF inv len] b by (metis Inr_inject)+
  let ?sz = "fst (block_dir s ! b)"
  have "b < length (block_dir s)" using minv_dir [OF inv] b(1) by simp
  then have km: "(case find_free_desc (bucket s b) 0 of Some k \<Rightarrow> take_object b k s | None \<Rightarrow> kbind (new_desc ?sz b s) (take_object b 0)) = Inr (p, s1)"
    using b(2) k by (cases "block_dir s ! b") (simp add: kmalloc_def bucket_def split: option.splits)
  have freed: ?thesis if s0: "minv s0" "live_objs s0 = live_objs s" "bucket s0 b = l1 @ d # l2" "freeptr d \<noteq> 0"
    and early: "blocnt d \<noteq> 0 \<or> l1 = []" and t: "take_object b (length l1) s0 = Inr (p, s1)" for s0 l1 d l2
  proof -
    obtain d' where d': "minv s1" "p \<notin> live_objs s0" "live_objs s1 = insert p (live_objs s0)" "bucket s1 b = l1 @ d' # l2" "blocnt d' = blocnt d + 1"
      "p \<in> live_of (hmem (pg s1)) (sizes ! b) d'"
      using take_object_correct [OF s0(1) b(1) s0(3,4)] t by auto
    have "blocnt d' = 1 \<longrightarrow> length l1 \<le> 1" using early d'(5) by (metis add_left_cancel add.commute add.right_neutral list.size(3) zero_le)
    from kfree_step [OF d'(1) b(1) d'(4,6) this] show ?thesis using d'(2,3) s0(2) by auto
  qed
  show ?thesis
  proof (cases "find_free_desc (bucket s b) 0")
    case (Some j)
    then obtain l1 d l2 where d: "bucket s b = l1 @ d # l2" "j = length l1" "freeptr d \<noteq> 0" using find_free_desc_Some by fastforce
    then have "blocnt d \<noteq> 0" using busy by (auto simp: busy_def)
    then show ?thesis using freed [OF inv refl d(1,3)] km Some d(2) by simp
  next
    case None
    then obtain s0 where n: "new_desc ?sz b s = Inr s0" "take_object b 0 s0 = Inr (p, s1)" using km by (auto simp: kbind_eq_Inr)
    from new_desc_correct [OF inv b(1)] n(1) obtain d where d: "minv s0" "live_objs s0 = live_objs s" "bucket s0 b = d # bucket s b" "freeptr d \<noteq> 0" by auto
    then show ?thesis using freed [OF d(1,2), of "[]" d "bucket s b"] n(2) by simp
  qed
qed

text \<open>
  C10. \<open>free\<close> on a live object whose page keeps other live objects, or whose descriptor is
  one of the first two of its bucket: exactly that object stops being live, the heap stays
  sound, and the call returns.
\<close>

theorem kfree_correct:
  assumes inv: "minv s" and b: "b < 10" and ds: "bucket s b = l1 @ d # l2"
    and a: "a \<in> live_of (hmem (pg s)) (sizes ! b) d"
    and early: "blocnt d = 1 \<longrightarrow> length l1 \<le> 1"
  shows "\<exists>s'. kfree a 0 s = Inr s' \<and> minv s' \<and> live_objs s' = live_objs s - {a}"
  using assms by (rule kfree_step)

text \<open>
  C27. The unlinking defect. Freeing the last live object of a page whose descriptor is third
  or later in its bucket also drops every descriptor between the head and it
  (\<^verbatim>\<open>prev->next = bdesc\<close> is an assignment): any later \<open>free\<close> of an object of such a page
  panics, although the object was live.
\<close>

theorem kfree_orphans:
  assumes inv: "minv s" and b: "b < 10" and ds: "bucket s b = e # l1 @ d # l2"
    and a: "a \<in> live_of (hmem (pg s)) (sizes ! b) d" and last: "blocnt d = 1"
    and l1: "l1 \<noteq> []" "block (last l1) \<noteq> daddr d"
  shows "\<exists>s'. kfree a 0 s = Inr s' \<and> bucket s' b = e # l2 \<and>
    (\<forall>x\<in>set l1. \<forall>o'\<in>live_of (hmem (pg s)) (sizes ! b) x.
       kfree o' 0 s' = Inl (Panic ''error adress passed to _free_ ()''))"
proof -
  have ds': "bucket s b = (e # l1) @ d # l2" using ds by simp
  then have din: "d \<in> set (bucket s b)" by simp
  let ?hm = "(hmem (pg s))(a := freeptr d)"
  let ?d = "d\<lparr>freeptr := a, blocnt := blocnt d - 1\<rparr>" and ?pg = "(pg s)\<lparr>hmem := ?hm\<rparr>"
  have fs: "a \<noteq> 0" "page_of a = block d" by (rule live_object [OF inv b din a], simp)+
  have sp: "single_pages (pg s)" using inv by (simp add: minv_def)
  obtain g where pf: "page_free (block d) ?pg = Inr g"
    using page_free_one [of ?pg "block d"] sp minv_page_ok(2) [OF inv b din] by auto
  have "((e # l1) @ ?d # l2) ! (length (e # l1) - 1) = last l1"
    using l1(1) by (simp add: nth_append last_conv_nth)
  moreover have "((e # l1) @ ?d # l2) ! length (e # l1) = ?d" by (rule nth_append_length)
  ultimately have un: "unlink_desc ((e # l1) @ ?d # l2) (length (e # l1)) = e # l2"
    using l1(2) by (simp add: unlink_desc_def Let_def del: append_Cons)
  let ?dir = "(block_dir s)[b := (fst (block_dir s ! b), e # l2)]"
  let ?s = "s\<lparr>pg := g, block_dir := ?dir, free_block_desc := daddr d # free_block_desc s\<rparr>"
  have kf: "kfree a 0 s = Inr ?s"
    using kfree_unfold [OF inv b ds' fs] last pf un by (simp add: Let_def)
  note len = minv_dir(1) [OF inv]
  have panic: "kfree o' 0 ?s = Inl (Panic ''error adress passed to _free_ ()'')"
    if x: "x \<in> set l1" and o': "o' \<in> live_of (hmem (pg s)) (sizes ! b) x" for x o'
  proof -
    have xin: "x \<in> set (bucket s b)" using x ds by simp
    obtain p q where pq: "l1 = p @ x # q" using split_list [OF x] by blast
    have dsx: "bucket s b = (e # p) @ x # (q @ d # l2)" using ds pq by simp
    have page: "page_of o' = block x" by (rule live_object [OF inv b xin o'])
    have "block x \<notin> block ` set (snd (?dir ! k))" if "k < 10" for k
    proof -
      have "set (snd (?dir ! k)) \<subseteq> set (others s b ((e # p) @ q @ d # l2) k)"
        using that len by (auto simp: nth_list_update others_def bucket_def)
      then have "block ` set (snd (?dir ! k)) \<subseteq> block ` set (others s b ((e # p) @ q @ d # l2) k)"
        by (rule image_mono)
      moreover have "block x \<notin> block ` set (others s b ((e # p) @ q @ d # l2) k)"
      proof
        assume "block x \<in> block ` set (others s b ((e # p) @ q @ d # l2) k)"
        then obtain y where "y \<in> set (others s b ((e # p) @ q @ d # l2) k)" "block x = block y" by (rule imageE)
        then show False using others_block [OF inv b dsx that, of y] by simp
      qed
      ultimately show ?thesis by (rule contra_subsetD)
    qed
    moreover have "fst (?dir ! 10) = 0"
      using minv_dir(2) [OF inv, of 10] b len by (simp add: sizes_def unat_eq_0)
    ultimately have "find_owner (page_of o') 0 ?dir 0 = Inl (Panic ''error adress passed to _free_ ()'')"
      using find_owner_panic [of 10 ?dir "block x" 0] len page by simp
    then show ?thesis by (simp add: kfree_def page_of_def [symmetric] Let_def)
  qed
  have "bucket ?s b = e # l2" using len b by (simp add: bucket_def)
  then show ?thesis using kf panic by (intro exI [of _ ?s]) simp
qed

section \<open>Concrete heaps\<close>

definition heap_empty :: mstate where
  "heap_empty = \<lparr>pg = pool4, block_dir = block_dir0, free_block_desc = []\<rparr>"

definition page_desc :: "u64 \<Rightarrow> u64 \<Rightarrow> block_desc" where
  "page_desc da p = \<lparr>daddr = da, block = p, freeptr = 0, blocnt = 1, block_size = 4096\<rparr>"

text \<open>Three pages of the 4096-byte class, each with its only object in use.\<close>

definition heap_three :: mstate where
  "heap_three = \<lparr>pg = pool4\<lparr>descs := [3, 3, 3, 0]\<rparr>,
     block_dir = block_dir0[9 := (4096, [page_desc 0x80400000 0x80308000, page_desc 0x80400020 0x80309000,
                                         page_desc 0x80400040 0x8030A000])],
     free_block_desc = []\<rparr>"

lemma minv_bucket9:
  assumes "single_pages g" and "4096 dvd unat (alloc_start g)" and "distinct (map block ds)"
    and "block ` set ds \<subseteq> live_pages g" and "\<forall>d\<in>set ds. freeptr d = 0 \<and> blocnt d = 1"
  shows "minv \<lparr>pg = g, block_dir = block_dir0[9 := (4096, ds)], free_block_desc = fd\<rparr>"
proof -
  let ?s = "\<lparr>pg = g, block_dir = block_dir0[9 := (4096, ds)], free_block_desc = fd\<rparr>"
  have bk: "bucket ?s i = (if i = 9 then ds else [])" if "i < 10" for i
  proof -
    have "i \<in> {0, 1, 2, 3, 4, 5, 6, 7, 8, 9}" using that by auto
    then show ?thesis by (auto simp: bucket_def block_dir0_def bucket_sizes_def)
  qed
  have "map (unat \<circ> fst) (block_dir ?s) = sizes" by (simp add: block_dir0_def bucket_sizes_def sizes_def)
  moreover have "\<exists>fs. desc_ok (hmem g) (sizes ! 9) d fs" if "d \<in> set ds" for d
    using assms(5) that by (intro exI [of _ "[]"]) (auto simp: desc_ok_def sizes_def)
  moreover have "block ` set (bucket ?s i) \<inter> block ` set (bucket ?s j) = {}" if "i < 10" "j < 10" "i \<noteq> j" for i j
    using that(3) unfolding bk [OF that(1)] bk [OF that(2)] by (cases "i = 9") simp_all
  ultimately show ?thesis using assms bk unfolding minv_def by simp
qed

lemma heap_empty_minv: "minv heap_empty"
proof -
  have "single_pages pool4" unfolding single_pages_def
    using pool4_abs by (intro conjI exI [of _ "[FreePage, FreePage, FreePage, FreePage]"]) (auto simp: pool4_def)
  moreover have "block_dir0 = block_dir0[9 := (4096, [])]" by (simp add: block_dir0_def bucket_sizes_def)
  ultimately show ?thesis using minv_bucket9 [of pool4 "[]" "[]"] by (simp add: heap_empty_def pool4_def)
qed

lemma heap_three_minv: "minv heap_three"
proof -
  let ?g = "pool4\<lparr>descs := [3, 3, 3, 0]\<rparr>"
  have "pg_abs ?g [Block 0, Block 0, Block 0, FreePage]"
    by (simp add: pg_abs_def pool4_def page_flag_defs)
  then have "single_pages ?g" unfolding single_pages_def
    by (intro conjI exI [of _ "[Block 0, Block 0, Block 0, FreePage]"]) (auto simp: pool4_def)
  moreover have "page_addr ?g i \<in> live_pages ?g" if "i < 3" for i
  proof -
    have "i \<in> {0, 1, 2}" using that by auto
    then have "i < unat (num_pages ?g) \<and> \<not> page_is_free (descs ?g ! i)"
      by (auto simp: pool4_def page_flag_defs)
    then show ?thesis unfolding live_pages_def by blast
  qed
  from this [of 0] this [of 1] this [of 2]
  have "{0x80308000, 0x80309000, 0x8030A000} \<subseteq> live_pages ?g"
    by (simp add: page_addr_def pool4_def)
  ultimately show ?thesis unfolding heap_three_def
    by (intro minv_bucket9) (auto simp: page_desc_def pool4_def)
qed

lemma heap_three_bucket:
  "bucket heap_three 9 = [page_desc 0x80400000 0x80308000, page_desc 0x80400020 0x80309000,
                          page_desc 0x80400040 0x8030A000]"
  by (simp add: bucket_def heap_three_def block_dir0_def bucket_sizes_def)

lemma page_desc_live: "p \<in> live_of hm (sizes ! 9) (page_desc da p)"
proof -
  have "desc_ok hm (sizes ! 9) (page_desc da p) []" by (simp add: desc_ok_def page_desc_def sizes_def)
  then show ?thesis by (subst live_of_ok) (auto simp: objects_def page_desc_def sizes_def)
qed

lemma pool4_two_pages: "take_slots page_alloc1 2 (pg heap_empty) \<noteq> None"
proof -
  have "page_alloc 1 pool4 = Inr (0x80308000, pool4\<lparr>descs := [3, 0, 0, 0]\<rparr>)"
    by (simp add: page_alloc_def pool4_def page_alloc_loop.simps [of _ _ 0] page_flag_defs page_set_flag_def)
  moreover have "page_alloc 1 (pool4\<lparr>descs := [3, 0, 0, 0]\<rparr>) = Inr (0x80309000, pool4\<lparr>descs := [3, 3, 0, 0]\<rparr>)"
    by (simp add: page_alloc_def pool4_def page_alloc_loop.simps [of _ _ 0] page_alloc_loop.simps [of _ _ "Suc 0"]
        page_flag_defs page_set_flag_def)
  ultimately show ?thesis by (simp add: take_slots_numeral page_alloc1_def heap_empty_def)
qed

lemma kmalloc_empty:
  assumes "unat len \<le> 4096"
  shows "\<exists>p h. kmalloc len heap_empty = Inr (p, h) \<and> p \<noteq> 0"
proof -
  obtain p h b P where "kmalloc len heap_empty = Inr (p, h)" "b < 10" "page_ok P" "p \<in> objects P (sizes ! b)"
    using kmalloc_cases [OF heap_empty_minv assms] pool4_two_pages by blast
  then show ?thesis using object_page(2) sizes_facts(2) by blast
qed

theorem kmalloc_correct_witness:
  "minv heap_empty \<and> (\<exists>p s'. kmalloc 24 heap_empty = Inr (p, s') \<and> minv s' \<and> live_objs s' = insert p (live_objs heap_empty))"
  using kmalloc_correct [OF heap_empty_minv, of 24] heap_empty_minv pool4_two_pages by auto

lemma kfree_three: "\<exists>s'. kfree 0x80308000 0 heap_three = Inr s'"
proof -
  have "bucket heap_three 9 = [] @ page_desc 0x80400000 0x80308000 #
      [page_desc 0x80400020 0x80309000, page_desc 0x80400040 0x8030A000]"
    by (simp add: heap_three_bucket)
  from kfree_step [OF heap_three_minv _ this page_desc_live] show ?thesis by auto
qed

theorem kfree_correct_witness:
  "\<exists>s'. kfree 0x80308000 0 heap_three = Inr s' \<and> minv s' \<and> live_objs s' = live_objs heap_three - {0x80308000}"
proof -
  have "bucket heap_three 9 = [] @ page_desc 0x80400000 0x80308000 #
      [page_desc 0x80400020 0x80309000, page_desc 0x80400040 0x8030A000]"
    by (simp add: heap_three_bucket)
  from kfree_correct [OF heap_three_minv _ this page_desc_live] show ?thesis by simp
qed

theorem kfree_orphans_witness:
  "\<exists>s'. kfree 0x8030A000 0 heap_three = Inr s' \<and>
     kfree 0x80309000 0 s' = Inl (Panic ''error adress passed to _free_ ()'')"
proof -
  have "page_desc 0x80400000 0x80308000 # [page_desc 0x80400020 0x80309000] @ page_desc 0x80400040 0x8030A000 # []
    = bucket heap_three 9" by (simp add: heap_three_bucket)
  from kfree_orphans [OF heap_three_minv _ this [symmetric] page_desc_live]
  show ?thesis using page_desc_live by (fastforce simp: page_desc_def)
qed
end
