(* ===== verification/Sched.thy ===== *)
theory Sched
  imports Malloc
begin

text \<open>
  The scheduler, \<^verbatim>\<open>src/kernel/sched/sched.c\<close> with the types of \<^verbatim>\<open>src/include/sched.h\<close> and
  \<^verbatim>\<open>src/include/signal.h\<close>. The task table \<^verbatim>\<open>TASK\<close> holds at most one structure per slot, so a
  \<^verbatim>\<open>struct task_struct *\<close> is modelled by the slot it was stored in; the address of the
  structure is kept in \<open>taddr\<close> for \<^verbatim>\<open>free\<close>. The five ready queues are linked lists from
  \<^verbatim>\<open>queue_head\<close> with explicit \<^verbatim>\<open>tail\<close> pointers; their nodes come from and go back to the
  bucket allocator. \<^verbatim>\<open>switch_to\<close> is the change of \<open>current\<close> here; its assembly is in the theory \<open>Switch\<close>.
\<close>

section \<open>Tasks\<close>

datatype tstate = TASK_RUNNING | TASK_READY | TASK_WAIT | TASK_ZOMBINE | TASK_STOP

record reg =
  r_ra :: u64  r_sp :: u64  r_gp :: u64  r_tp :: u64
  r_t0 :: u64  r_t1 :: u64  r_t2 :: u64  r_s0 :: u64  r_s1 :: u64
  r_a0 :: u64  r_a1 :: u64  r_a2 :: u64  r_a3 :: u64  r_a4 :: u64  r_a5 :: u64  r_a6 :: u64  r_a7 :: u64
  r_s2 :: u64  r_s3 :: u64  r_s4 :: u64  r_s5 :: u64  r_s6 :: u64  r_s7 :: u64  r_s8 :: u64
  r_s9 :: u64  r_s10 :: u64  r_s11 :: u64
  r_t3 :: u64  r_t4 :: u64  r_t5 :: u64  r_t6 :: u64
  r_epc :: u64  r_temp :: u64

record sigaction =
  sa_handler :: u64
  sa_mask :: u32
  sa_flags :: u32

text \<open>
  \<^verbatim>\<open>order\<close> has type \<^verbatim>\<open>int8_t\<close>, a plain \<^verbatim>\<open>char\<close>, which is unsigned on this target: the value \<open>-1\<close>
  that \<^verbatim>\<open>do_exit\<close> stores is 255, and the test \<^verbatim>\<open>order < 0\<close> of \<^verbatim>\<open>set_Queue\<close> never holds.
\<close>

record task_struct =
  taddr :: u64                  \<comment> \<open>the address of the structure\<close>
  pid :: int
  father_pid :: int
  pcb_id :: nat
  state :: tstate
  start_time :: u64
  time :: u64
  priority :: int
  counter :: int
  in_Queue :: bool
  order :: u8
  signal :: u32
  sigactions :: "sigaction list"
  exit_code :: int
  cwd :: u64
  ofile :: "u64 list"
  ctx :: reg

definition SIG_CHLD :: u32 where "SIG_CHLD = 0x10000"

definition SIG_CONT :: u32 where "SIG_CONT = 0x20000"

definition SIG_STOP :: u32 where "SIG_STOP = 0x40000"

definition MAX_TASK :: nat where "MAX_TASK = 64"

definition COUNTER :: "u8 \<Rightarrow> int" where "COUNTER ord = 2 + 6 * int (unat ord)"

section \<open>Queues and kernel state\<close>

record qnode =
  qaddr :: u64                  \<comment> \<open>the address of the node\<close>
  qpid :: int
  qtask :: nat                  \<comment> \<open>the task, by its slot\<close>

record kstate =
  TASK :: "task_struct option list"
  current :: nat
  queue_head :: "qnode list list"
  tail :: "u64 list"
  heap :: mstate
  jiffies :: u64
  NEW_PID :: int
  NEW_PCBID :: nat
  task_stack :: u64                          \<comment> \<open>the address of \<open>task_stack\<close>\<close>
  stack_mem :: "u64 \<Rightarrow> u8"                    \<comment> \<open>the bytes of the stacks, by address\<close>

definition init_task :: "u64 \<Rightarrow> u64 \<Rightarrow> task_struct" where
  "init_task addr stk =
     \<lparr>taddr = addr, pid = 0, father_pid = 0, pcb_id = 0, state = TASK_READY, start_time = 0, time = 0,
      priority = 1, counter = 1, in_Queue = False, order = 0, signal = 0,
      sigactions = replicate 32 \<lparr>sa_handler = 0, sa_mask = 0, sa_flags = 0\<rparr>,
      exit_code = 0, cwd = 0, ofile = replicate 128 0,
      ctx = \<lparr>r_ra = 0, r_sp = stk + 4095, r_gp = 0, r_tp = 0, r_t0 = addr, r_t1 = 0, r_t2 = 0, r_s0 = 0, r_s1 = 0,
             r_a0 = 0, r_a1 = 0, r_a2 = 0, r_a3 = 0, r_a4 = 0, r_a5 = 0, r_a6 = 0, r_a7 = 0,
             r_s2 = 0, r_s3 = 0, r_s4 = 0, r_s5 = 0, r_s6 = 0, r_s7 = 0, r_s8 = 0, r_s9 = 0, r_s10 = 0, r_s11 = 0,
             r_t3 = 0, r_t4 = 0, r_t5 = 0, r_t6 = 0, r_epc = 0, r_temp = 0\<rparr>\<rparr>"

definition the_task :: "kstate \<Rightarrow> nat \<Rightarrow> task_struct res" where
  "the_task s i = kbind (kget (TASK s) i) (\<lambda>t. case t of None \<Rightarrow> Inl NullDeref | Some t \<Rightarrow> Inr t)"

definition set_task :: "nat \<Rightarrow> task_struct \<Rightarrow> kstate \<Rightarrow> kstate" where
  "set_task i t s = s\<lparr>TASK := (TASK s)[i := Some t]\<rparr>"

text \<open>
  The loops \<^verbatim>\<open>p = &TASK[MAX_TASK]; i = MAX_TASK; while(--i) { if(!*--p) continue; ... }\<close> visit the
  slots 63 down to 1: \<open>for_tasks n\<close> runs a body on slots \<open>n\<close> down to 1, skipping empty ones.
\<close>

fun for_tasks :: "nat \<Rightarrow> (nat \<Rightarrow> task_struct \<Rightarrow> kstate \<Rightarrow> kstate res) \<Rightarrow> kstate \<Rightarrow> kstate res" where
  "for_tasks 0 f s = Inr s"
| "for_tasks (Suc n) f s =
     kbind (kget (TASK s) (Suc n)) (\<lambda>t.
     kbind (case t of None \<Rightarrow> Inr s | Some t \<Rightarrow> f (Suc n) t s) (for_tasks n f))"

section \<open>Filling the ready queues\<close>

definition SIZEOF_QUEUE :: u32 where "SIZEOF_QUEUE = 24"

text \<open>
  Append a fresh node to queue \<open>ord\<close>: to the head pointer when the queue is empty, else through
  \<^verbatim>\<open>tail[order]\<close>. A tail pointer that is not the last node of its queue is a stale pointer.
\<close>

definition enqueue :: "u8 \<Rightarrow> nat \<Rightarrow> int \<Rightarrow> kstate \<Rightarrow> kstate res" where
  "enqueue ord i p s =
     kbind (kget (queue_head s) (unat ord)) (\<lambda>q.
     kbind (kget (tail s) (unat ord)) (\<lambda>tl.
     kbind (kmalloc SIZEOF_QUEUE (heap s)) (\<lambda>(a, h).
       if q \<noteq> [] \<and> tl \<noteq> qaddr (last q) then Inl OutOfBounds
       else if a = 0 then Inl NullDeref
       else Inr (s\<lparr>heap := h, tail := (tail s)[unat ord := a],
                   queue_head := (queue_head s)[unat ord := q @ [\<lparr>qaddr = a, qpid = p, qtask = i\<rparr>]]\<rparr>))))"

text \<open>
  The removal branch searches the queue of the task for a node with its pid. The queue's tail
  pointer would have to be repaired; the code repairs \<^verbatim>\<open>tail[i]\<close>, indexed by the slot. The
  task keeps \<^verbatim>\<open>in_Queue\<close>.
\<close>

fun find_node :: "int \<Rightarrow> qnode list \<Rightarrow> nat \<Rightarrow> nat res" where
  "find_node p [] k = Inl NullDeref"
| "find_node p (q # qs) k =
     (if qpid q = p then Inr k
      else if qs = [] then Inl (Panic ''error in remove task from ready queue!?'')
      else find_node p qs (Suc k))"

definition remove_task :: "nat \<Rightarrow> task_struct \<Rightarrow> kstate \<Rightarrow> kstate res" where
  "remove_task i t s =
     kbind (kget (queue_head s) (unat (order t))) (\<lambda>qs.
     kbind (find_node (pid t) qs 0) (\<lambda>k.
     kbind (kget (tail s) i) (\<lambda>tl.
       let q = qs ! k; lst = (if k = 0 then 0 else qaddr (qs ! (k - 1)));
           tails = (if qaddr q = tl then (tail s)[i := lst] else tail s)
       in kbind (kfree (qaddr q) 0 (heap s)) (\<lambda>h.
          Inr (s\<lparr>heap := h, tail := tails,
                  queue_head := (queue_head s)[unat (order t) := take k qs @ drop (Suc k) qs]\<rparr>)))))"

text \<open>A task that used up its slice moves one queue down, to a longer slice.\<close>

definition requeue_order :: "task_struct \<Rightarrow> u8" where
  "requeue_order t = (if order t < 4 \<and> state t = TASK_RUNNING then order t + 1 else order t)"

definition requeued :: "task_struct \<Rightarrow> task_struct" where
  "requeued t = t\<lparr>state := TASK_READY, in_Queue := True, order := requeue_order t,
                  counter := COUNTER (requeue_order t)\<rparr>"

definition set_Queue_body :: "nat \<Rightarrow> task_struct \<Rightarrow> kstate \<Rightarrow> kstate res" where
  "set_Queue_body i t s =
     (if \<not> in_Queue t then
        if state t = TASK_READY \<or> state t = TASK_RUNNING then
          kbind (enqueue (requeue_order t) i (pid t) s) (\<lambda>s1. Inr (set_task i (requeued t) s1))
        else Inr s
      else if state t = TASK_RUNNING \<or> state t = TASK_READY then Inr s
      else remove_task i t s)"

definition set_Queue :: "kstate \<Rightarrow> kstate res" where
  "set_Queue s = for_tasks (MAX_TASK - 1) set_Queue_body s"

section \<open>Choosing the next task\<close>

definition alter_state_body :: "nat \<Rightarrow> task_struct \<Rightarrow> kstate \<Rightarrow> kstate res" where
  "alter_state_body i t s =
     Inr (if state t = TASK_WAIT \<and> signal t AND NOT SIG_STOP \<noteq> 0
          then set_task i (t\<lparr>state := TASK_READY, signal := 0\<rparr>) s else s)"

definition alter_state :: "kstate \<Rightarrow> kstate res" where
  "alter_state s = for_tasks (MAX_TASK - 1) alter_state_body s"

text \<open>The first non-empty queue gives up its head node.\<close>

definition dequeue :: "nat \<Rightarrow> kstate \<Rightarrow> (nat \<times> kstate) res" where
  "dequeue k s =
     kbind (kget (queue_head s) k) (\<lambda>qs. case qs of
       [] \<Rightarrow> Inl NullDeref
     | q # rest \<Rightarrow>
         kbind (the_task s (qtask q)) (\<lambda>t.
         kbind (kfree (qaddr q) 0 (heap s)) (\<lambda>h.
           Inr (qtask q, set_task (qtask q) (t\<lparr>in_Queue := False, state := TASK_RUNNING\<rparr>)
                           (s\<lparr>heap := h, queue_head := (queue_head s)[k := rest]\<rparr>)))))"

definition pick_next :: "kstate \<Rightarrow> (nat \<times> kstate) res" where
  "pick_next s =
     (case first_index (\<lambda>k. queue_head s ! k \<noteq> []) 0 5 of
        Some k \<Rightarrow> dequeue k s
      | None \<Rightarrow> kbind (the_task s 0) (\<lambda>_. Inr (0, s)))"

definition schedule :: "kstate \<Rightarrow> kstate res" where
  "schedule s =
     kbind (alter_state s) (\<lambda>s1.
     kbind (set_Queue s1) (\<lambda>s2.
     kbind (pick_next s2) (\<lambda>(nxt, s3).
       if current s3 = nxt then Inr s3 else Inr (s3\<lparr>current := nxt\<rparr>))))"

section \<open>Sleeping, waking, start-up and checks\<close>

definition sleep :: "kstate \<Rightarrow> kstate res" where
  "sleep s =
     kbind (the_task s (current s)) (\<lambda>t.
       schedule (set_task (current s) (t\<lparr>state := TASK_WAIT, signal := signal t OR SIG_STOP\<rparr>) s))"

definition wakeup_body :: "nat \<Rightarrow> task_struct \<Rightarrow> kstate \<Rightarrow> kstate res" where
  "wakeup_body i t s =
     Inr (if signal t \<noteq> 0 \<and> signal t AND SIG_STOP = SIG_STOP
          then set_task i (t\<lparr>signal := signal t AND NOT SIG_STOP OR SIG_CONT\<rparr>) s else s)"

definition wakeup :: "kstate \<Rightarrow> kstate res" where
  "wakeup s = for_tasks (MAX_TASK - 1) wakeup_body s"

definition Init_sched :: "kstate \<Rightarrow> kstate" where
  "Init_sched s = s\<lparr>TASK := take 1 (TASK s) @ replicate (MAX_TASK - 1) None\<rparr>"

definition Dect_stack :: "u64 \<Rightarrow> kstate \<Rightarrow> unit res" where
  "Dect_stack sp s =
     kbind (the_task s (current s)) (\<lambda>t.
       let base = task_stack s + of_nat (4096 * pcb_id t); T = base + 4095; L = base
       in if T < sp \<or> sp < L then Inl (Panic ''STACK OVERFLOW!'') else Inr ())"

text \<open>The slot \<^verbatim>\<open>show_task\<close> reports on: the highest one with that pid, else slot 0.\<close>

fun find_pid :: "int \<Rightarrow> nat \<Rightarrow> kstate \<Rightarrow> nat res" where
  "find_pid p 0 s = Inr 0"
| "find_pid p (Suc n) s =
     kbind (kget (TASK s) (Suc n)) (\<lambda>t. case t of
       None \<Rightarrow> find_pid p n s
     | Some t \<Rightarrow> if pid t = p then Inr (Suc n) else find_pid p n s)"

definition show_task :: "int \<Rightarrow> kstate \<Rightarrow> task_struct option res" where
  "show_task p s = kbind (find_pid p (MAX_TASK - 1) s) (\<lambda>i. kget (TASK s) i)"

section \<open>The scheduler invariant\<close>

definition runnable :: "task_struct \<Rightarrow> bool" where
  "runnable t \<longleftrightarrow> state t = TASK_READY \<or> state t = TASK_RUNNING"

definition queued_ok :: "kstate \<Rightarrow> nat \<Rightarrow> qnode \<Rightarrow> bool" where
  "queued_ok s k q \<longleftrightarrow> 0 < qtask q \<and> qtask q < 64 \<and>
     (\<exists>t. TASK s ! qtask q = Some t \<and> in_Queue t \<and> state t = TASK_READY \<and> pid t = qpid q \<and> unat (order t) = k)"

definition queues_ok :: "kstate \<Rightarrow> bool" where
  "queues_ok s \<longleftrightarrow> length (queue_head s) = 5 \<and> length (tail s) = 5 \<and>
     (\<forall>k<5. (queue_head s ! k \<noteq> [] \<longrightarrow> tail s ! k = qaddr (last (queue_head s ! k))) \<and>
            distinct (map qtask (queue_head s ! k)) \<and> (\<forall>q\<in>set (queue_head s ! k). queued_ok s k q))"

definition task_ok :: "kstate \<Rightarrow> nat \<Rightarrow> bool" where
  "task_ok s i \<longleftrightarrow> (\<forall>t. TASK s ! i = Some t \<longrightarrow>
     (in_Queue t \<longrightarrow> (\<exists>k<5. i \<in> qtask ` set (queue_head s ! k))) \<and>
     (state t \<in> {TASK_READY, TASK_RUNNING, TASK_WAIT} \<longrightarrow> order t \<le> 4))"

text \<open>
  The table has its idle task; each ready queue is a duplicate-free list of ready tasks of its
  order, ended by its tail pointer; a task marked as queued is in a queue; and the current
  task exists and, unless it is the idle task, is running and not queued.
\<close>

definition table_ok :: "kstate \<Rightarrow> bool" where
  "table_ok s \<longleftrightarrow> length (TASK s) = 64 \<and> TASK s ! 0 \<noteq> None \<and> queues_ok s \<and>
     (\<forall>i. 0 < i \<longrightarrow> i < 64 \<longrightarrow> task_ok s i)"

definition sinv :: "kstate \<Rightarrow> bool" where
  "sinv s \<longleftrightarrow> table_ok s \<and> current s < 64 \<and>
     (\<exists>c. TASK s ! current s = Some c \<and> (0 < current s \<longrightarrow> \<not> in_Queue c \<and> state c = TASK_RUNNING))"

lemma queues_okD:
  assumes "queues_ok s" and "k < 5"
  shows "queue_head s ! k \<noteq> [] \<Longrightarrow> tail s ! k = qaddr (last (queue_head s ! k))"
    and "distinct (map qtask (queue_head s ! k))"
    and "q \<in> set (queue_head s ! k) \<Longrightarrow> queued_ok s k q"
  using assms unfolding queues_ok_def by blast+

lemma queued_okE:
  assumes "queued_ok s k q"
  obtains t where "TASK s ! qtask q = Some t" and "in_Queue t" and "state t = TASK_READY" and "pid t = qpid q"
    and "unat (order t) = k" and "0 < qtask q" and "qtask q < 64"
  using assms by (auto simp: queued_ok_def)

section \<open>Loops over the task table\<close>

lemma for_tasks_inv:
  assumes "\<And>i t s s'. I s \<Longrightarrow> 0 < i \<Longrightarrow> i \<le> n \<Longrightarrow> TASK s ! i = Some t \<Longrightarrow> f i t s = Inr s' \<Longrightarrow> I s'"
    and "I s" and "for_tasks n f s = Inr s'"
  shows "I s'"
  using assms
proof (induction n arbitrary: s)
  case 0
  then show ?case by simp
next
  case (Suc n)
  then obtain t s1 where t: "Suc n < length (TASK s)" "TASK s ! Suc n = t"
    and s1: "(case t of None \<Rightarrow> Inr s | Some t \<Rightarrow> f (Suc n) t s) = Inr s1" and s': "for_tasks n f s1 = Inr s'"
    by (auto simp: kbind_eq_Inr)
  have "I s1" using s1 t Suc.prems(1) [of s "Suc n"] Suc.prems(2) by (auto split: option.splits)
  then show ?case using Suc.IH [OF _ _ s'] Suc.prems(1) by (meson le_SucI)
qed

lemma for_tasks_error:
  assumes "\<And>i t s s'. I s \<Longrightarrow> 0 < i \<Longrightarrow> i \<le> n \<Longrightarrow> TASK s ! i = Some t \<Longrightarrow> f i t s = Inr s' \<Longrightarrow> I s'"
    and "\<And>i t s e. I s \<Longrightarrow> 0 < i \<Longrightarrow> i \<le> n \<Longrightarrow> TASK s ! i = Some t \<Longrightarrow> f i t s = Inl e \<Longrightarrow> E e"
    and "\<And>s. I s \<Longrightarrow> n < length (TASK s)"
    and "I s" and "for_tasks n f s = Inl e"
  shows "E e"
  using assms
proof (induction n arbitrary: s)
  case 0
  then show ?case by simp
next
  case (Suc n)
  have len: "Suc n < length (TASK s)" using Suc.prems(3,4) by blast
  let ?step = "case TASK s ! Suc n of None \<Rightarrow> Inr s | Some t \<Rightarrow> f (Suc n) t s"
  show ?case
  proof (cases ?step)
    case (Inl e')
    then have "e' = e" using Suc.prems(5) len by simp
    then show ?thesis using Inl Suc.prems(2) [OF Suc.prems(4), of "Suc n"] by (auto split: option.splits)
  next
    case (Inr s1)
    have "for_tasks n f s1 = Inl e" using Suc.prems(5) len Inr by simp
    moreover have "I s1" using Inr Suc.prems(1) [OF Suc.prems(4), of "Suc n"] Suc.prems(4) by (auto split: option.splits)
    ultimately show ?thesis
      by (intro Suc.IH [of s1] Suc_lessD [OF Suc.prems(3)])
         (use Suc.prems(1,2) in \<open>auto intro: le_SucI\<close>)
  qed
qed

text \<open>A body that changes only its own slot: every slot up to \<open>n\<close> is as the body leaves it.\<close>

lemma for_tasks_slots:
  assumes "\<And>i t s s' j. f i t s = Inr s' \<Longrightarrow> j \<noteq> i \<Longrightarrow> TASK s' ! j = TASK s ! j"
    and "\<And>i t s s'. 0 < i \<Longrightarrow> i < length (TASK s) \<Longrightarrow> TASK s ! i = Some t \<Longrightarrow> f i t s = Inr s' \<Longrightarrow> Q (TASK s' ! i)"
    and "Q None" and "for_tasks n f s = Inr s'"
  shows "(\<forall>i. 0 < i \<longrightarrow> i \<le> n \<longrightarrow> Q (TASK s' ! i)) \<and> (\<forall>i. i = 0 \<or> n < i \<longrightarrow> TASK s' ! i = TASK s ! i)"
  using assms(4)
proof (induction n arbitrary: s)
  case 0
  then show ?case by simp
next
  case (Suc n)
  then obtain t s1 where t: "Suc n < length (TASK s)" "TASK s ! Suc n = t"
    and s1: "(case t of None \<Rightarrow> Inr s | Some t \<Rightarrow> f (Suc n) t s) = Inr s1" and s': "for_tasks n f s1 = Inr s'"
    by (auto simp: kbind_eq_Inr)
  have "Q (TASK s1 ! Suc n)" and fr: "\<forall>j. j \<noteq> Suc n \<longrightarrow> TASK s1 ! j = TASK s ! j"
    using s1 t assms(1-3) by (auto split: option.splits)
  moreover have "\<forall>i. 0 < i \<longrightarrow> i \<le> n \<longrightarrow> Q (TASK s' ! i)" "\<forall>i. i = 0 \<or> n < i \<longrightarrow> TASK s' ! i = TASK s1 ! i"
    using Suc.IH [OF s'] by blast+
  ultimately show ?case by (auto simp: le_Suc_eq)
qed

section \<open>Filling the queues keeps the invariant\<close>

lemma set_task_simps [simp]:
  "TASK (set_task i t s) = (TASK s)[i := Some t]" "current (set_task i t s) = current s"
  "queue_head (set_task i t s) = queue_head s" "tail (set_task i t s) = tail s" "heap (set_task i t s) = heap s"
  by (simp_all add: set_task_def)

definition alloc_error :: "kerror \<Rightarrow> bool" where
  "alloc_error e \<longleftrightarrow> (\<exists>h. kmalloc SIZEOF_QUEUE h = Inl e) \<or> (\<exists>a h. kfree a 0 h = Inl e) \<or>
     (\<exists>h h'. kmalloc SIZEOF_QUEUE h = Inr (0, h') \<and> e = NullDeref)"

lemma enqueue_eq:
  assumes "queues_ok s" and "unat ord < 5" and "enqueue ord i p s = Inr s'"
  obtains a h where "s' = s\<lparr>heap := h, tail := (tail s)[unat ord := a],
    queue_head := (queue_head s)[unat ord := queue_head s ! unat ord @ [\<lparr>qaddr = a, qpid = p, qtask = i\<rparr>]]\<rparr>"
  using assms by (auto simp: enqueue_def queues_ok_def kbind_eq_Inr split: if_splits prod.splits)

lemma enqueue_error:
  assumes "queues_ok s" and "unat ord < 5" and "enqueue ord i p s = Inl e"
  shows "alloc_error e"
proof -
  have l: "unat ord < length (queue_head s)" "unat ord < length (tail s)"
    "queue_head s ! unat ord \<noteq> [] \<longrightarrow> tail s ! unat ord = qaddr (last (queue_head s ! unat ord))"
    using assms(1,2) by (simp_all add: queues_ok_def)
  show ?thesis using assms(3) l
    by (cases "kmalloc SIZEOF_QUEUE (heap s)") (auto simp: enqueue_def alloc_error_def split: if_splits)
qed

text \<open>The slot a task is enqueued from is not in any queue, so the new node is a new entry.\<close>

lemma enqueue_keeps:
  assumes inv: "table_ok s" and i: "0 < i" "i < 64" and t: "TASK s ! i = Some t" "\<not> in_Queue t"
    and ord: "unat ord < 5" and e: "enqueue ord i (pid t) s = Inr s1"
    and t': "t' = t\<lparr>state := TASK_READY, in_Queue := True, order := ord, counter := c\<rparr>"
  shows "table_ok (set_task i t' s1)"
proof -
  have q: "queues_ok s" and len: "length (TASK s) = 64" using inv by (simp_all add: table_ok_def)
  obtain a h where s1: "s1 = s\<lparr>heap := h, tail := (tail s)[unat ord := a],
    queue_head := (queue_head s)[unat ord := queue_head s ! unat ord @ [\<lparr>qaddr = a, qpid = pid t, qtask = i\<rparr>]]\<rparr>"
    using enqueue_eq [OF q ord e] .
  let ?s = "set_task i t' s1"
  have l5: "length (queue_head s) = 5" "length (tail s) = 5" using q by (simp_all add: queues_ok_def)
  have new: "i \<noteq> qtask x" if "k < 5" "x \<in> set (queue_head s ! k)" for k x
    using queues_okD(3) [OF q that] t by (auto elim: queued_okE)
  have old: "queued_ok ?s k x" if "k < 5" "x \<in> set (queue_head s ! k)" for k x
    using queues_okD(3) [OF q that] new [OF that] by (auto simp: queued_ok_def s1)
  have qh: "queue_head ?s ! k = (if k = unat ord then queue_head s ! k @ [\<lparr>qaddr = a, qpid = pid t, qtask = i\<rparr>]
      else queue_head s ! k)" if "k < 5" for k
    using that l5 by (auto simp: s1)
  have "queued_ok ?s (unat ord) \<lparr>qaddr = a, qpid = pid t, qtask = i\<rparr>"
    using i len by (simp add: queued_ok_def s1 t')
  then have all: "queued_ok ?s k x" if "k < 5" "x \<in> set (queue_head ?s ! k)" for k x
    using that qh [OF that(1)] old [OF that(1)] by (auto split: if_splits)
  have dist: "distinct (map qtask (queue_head ?s ! k))" if "k < 5" for k
    using queues_okD(2) [OF q that] qh [OF that] new [OF that] by (auto split: if_splits)
  have tl: "tail ?s ! k = qaddr (last (queue_head ?s ! k))" if "k < 5" "queue_head ?s ! k \<noteq> []" for k
    using queues_okD(1) [OF q that(1)] qh [OF that(1)] that l5 by (auto simp: s1 split: if_splits)
  have "queues_ok ?s" using l5 all dist tl by (simp add: queues_ok_def s1)
  moreover have "task_ok ?s j" if j: "0 < j" "j < 64" for j
  proof (cases "j = i")
    case True
    then show ?thesis using len j ord qh [OF ord]
      by (auto simp: task_ok_def t' s1 word_le_nat_alt intro!: exI [of _ "unat ord"])
  next
    case False
    have "task_ok s j" using inv j by (simp add: table_ok_def)
    moreover have "qtask ` set (queue_head s ! k) \<subseteq> qtask ` set (queue_head ?s ! k)" if "k < 5" for k
      using qh [OF that] by auto
    ultimately show ?thesis using False by (auto simp: task_ok_def s1) blast+
  qed
  ultimately show ?thesis using inv i by (simp add: table_ok_def s1)
qed

lemma order_bound: "(x :: u8) \<le> 4 \<Longrightarrow> unat x < 5"
  by (simp add: word_le_nat_alt)

lemma order_next: "(x :: u8) < 4 \<Longrightarrow> unat (x + 1) < 5"
  by (simp add: word_less_nat_alt unat_word_ariths)

text \<open>A task marked as queued is ready, so the removal branch of \<^verbatim>\<open>set_Queue\<close> is dead code.\<close>

lemma in_Queue_ready:
  assumes "table_ok s" and "0 < i" and "i < 64" and "TASK s ! i = Some t" and "in_Queue t"
  shows "state t = TASK_READY"
proof -
  have "task_ok s i" using assms(1-3) by (simp add: table_ok_def)
  then obtain k q where "k < 5" "q \<in> set (queue_head s ! k)" "qtask q = i"
    using assms(4,5) by (auto simp: task_ok_def)
  moreover have "queues_ok s" using assms(1) by (simp add: table_ok_def)
  ultimately show ?thesis using queues_okD(3) assms(4) by (metis option.inject queued_okE)
qed

lemma set_Queue_body_cases:
  assumes inv: "table_ok s" and i: "0 < i" "i < 64" and t: "TASK s ! i = Some t"
  obtains "in_Queue t \<or> \<not> runnable t" and "set_Queue_body i t s = Inr s"
  | "\<not> in_Queue t" and "runnable t" and "unat (requeue_order t) < 5"
    and "set_Queue_body i t s = kbind (enqueue (requeue_order t) i (pid t) s) (\<lambda>s1. Inr (set_task i (requeued t) s1))"
proof (cases "in_Queue t \<or> \<not> runnable t")
  case True
  then have "set_Queue_body i t s = Inr s"
    using in_Queue_ready [OF assms] by (auto simp: set_Queue_body_def runnable_def)
  then show ?thesis using that(1) True by blast
next
  case False
  have "task_ok s i" using inv i by (simp add: table_ok_def)
  then have "order t \<le> 4" using t False by (auto simp: task_ok_def runnable_def)
  then have "unat (requeue_order t) < 5" using order_bound order_next by (simp add: requeue_order_def)
  moreover have "set_Queue_body i t s = kbind (enqueue (requeue_order t) i (pid t) s) (\<lambda>s1. Inr (set_task i (requeued t) s1))"
    using False by (auto simp: set_Queue_body_def runnable_def)
  ultimately show ?thesis using that(2) False by blast
qed

lemma set_Queue_body_inv:
  assumes "table_ok s" and "0 < i" and "i < 64" and "TASK s ! i = Some t" and "set_Queue_body i t s = Inr s'"
  shows "table_ok s'"
  using assms(1-4)
proof (cases rule: set_Queue_body_cases)
  case 1
  then show ?thesis using assms by simp
next
  case 2
  have "kbind (enqueue (requeue_order t) i (pid t) s) (\<lambda>s1. Inr (set_task i (requeued t) s1)) = Inr s'"
    using 2(4) assms(5) by simp
  then obtain s1 where s1: "enqueue (requeue_order t) i (pid t) s = Inr s1" and s': "s' = set_task i (requeued t) s1"
    by (auto elim: kbind_InrE)
  show ?thesis unfolding s' by (rule enqueue_keeps [OF assms(1-4) 2(1,3) s1 requeued_def])
qed

lemma set_Queue_inv:
  assumes "table_ok s" and "set_Queue s = Inr s'"
  shows "table_ok s'"
  using for_tasks_inv [of table_ok 63 set_Queue_body s s'] assms set_Queue_body_inv
  by (simp add: set_Queue_def MAX_TASK_def)

lemma set_Queue_error:
  assumes "table_ok s" and "set_Queue s = Inl e"
  shows "alloc_error e"
proof (rule for_tasks_error [of table_ok 63 set_Queue_body alloc_error s e])
  fix i t s e assume a: "table_ok s" "0 < i" "i \<le> 63" "TASK s ! i = Some t" "set_Queue_body i t s = Inl e"
  then have "i < 64" by simp
  with a(1,2) show "alloc_error e" using a(4)
  proof (cases rule: set_Queue_body_cases)
    case 2
    then have "enqueue (requeue_order t) i (pid t) s = Inl e"
      using a(5) by (cases "enqueue (requeue_order t) i (pid t) s") auto
    moreover have "queues_ok s" using a(1) by (simp add: table_ok_def)
    ultimately show ?thesis using enqueue_error 2(3) by blast
  qed (use a in simp)
next
  fix s assume "table_ok s" then show "63 < length (TASK s)" by (simp add: table_ok_def)
qed (use assms set_Queue_body_inv in \<open>auto simp: set_Queue_def MAX_TASK_def\<close>)

text \<open>The queues only grow at their ends.\<close>

lemma set_Queue_appends:
  assumes "table_ok s" and "set_Queue s = Inr s'"
  shows "current s' = current s \<and> (\<forall>k<5. \<exists>new. queue_head s' ! k = queue_head s ! k @ new)"
proof -
  let ?I = "\<lambda>r. table_ok r \<and> current r = current s \<and> (\<forall>k<5. \<exists>new. queue_head r ! k = queue_head s ! k @ new)"
  have "?I s'"
  proof (rule for_tasks_inv [of ?I 63 set_Queue_body s])
    fix i t r r' assume I: "?I r" and a: "0 < i" "i \<le> 63" "TASK r ! i = Some t" "set_Queue_body i t r = Inr r'"
    then have tr: "table_ok r" "i < 64" by simp_all
    have "table_ok r'" using set_Queue_body_inv [OF tr(1) a(1) tr(2) a(3,4)] .
    moreover have "current r' = current r \<and> (\<forall>k<5. \<exists>new. queue_head r' ! k = queue_head r ! k @ new)"
      using tr(1) a(1) tr(2) a(3)
    proof (cases rule: set_Queue_body_cases)
      case 1
      then show ?thesis using a(4) by simp
    next
      case 2
      have "kbind (enqueue (requeue_order t) i (pid t) r) (\<lambda>s1. Inr (set_task i (requeued t) s1)) = Inr r'"
        using 2(4) a(4) by simp
      then obtain r1 where r1: "enqueue (requeue_order t) i (pid t) r = Inr r1" and r': "r' = set_task i (requeued t) r1"
        by (auto elim: kbind_InrE)
      have q: "queues_ok r" and l: "length (queue_head r) = 5" using tr(1) by (simp_all add: table_ok_def queues_ok_def)
      obtain a' h where "r1 = r\<lparr>heap := h, tail := (tail r)[unat (requeue_order t) := a'],
          queue_head := (queue_head r)[unat (requeue_order t) := queue_head r ! unat (requeue_order t)
            @ [\<lparr>qaddr = a', qpid = pid t, qtask = i\<rparr>]]\<rparr>"
        using enqueue_eq [OF q 2(3) r1] .
      then have "queue_head r' ! k = queue_head r ! k @ (if k = unat (requeue_order t)
          then [\<lparr>qaddr = a', qpid = pid t, qtask = i\<rparr>] else [])" and "current r' = current r" if "k < 5" for k
        using l that by (auto simp: r')
      then show ?thesis by (metis zero_less_numeral)
    qed
    moreover have "\<exists>new. queue_head r' ! k = queue_head s ! k @ new"
      if "\<exists>new. queue_head r ! k = queue_head s ! k @ new" "\<exists>new. queue_head r' ! k = queue_head r ! k @ new" for k
      using that by (metis append.assoc)
    ultimately show "?I r'" using I by simp
  qed (use assms in \<open>auto simp: set_Queue_def MAX_TASK_def\<close>)
  then show ?thesis by blast
qed

lemma set_Queue_all_queued:
  assumes "table_ok s" and "set_Queue s = Inr s'" and "0 < i" and "i < 64" and "TASK s' ! i = Some t"
  shows "runnable t \<longleftrightarrow> in_Queue t"
proof
  assume "in_Queue t"
  then show "runnable t" using in_Queue_ready [OF set_Queue_inv [OF assms(1,2)] assms(3-5)] by (simp add: runnable_def)
next
  let ?Q = "\<lambda>x. \<forall>t. x = Some t \<longrightarrow> runnable t \<longrightarrow> in_Queue t"
  have "(\<forall>i. 0 < i \<longrightarrow> i \<le> 63 \<longrightarrow> ?Q (TASK s' ! i)) \<and> (\<forall>i. i = 0 \<or> 63 < i \<longrightarrow> TASK s' ! i = TASK s ! i)"
  proof (rule for_tasks_slots)
    fix i t s s' and j :: nat assume "set_Queue_body i t s = Inr s'" "j \<noteq> i"
    then show "TASK s' ! j = TASK s ! j"
      by (auto simp: set_Queue_body_def remove_task_def enqueue_def Let_def kbind_eq_Inr split: if_splits prod.splits)
  next
    fix i :: nat and t s s'
    assume a: "0 < i" "i < length (TASK s)" "TASK s ! i = Some t" "set_Queue_body i t s = Inr s'"
    have "length (TASK s') = length (TASK s) \<and> (TASK s' ! i = Some t \<and> (in_Queue t \<or> \<not> runnable t) \<or> TASK s' ! i = Some (requeued t))"
      using a(2-4)
      by (auto simp: set_Queue_body_def remove_task_def enqueue_def Let_def kbind_eq_Inr runnable_def split: if_splits prod.splits)
    then show "?Q (TASK s' ! i)" by (auto simp: requeued_def)
  qed (use assms(2) in \<open>auto simp: set_Queue_def MAX_TASK_def\<close>)
  then show "in_Queue t" if "runnable t" using that assms(3-5) by auto
qed

lemma task_ok_update:
  assumes "table_ok s" and "0 < i" and "i < 64" and "TASK s ! i = Some t" and "in_Queue t' = in_Queue t"
    and "in_Queue t \<Longrightarrow> state t' = state t \<and> pid t' = pid t \<and> order t' = order t"
    and "state t' \<in> {TASK_READY, TASK_RUNNING, TASK_WAIT} \<Longrightarrow> order t' \<le> 4"
  shows "table_ok (set_task i t' s)"
proof -
  let ?s = "set_task i t' s"
  have q: "queues_ok s" and len: "length (TASK s) = 64" using assms(1) by (simp_all add: table_ok_def)
  have "queued_ok ?s k x" if "k < 5" "x \<in> set (queue_head s ! k)" for k x
    using queues_okD(3) [OF q that] assms(3-6) len by (cases "qtask x = i") (auto simp: queued_ok_def)
  then have "queues_ok ?s" using q by (simp add: queues_ok_def)
  moreover have "task_ok ?s j" if "0 < j" "j < 64" for j
  proof -
    have "task_ok s j" using assms(1) that by (simp add: table_ok_def)
    then show ?thesis using assms(4,5,7) len that by (cases "j = i") (auto simp: task_ok_def)
  qed
  ultimately show ?thesis using assms(1,2) by (simp add: table_ok_def)
qed

lemma alter_state_inv:
  assumes "table_ok s" and "alter_state s = Inr s'"
  shows "table_ok s' \<and> queue_head s' = queue_head s \<and> current s' = current s"
proof -
  let ?I = "\<lambda>r. table_ok r \<and> queue_head r = queue_head s \<and> current r = current s"
  have "?I s'"
  proof (rule for_tasks_inv [of ?I 63 alter_state_body s])
    fix i t r r' assume I: "?I r" and a: "0 < i" "i \<le> 63" "TASK r ! i = Some t" "alter_state_body i t r = Inr r'"
    have i: "i < 64" using a(2) by simp
    have "task_ok r i" using I a(1) i by (simp add: table_ok_def)
    then have ord: "state t = TASK_WAIT \<Longrightarrow> order t \<le> 4" using a(3) by (simp add: task_ok_def)
    have "in_Queue t \<Longrightarrow> state t = TASK_READY" using in_Queue_ready I a(1,3) i by blast
    then have "state t = TASK_WAIT \<Longrightarrow> table_ok (set_task i (t\<lparr>state := TASK_READY, signal := 0\<rparr>) r)"
      using ord I a(1,3) i by (intro task_ok_update [where t = t]) auto
    then show "?I r'" using I a(4) by (auto simp: alter_state_body_def split: if_splits)
  qed (use assms in \<open>auto simp: alter_state_def MAX_TASK_def\<close>)
  then show ?thesis .
qed

lemma alter_state_total:
  assumes "table_ok s"
  shows "\<exists>s'. alter_state s = Inr s'"
proof (cases "alter_state s")
  case (Inl e)
  have "False"
    by (rule for_tasks_error [of "\<lambda>r. length (TASK r) = 64" 63 alter_state_body "\<lambda>_. False" s e])
       (use assms Inl in \<open>auto simp: alter_state_body_def alter_state_def MAX_TASK_def table_ok_def split: if_splits\<close>)
  then show ?thesis ..
qed simp

section \<open>The choice of the next task\<close>

lemma dequeue_eq:
  assumes inv: "table_ok s" and k: "k < 5" and q: "queue_head s ! k = q # rest" and d: "dequeue k s = Inr (n, s')"
  obtains t h where "n = qtask q" and "0 < n" and "n < 64" and "TASK s ! n = Some t" and "in_Queue t"
    and "unat (order t) = k"
    and "s' = set_task n (t\<lparr>in_Queue := False, state := TASK_RUNNING\<rparr>) (s\<lparr>heap := h, queue_head := (queue_head s)[k := rest]\<rparr>)"
proof -
  have qs: "queues_ok s" and len: "length (TASK s) = 64" "length (queue_head s) = 5"
    using inv by (simp_all add: table_ok_def queues_ok_def)
  have "queued_ok s k q" using queues_okD(3) [OF qs k, of q] q by simp
  then obtain t where t: "TASK s ! qtask q = Some t" "in_Queue t" "unat (order t) = k" "0 < qtask q" "qtask q < 64"
    by (rule queued_okE)
  then show ?thesis
    using that d q k len by (auto simp: dequeue_def the_task_def kbind_eq_Inr)
qed

lemma dequeue_inv:
  assumes inv: "table_ok s" and k: "k < 5" and q: "queue_head s ! k = q # rest" and d: "dequeue k s = Inr (n, s')"
  shows "table_ok s'"
proof -
  obtain t h where n: "n = qtask q" "0 < n" "n < 64" and t: "TASK s ! n = Some t" "in_Queue t" "unat (order t) = k"
    and s': "s' = set_task n (t\<lparr>in_Queue := False, state := TASK_RUNNING\<rparr>)
               (s\<lparr>heap := h, queue_head := (queue_head s)[k := rest]\<rparr>)"
    using dequeue_eq [OF assms] .
  have qs: "queues_ok s" and len: "length (TASK s) = 64" "length (queue_head s) = 5"
    using inv by (simp_all add: table_ok_def queues_ok_def)
  have qh: "queue_head s' ! j = (if j = k then rest else queue_head s ! j)" if "j < 5" for j
    using that len by (simp add: s' nth_list_update)
  have sub: "set (queue_head s' ! j) \<subseteq> set (queue_head s ! j)" if "j < 5" for j
    using qh [OF that] q by auto
  have other: "qtask x \<noteq> n" if "j < 5" "x \<in> set (queue_head s' ! j)" for j x
  proof (cases "j = k")
    case True
    have "distinct (map qtask (q # rest))" using queues_okD(2) [OF qs k] q by simp
    then have "n \<notin> qtask ` set rest" using n(1) by simp
    moreover have "x \<in> set rest" using that qh [OF that(1)] True by simp
    ultimately show ?thesis by (metis image_eqI)
  next
    case False
    then have "queued_ok s j x" using queues_okD(3) [OF qs that(1)] that qh by simp
    then show ?thesis using False t by (auto elim!: queued_okE)
  qed
  have "queued_ok s' j x" if "j < 5" "x \<in> set (queue_head s' ! j)" for j x
    using queues_okD(3) [OF qs that(1)] sub [OF that(1)] that(2) other [OF that] by (auto simp: queued_ok_def s')
  moreover have "distinct (map qtask (queue_head s' ! j))" if "j < 5" for j
    using queues_okD(2) [OF qs that] qh [OF that] q by (auto split: if_splits)
  moreover have "tail s' ! j = qaddr (last (queue_head s' ! j))" if "j < 5" "queue_head s' ! j \<noteq> []" for j
    using queues_okD(1) [OF qs that(1)] qh [OF that(1)] that(2) q by (auto simp: s' split: if_splits)
  ultimately have "queues_ok s'" using qs len by (simp add: queues_ok_def s')
  moreover have "task_ok s' j" if j: "0 < j" "j < 64" for j
  proof (cases "j = n")
    case True
    then show ?thesis using t(3) k n(3) len by (auto simp: task_ok_def s' word_le_nat_alt)
  next
    case False
    have "task_ok s j" using inv j by (simp add: table_ok_def)
    moreover have "j \<in> qtask ` set (queue_head s' ! m)" if "m < 5" "j \<in> qtask ` set (queue_head s ! m)" for m
      using that qh [OF that(1)] q False n(1) by (auto split: if_splits)
    ultimately show ?thesis using False by (auto simp: task_ok_def s') blast+
  qed
  ultimately show ?thesis using inv n len by (simp add: table_ok_def s')
qed

lemma pick_next_inv:
  assumes inv: "table_ok s" and p: "pick_next s = Inr (n, s')"
  shows "table_ok s'" and "n < 64" and "\<exists>t. TASK s' ! n = Some t \<and> (0 < n \<longrightarrow> \<not> in_Queue t \<and> state t = TASK_RUNNING)"
proof -
  have len: "length (TASK s) = 64" "TASK s ! 0 \<noteq> None" using inv by (simp_all add: table_ok_def)
  have "table_ok s' \<and> n < 64 \<and> (\<exists>t. TASK s' ! n = Some t \<and> (0 < n \<longrightarrow> \<not> in_Queue t \<and> state t = TASK_RUNNING))"
  proof (cases "first_index (\<lambda>k. queue_head s ! k \<noteq> []) 0 5")
    case None
    then show ?thesis using p inv len by (auto simp: pick_next_def the_task_def kbind_eq_Inr)
  next
    case (Some k)
    then have k: "k < 5" "queue_head s ! k \<noteq> []" using first_index_Some by blast+
    then obtain q rest where q: "queue_head s ! k = q # rest" by (cases "queue_head s ! k") auto
    have d: "dequeue k s = Inr (n, s')" using p Some by (simp add: pick_next_def)
    obtain t h where "n = qtask q" "0 < n" "n < 64" "TASK s ! n = Some t" "in_Queue t" "unat (order t) = k"
      and "s' = set_task n (t\<lparr>in_Queue := False, state := TASK_RUNNING\<rparr>)
               (s\<lparr>heap := h, queue_head := (queue_head s)[k := rest]\<rparr>)"
      using dequeue_eq [OF inv k(1) q d] .
    then show ?thesis using dequeue_inv [OF inv k(1) q d] len by simp
  qed
  then show "table_ok s'" "n < 64" "\<exists>t. TASK s' ! n = Some t \<and> (0 < n \<longrightarrow> \<not> in_Queue t \<and> state t = TASK_RUNNING)" by blast+
qed

lemma schedule_split:
  assumes "schedule s = Inr s'"
  obtains s1 s2 n s3 where "alter_state s = Inr s1" and "set_Queue s1 = Inr s2" and "pick_next s2 = Inr (n, s3)"
    and "s' = s3\<lparr>current := n\<rparr>"
proof -
  obtain s1 s2 n s3 where "alter_state s = Inr s1" "set_Queue s1 = Inr s2" "pick_next s2 = Inr (n, s3)"
    and "(if current s3 = n then Inr s3 else Inr (s3\<lparr>current := n\<rparr>)) = (Inr s' :: kstate res)"
    using assms by (auto simp: schedule_def kbind_eq_Inr)
  then show ?thesis using that by (auto split: if_splits)
qed

lemma table_ok_current [simp]: "table_ok (s\<lparr>current := n\<rparr>) = table_ok s"
  by (simp add: table_ok_def queues_ok_def queued_ok_def task_ok_def)

text \<open>\<^verbatim>\<open>schedule\<close> needs the invariant only of the table: \<^verbatim>\<open>do_exit\<close> and \<^verbatim>\<open>waitpid\<close> call it with a
  current task that is no longer running.\<close>

lemma schedule_table:
  assumes "table_ok s" and "schedule s = Inr s'"
  shows "sinv s'"
proof -
  obtain s1 s2 n s3 where st: "alter_state s = Inr s1" "set_Queue s1 = Inr s2" "pick_next s2 = Inr (n, s3)"
    "s' = s3\<lparr>current := n\<rparr>"
    using schedule_split [OF assms(2)] .
  have "table_ok s2" using set_Queue_inv alter_state_inv [OF assms(1) st(1)] st(2) by blast
  from pick_next_inv [OF this st(3)] show ?thesis by (simp add: sinv_def st(4))
qed

lemma schedule_running:
  assumes "table_ok s" and "schedule s = Inr s'"
  shows "current s' = 0 \<or> (\<exists>c. TASK s' ! current s' = Some c \<and> state c = TASK_RUNNING)"
proof -
  obtain s1 s2 n s3 where st: "alter_state s = Inr s1" "set_Queue s1 = Inr s2" "pick_next s2 = Inr (n, s3)"
    "s' = s3\<lparr>current := n\<rparr>"
    using schedule_split [OF assms(2)] .
  have t2: "table_ok s2" using set_Queue_inv alter_state_inv [OF assms(1) st(1)] st(2) by blast
  show ?thesis
  proof (cases "first_index (\<lambda>k. queue_head s2 ! k \<noteq> []) 0 5")
    case None
    then show ?thesis using st(3,4) by (auto simp: pick_next_def kbind_eq_Inr)
  next
    case (Some k)
    then have k: "k < 5" "queue_head s2 ! k \<noteq> []" using first_index_Some by blast+
    then obtain q rest where q: "queue_head s2 ! k = q # rest" by (cases "queue_head s2 ! k") auto
    have d: "dequeue k s2 = Inr (n, s3)" using st(3) Some by (simp add: pick_next_def)
    obtain t h where n: "n = qtask q" "0 < n" "n < 64" "TASK s2 ! n = Some t" "in_Queue t" "unat (order t) = k"
      and s3: "s3 = set_task n (t\<lparr>in_Queue := False, state := TASK_RUNNING\<rparr>)
               (s2\<lparr>heap := h, queue_head := (queue_head s2)[k := rest]\<rparr>)"
      using dequeue_eq [OF t2 k(1) q d] .
    have "length (TASK s2) = 64" using t2 by (simp add: table_ok_def)
    then show ?thesis using n(3) by (simp add: st(4) s3)
  qed
qed

lemma schedule_error:
  assumes "table_ok s" and "schedule s = Inl e"
  shows "alloc_error e"
proof -
  obtain s1 where s1: "alter_state s = Inr s1" using alter_state_total [OF assms(1)] by blast
  have t1: "table_ok s1" using alter_state_inv [OF assms(1) s1] by blast
  show ?thesis
  proof (cases "set_Queue s1")
    case (Inl e')
    then show ?thesis using assms(2) s1 set_Queue_error [OF t1] by (simp add: schedule_def)
  next
    case (Inr s2)
    have t2: "table_ok s2" using set_Queue_inv [OF t1 Inr] .
    have len: "length (TASK s2) = 64" "TASK s2 ! 0 \<noteq> None" "length (queue_head s2) = 5" and qs: "queues_ok s2"
      using t2 by (simp_all add: table_ok_def queues_ok_def)
    have pe: "pick_next s2 = Inl e"
      using assms(2) s1 Inr by (cases "pick_next s2") (auto simp: schedule_def split: if_splits prod.splits)
    show ?thesis
    proof (cases "first_index (\<lambda>k. queue_head s2 ! k \<noteq> []) 0 5")
      case None
      then show ?thesis using pe len by (auto simp: pick_next_def the_task_def)
    next
      case (Some k)
      then have k: "k < 5" "queue_head s2 ! k \<noteq> []" using first_index_Some by blast+
      then obtain q rest where q: "queue_head s2 ! k = q # rest" by (cases "queue_head s2 ! k") auto
      have "queued_ok s2 k q" using queues_okD(3) [OF qs k(1), of q] q by simp
      then obtain t where "TASK s2 ! qtask q = Some t" "qtask q < 64" by (rule queued_okE)
      then have "kfree (qaddr q) 0 (heap s2) = Inl e"
        using pe Some k q len
        by (cases "kfree (qaddr q) 0 (heap s2)") (auto simp: pick_next_def dequeue_def the_task_def)
      then show ?thesis by (auto simp: alloc_error_def)
    qed
  qed
qed


text \<open>
  C28. Work conservation and priority. After \<open>schedule\<close> either the idle task is current and
  no other task is runnable, or the current task is marked running and no task of a lower
  order is left in the ready queues.
\<close>

theorem schedule_choice:
  assumes "sinv s" and "schedule s = Inr s'"
  shows "(current s' = 0 \<and> (\<forall>i t. 0 < i \<longrightarrow> i < 64 \<longrightarrow> TASK s' ! i = Some t \<longrightarrow> \<not> runnable t)) \<or>
    (0 < current s' \<and> (\<exists>c. TASK s' ! current s' = Some c \<and> state c = TASK_RUNNING \<and>
       (\<forall>i t. 0 < i \<longrightarrow> i < 64 \<longrightarrow> TASK s' ! i = Some t \<longrightarrow> in_Queue t \<longrightarrow> order c \<le> order t)))"
proof -
  obtain s1 s2 n s3 where st: "alter_state s = Inr s1" "set_Queue s1 = Inr s2" "pick_next s2 = Inr (n, s3)"
    "s' = s3\<lparr>current := n\<rparr>"
    using schedule_split [OF assms(2)] .
  have t1: "table_ok s1" using alter_state_inv [OF _ st(1)] assms(1) by (simp add: sinv_def)
  have t2: "table_ok s2" using set_Queue_inv [OF t1 st(2)] .
  have len: "length (TASK s2) = 64" using t2 by (simp add: table_ok_def)
  have in_some: "\<exists>k<5. i \<in> qtask ` set (queue_head s2 ! k) \<and> unat (order t) = k"
    if i: "0 < i" "i < 64" and t: "TASK s2 ! i = Some t" "in_Queue t" for i t
  proof -
    have "task_ok s2 i" using t2 i by (simp add: table_ok_def)
    then obtain k x where kx: "k < 5" "x \<in> set (queue_head s2 ! k)" "qtask x = i" using t by (auto simp: task_ok_def)
    moreover have "queues_ok s2" using t2 by (simp add: table_ok_def)
    ultimately have "unat (order t) = k" using queues_okD(3) [of s2 k x] t(1) by (auto elim!: queued_okE)
    then show ?thesis using kx by auto
  qed
  show ?thesis
  proof (cases "first_index (\<lambda>k. queue_head s2 ! k \<noteq> []) 0 5")
    case None
    then have empty: "\<forall>k<5. queue_head s2 ! k = []" by (simp add: first_index_None)
    have "n = 0" "s3 = s2" using None st(3) by (auto simp: pick_next_def kbind_eq_Inr)
    moreover have "\<not> runnable t" if "0 < i" "i < 64" "TASK s2 ! i = Some t" for i t
      using set_Queue_all_queued [OF t1 st(2) that] in_some [OF that] empty by auto
    ultimately show ?thesis using st(4) by simp
  next
    case (Some k)
    then have k: "k < 5" "queue_head s2 ! k \<noteq> []" and low: "\<forall>j<k. queue_head s2 ! j = []"
      using first_index_Some [OF Some] by auto
    then obtain q rest where q: "queue_head s2 ! k = q # rest" by (cases "queue_head s2 ! k") auto
    have d: "dequeue k s2 = Inr (n, s3)" using st(3) Some by (simp add: pick_next_def)
    obtain t h where n: "n = qtask q" "0 < n" "n < 64" and t: "TASK s2 ! n = Some t" "in_Queue t" "unat (order t) = k"
      and s3: "s3 = set_task n (t\<lparr>in_Queue := False, state := TASK_RUNNING\<rparr>)
               (s2\<lparr>heap := h, queue_head := (queue_head s2)[k := rest]\<rparr>)"
      using dequeue_eq [OF t2 k(1) q d] .
    have "order t \<le> order u" if i: "0 < i" "i < 64" and u: "TASK s' ! i = Some u" "in_Queue u" for i u
    proof -
      have "TASK s2 ! i = Some u" using i u len by (cases "i = n") (auto simp: st(4) s3)
      then obtain m where m: "m < 5" "i \<in> qtask ` set (queue_head s2 ! m)" "unat (order u) = m"
        using in_some [OF i _ u(2)] by blast
      then have "k \<le> m" using low by (metis empty_iff empty_set image_is_empty leI)
      then show ?thesis using t(3) m(3) by (simp add: word_le_nat_alt)
    qed
    then show ?thesis using n len by (intro disjI2) (auto simp: st(4) s3)
  qed
qed

lemma schedule_head:
  assumes "sinv s" and "schedule s = Inr s'" and "queue_head s ! 0 = q # rest"
  shows "current s' = qtask q" and "\<exists>new. queue_head s' ! 0 = rest @ new"
proof -
  obtain s1 s2 n s3 where st: "alter_state s = Inr s1" "set_Queue s1 = Inr s2" "pick_next s2 = Inr (n, s3)"
    "s' = s3\<lparr>current := n\<rparr>"
    using schedule_split [OF assms(2)] .
  have t1: "table_ok s1" and qh: "queue_head s1 = queue_head s"
    using alter_state_inv [OF _ st(1)] assms(1) by (simp_all add: sinv_def)
  obtain new where new: "queue_head s2 ! 0 = q # rest @ new"
    using set_Queue_appends [OF t1 st(2)] assms(3) qh by fastforce
  have t2: "table_ok s2" using set_Queue_inv [OF t1 st(2)] .
  have "first_index (\<lambda>k. queue_head s2 ! k \<noteq> []) 0 5 = Some 0"
    using new by (simp add: first_index.simps [of _ 0])
  then have d: "dequeue 0 s2 = Inr (n, s3)" using st(3) by (simp add: pick_next_def)
  have len: "length (queue_head s2) = 5" using t2 by (simp add: table_ok_def queues_ok_def)
  obtain h t where "n = qtask q" "s3 = set_task n (t\<lparr>in_Queue := False, state := TASK_RUNNING\<rparr>)
      (s2\<lparr>heap := h, queue_head := (queue_head s2)[0 := rest @ new]\<rparr>)"
    by (rule dequeue_eq [OF t2 zero_less_numeral new d])
  then show "current s' = qtask q" "\<exists>new. queue_head s' ! 0 = rest @ new" using st(4) len by auto
qed

text \<open>Repeated calls of \<open>schedule\<close>, with nothing else in between.\<close>

fun schedules :: "nat \<Rightarrow> kstate \<Rightarrow> kstate res" where
  "schedules 0 s = Inr s"
| "schedules (Suc n) s = kbind (schedule s) (schedules n)"

text \<open>
  C29. First come, first served in the first queue: the task at position \<open>n\<close> of queue 0 is the
  current task after exactly \<open>n + 1\<close> calls of \<open>schedule\<close>, whatever is queued in the meantime.
\<close>

theorem schedule_fifo:
  assumes "sinv s" and "n < length (queue_head s ! 0)" and "schedules (Suc n) s = Inr s'"
  shows "current s' = qtask (queue_head s ! 0 ! n)"
  using assms
proof (induction n arbitrary: s)
  case 0
  then obtain q rest where "queue_head s ! 0 = q # rest" by (cases "queue_head s ! 0") auto
  moreover have "schedule s = Inr s'" using "0.prems"(3) by (auto simp: kbind_eq_Inr)
  ultimately show ?case using schedule_head(1) "0.prems"(1) by simp
next
  case (Suc n)
  then obtain q rest where q: "queue_head s ! 0 = q # rest" by (cases "queue_head s ! 0") auto
  obtain s1 where s1: "schedule s = Inr s1" "schedules (Suc n) s1 = Inr s'"
    using Suc.prems(3) by (auto simp: kbind_eq_Inr)
  obtain new where new: "queue_head s1 ! 0 = rest @ new" using schedule_head(2) [OF Suc.prems(1) s1(1) q] ..
  have inv: "sinv s1" using schedule_table [OF _ s1(1)] Suc.prems(1) unfolding sinv_def [of s] by blast
  have "n < length rest" using Suc.prems(2) q by simp
  then show ?case using Suc.IH [OF inv _ s1(2)] new q by (simp add: nth_append)
qed

section \<open>A concrete schedule\<close>

text \<open>One ready task in queue 0 beside the idle task; its node is an object of the heap.\<close>

definition demo_task :: task_struct where
  "demo_task = (init_task 0x80500000 0x80600000)\<lparr>pid := 1, pcb_id := 1, in_Queue := True, counter := 2\<rparr>"

definition demo :: kstate where
  "demo = \<lparr>TASK = Some (init_task 0x80700000 0x80600000) # Some demo_task # replicate 62 None, current = 0,
           queue_head = [[\<lparr>qaddr = 0x80308000, qpid = 1, qtask = 1\<rparr>], [], [], [], []],
           tail = [0x80308000, 0, 0, 0, 0], heap = heap_three, jiffies = 0, NEW_PID = 1, NEW_PCBID = 1,
           task_stack = 0x80600000, stack_mem = (\<lambda>_. 0)\<rparr>"

lemma for_tasks_skip:
  "m \<le> n \<Longrightarrow> n < length (TASK s) \<Longrightarrow> (\<forall>i. m < i \<longrightarrow> i \<le> n \<longrightarrow> TASK s ! i = None) \<Longrightarrow>
   for_tasks n f s = for_tasks m f s"
proof (induction n)
  case (Suc n)
  show ?case
  proof (cases "m = Suc n")
    case False
    then have "for_tasks n f s = for_tasks m f s" using Suc by auto
    then show ?thesis using Suc.prems False by simp
  qed simp
qed simp

lemma demo_slot: "TASK demo ! i = (if i = 0 then Some (init_task 0x80700000 0x80600000)
   else if i = 1 then Some demo_task else None)" if "i < 64"
  using that by (auto simp: demo_def nth_Cons split: nat.splits)

lemma demo_sinv: "sinv demo"
proof -
  have k: "k \<in> {0, 1, 2, 3, 4}" if "k < 5" for k :: nat using that by auto
  have "queued_ok demo 0 \<lparr>qaddr = 0x80308000, qpid = 1, qtask = 1\<rparr>"
    by (simp add: queued_ok_def demo_slot) (simp add: demo_task_def init_task_def)
  then have "queues_ok demo" unfolding queues_ok_def by (auto simp: demo_def dest!: k)
  moreover have "task_ok demo i" if "0 < i" "i < 64" for i
    using that demo_slot [of i]
    by (auto simp: task_ok_def demo_def demo_task_def init_task_def intro!: exI [of _ 0])
  ultimately show ?thesis using demo_slot [of 0] by (simp add: sinv_def table_ok_def) (simp add: demo_def)
qed

lemma demo_schedule: "\<exists>s'. schedule demo = Inr s'"
proof -
  have len: "length (TASK demo) = 64" by (simp add: demo_def)
  have one: "for_tasks 63 f demo = for_tasks 1 f demo" for f
    by (rule for_tasks_skip) (simp_all add: len demo_slot)
  have "alter_state demo = Inr demo" and "set_Queue demo = Inr demo"
    unfolding alter_state_def set_Queue_def MAX_TASK_def using demo_slot [of 1] len
    by (simp_all add: one alter_state_body_def set_Queue_body_def) (simp_all add: demo_task_def init_task_def)
  moreover have "\<exists>n s'. pick_next demo = Inr (n, s')"
  proof -
    obtain h where "kfree 0x80308000 0 heap_three = Inr h"
      using kfree_three by blast
    then have "\<exists>n s'. dequeue 0 demo = Inr (n, s')"
      by (simp add: dequeue_def demo_def the_task_def)
    moreover have "pick_next demo = dequeue 0 demo"
      by (simp add: pick_next_def first_index.simps [of _ 0]) (simp add: demo_def)
    ultimately show ?thesis by simp
  qed
  ultimately show ?thesis by (auto simp: schedule_def)
qed


theorem schedule_choice_witness:
  "\<exists>s' c. schedule demo = Inr s' \<and> TASK s' ! current s' = Some c \<and> state c = TASK_RUNNING"
proof -
  obtain s' where s': "schedule demo = Inr s'" using demo_schedule by blast
  have "queue_head demo ! 0 = [\<lparr>qaddr = 0x80308000, qpid = 1, qtask = 1\<rparr>]" by (simp add: demo_def)
  from schedule_head(1) [OF demo_sinv s' this] have "current s' = 1" by simp
  then show ?thesis using schedule_choice [OF demo_sinv s'] s' by auto
qed

theorem schedule_fifo_witness: "\<exists>s'. schedules 1 demo = Inr s' \<and> current s' = 1"
proof -
  obtain s' where "schedule demo = Inr s'" using demo_schedule by blast
  then have "schedules (Suc 0) demo = Inr s'" by simp
  from schedule_fifo [OF demo_sinv _ this] show ?thesis using \<open>schedule demo = Inr s'\<close> by (simp add: demo_def)
qed
end
