(* ===== verification/Proc.thy ===== *)
theory Proc
  imports Sched
begin

text \<open>
  Process life cycle and system calls: \<^verbatim>\<open>src/kernel/sched/fork.c\<close>, \<^verbatim>\<open>exit.c\<close>, \<^verbatim>\<open>wait.c\<close>,
  \<^verbatim>\<open>src/kernel/sys.c\<close>, \<^verbatim>\<open>signal.c\<close>, \<^verbatim>\<open>system_call.c\<close>, and the timer tick of \<^verbatim>\<open>src/timer/timer.c\<close>
  that drives preemption. Operations that call \<^verbatim>\<open>schedule\<close> return the state in which the next
  task runs; a blocked \<^verbatim>\<open>waitpid\<close> is continued by \<open>waitpid_resume\<close> when its caller is current
  again. All of them together form a transition system whose invariant is proved here.
\<close>

section \<open>fork\<close>

definition find_new_id :: "kstate \<Rightarrow> nat \<times> kstate" where
  "find_new_id s =
     (let s1 = s\<lparr>NEW_PID := NEW_PID s + 1\<rparr>
      in case first_index (\<lambda>i. TASK s ! i = None) 1 MAX_TASK of
           Some i \<Rightarrow> (i, s1\<lparr>NEW_PCBID := i\<rparr>)
         | None \<Rightarrow> (MAX_TASK, s1))"

text \<open>\<^verbatim>\<open>copy_memory\<close>: copy a stack downwards from its top byte, \<open>n\<close> bytes.\<close>

fun copy_down :: "nat \<Rightarrow> u64 \<Rightarrow> u64 \<Rightarrow> (u64 \<Rightarrow> u8) \<Rightarrow> u64 \<Rightarrow> u8" where
  "copy_down 0 new old m = m"
| "copy_down (Suc n) new old m = copy_down n (new - 1) (old - 1) (m(new := m old))"

definition stack_top :: "kstate \<Rightarrow> nat \<Rightarrow> u64" where
  "stack_top s i = task_stack s + of_nat (4096 * i) + 4095"

definition copy_memory :: "u64 \<Rightarrow> nat \<Rightarrow> kstate \<Rightarrow> kstate" where
  "copy_memory sp i s = s\<lparr>stack_mem := copy_down 4096 sp (stack_top s i) (stack_mem s)\<rparr>"

definition child_ctx :: "u64 \<Rightarrow> u64 \<Rightarrow> u64 \<Rightarrow> reg \<Rightarrow> reg" where
  "child_ctx p ctop ptop c =
     c\<lparr>r_sp := ctop - (ptop - r_sp c), r_gp := p, r_s0 := ctop - (ptop - r_s0 c), r_a0 := 0,
       r_epc := r_epc c + 4, r_temp := 0\<rparr>"

definition SIZEOF_TASK :: u32 where "SIZEOF_TASK = 1864"

definition child_task :: "u64 \<Rightarrow> task_struct \<Rightarrow> kstate \<Rightarrow> task_struct" where
  "child_task p c s =
     \<lparr>taddr = p, pid = NEW_PID s, father_pid = pid c, pcb_id = NEW_PCBID s, state = TASK_READY,
      start_time = jiffies s, time = 0, priority = priority c, counter = priority c,
      in_Queue = False, order = 0, signal = 0, sigactions = sigactions c, exit_code = 0,
      cwd = cwd c, ofile = ofile c,
      ctx = child_ctx p (stack_top s (NEW_PCBID s)) (stack_top s (pcb_id c)) (ctx c)\<rparr>"

definition copy_process :: "kstate \<Rightarrow> (int \<times> kstate) res" where
  "copy_process s =
     kbind (the_task s (current s)) (\<lambda>c.
     kbind (kmalloc SIZEOF_TASK (heap s)) (\<lambda>(p, h).
       if p = 0 then Inl (Panic ''something wrong in page alloc,please check'')
       else
         kbind (kput (TASK s) (NEW_PCBID s) (Some (child_task p c s))) (\<lambda>ts.
           Inr (NEW_PID s, copy_memory (stack_top s (NEW_PCBID s)) (pcb_id c) (s\<lparr>heap := h, TASK := ts\<rparr>)))))"

definition sys_fork :: "kstate \<Rightarrow> (int \<times> kstate) res" where
  "sys_fork s =
     (case find_new_id s of (i, s1) \<Rightarrow>
        if i \<ge> MAX_TASK then Inl (Panic ''No free PCB_id to request!'') else copy_process s1)"

section \<open>exit and release\<close>

definition signal_task :: "nat \<Rightarrow> kstate \<Rightarrow> kstate res" where
  "signal_task i s = kbind (the_task s i) (\<lambda>t. Inr (set_task i (t\<lparr>signal := signal t OR SIG_CHLD\<rparr>) s))"

definition tell_father :: "int \<Rightarrow> kstate \<Rightarrow> kstate res" where
  "tell_father p s =
     (case (if p \<noteq> 0 then first_index (\<lambda>i. case TASK s ! i of None \<Rightarrow> False | Some t \<Rightarrow> pid t = p) 1 MAX_TASK
            else None) of
        Some i \<Rightarrow> signal_task i s
      | None \<Rightarrow>
          kbind (the_task s (current s)) (\<lambda>c.
            signal_task 1 (set_task (current s) (c\<lparr>father_pid := 1\<rparr>) s)))"

definition reparent_body :: "int \<Rightarrow> nat \<Rightarrow> task_struct \<Rightarrow> kstate \<Rightarrow> kstate res" where
  "reparent_body p i t s =
     (if father_pid t = p then
        let s1 = set_task i (t\<lparr>father_pid := 1\<rparr>) s
        in if state t = TASK_ZOMBINE then tell_father 1 s1 else Inr s1
      else Inr s)"

text \<open>The argument of \<^verbatim>\<open>do_exit\<close> is not used: the exit code of the task stays what it was.\<close>

definition do_exit :: "int \<Rightarrow> kstate \<Rightarrow> kstate res" where
  "do_exit error_code s =
     kbind (the_task s (current s)) (\<lambda>c.
       if pid c \<noteq> 0 then
         kbind (for_tasks (MAX_TASK - 1) (reparent_body (pid c)) s) (\<lambda>s1.
         kbind (the_task s1 (current s1)) (\<lambda>c1.
         kbind (tell_father (father_pid c1)
                  (set_task (current s1) (c1\<lparr>state := TASK_ZOMBINE, counter := 0, in_Queue := False, order := - 1\<rparr>) s1))
           schedule))
       else Inl (Panic ''Attempted to kill task 0''))"

definition release :: "nat \<Rightarrow> kstate \<Rightarrow> kstate res" where
  "release i s =
     (if 1 \<le> i \<and> i < MAX_TASK then
        kbind (the_task s i) (\<lambda>t. kbind (kfree (taddr t) 0 (heap s)) (\<lambda>h.
          Inr (s\<lparr>TASK := (TASK s)[i := None], heap := h\<rparr>)))
      else Inl (Panic ''error in releasing a task memory''))"

section \<open>waitpid\<close>

definition ECHILD :: int where "ECHILD = 10"

definition EINTR :: int where "EINTR = 4"

datatype scan = Reaped int int kstate | Stopped int | Pending | NoChild

fun waitpid_scan :: "int \<Rightarrow> nat \<Rightarrow> bool \<Rightarrow> kstate \<Rightarrow> scan res" where
  "waitpid_scan p 0 flag s = Inr (if flag then Pending else NoChild)"
| "waitpid_scan p (Suc n) flag s =
     kbind (kget (TASK s) (Suc n)) (\<lambda>t.
     kbind (the_task s (current s)) (\<lambda>c. case t of
       None \<Rightarrow> waitpid_scan p n flag s
     | Some t \<Rightarrow>
         if Suc n = current s \<or> father_pid t \<noteq> pid c \<or> (p > 0 \<and> p \<noteq> pid t) \<or> (p \<le> 0 \<and> p \<noteq> - 1)
         then waitpid_scan p n flag s
         else if state t = TASK_ZOMBINE then
           kbind (release (Suc n) (set_task (current s) (c\<lparr>time := time c + time t\<rparr>) s)) (\<lambda>s'.
             Inr (Reaped (pid t) (exit_code t) s'))
         else if state t = TASK_STOP then Inr (Stopped (pid t))
         else waitpid_scan p n True s))"

datatype wait_result = Returned int "int option" | Blocked

text \<open>
  One pass of \<^verbatim>\<open>sys_waitpid\<close>: return at once, or mark the caller as waiting and give up the
  processor. The value stored through a non-null \<^verbatim>\<open>stat_addr\<close> is the second component.
\<close>

definition sys_waitpid :: "int \<Rightarrow> kstate \<Rightarrow> (wait_result \<times> kstate) res" where
  "sys_waitpid p s =
     kbind (waitpid_scan p (MAX_TASK - 1) False s) (\<lambda>r. case r of
       Reaped q code s' \<Rightarrow> Inr (Returned q (Some code), s')
     | Stopped q \<Rightarrow> Inr (Returned q None, s)
     | NoChild \<Rightarrow> Inr (Returned (- ECHILD) None, s)
     | Pending \<Rightarrow>
         kbind (the_task s (current s)) (\<lambda>c.
         kbind (schedule (set_task (current s) (c\<lparr>state := TASK_WAIT, in_Queue := False\<rparr>) s)) (\<lambda>s'.
           Inr (Blocked, s'))))"

text \<open>The rest of the call, when the caller is current again: \<^verbatim>\<open>goto repeat\<close> or \<^verbatim>\<open>-EINTR\<close>.\<close>

definition waitpid_resume :: "int \<Rightarrow> kstate \<Rightarrow> (wait_result \<times> kstate) res" where
  "waitpid_resume p s =
     kbind (the_task s (current s)) (\<lambda>c.
       let sig = signal c AND NOT SIG_CHLD; s1 = set_task (current s) (c\<lparr>signal := sig\<rparr>) s
       in if sig = 0 then sys_waitpid p s1 else Inr (Returned (- EINTR) None, s1))"

section \<open>Signals on the way out of a system call\<close>

definition SIGCHLD :: nat where "SIGCHLD = 17"

definition SA_ONESHOT :: u32 where "SA_ONESHOT = 0x80000000"

definition do_signal :: "nat \<Rightarrow> kstate \<Rightarrow> kstate res" where
  "do_signal signr s =
     kbind (the_task s (current s)) (\<lambda>c.
       if signr = 0 then Inl OutOfBounds
       else kbind (kget (sigactions c) (signr - 1)) (\<lambda>sa.
         if sa_handler sa = 0 then Inr s
         else
           let after = (\<lambda>s1. kbind (the_task s1 (current s)) (\<lambda>c1.
                 if sa_flags sa AND SA_ONESHOT \<noteq> 0
                 then Inr (set_task (current s) (c1\<lparr>sigactions := (sigactions c1)[signr - 1 := sa\<lparr>sa_handler := 0\<rparr>]\<rparr>) s1)
                 else Inr s1))
           in if sa_handler sa = 1 then (if signr = SIGCHLD then Inr s else kbind (do_exit 0 s) after)
              else after s))"

text \<open>
  \<^verbatim>\<open>ret_from_syscall\<close> clears the lowest pending signal and passes its number on; with no pending
  signal it calls \<^verbatim>\<open>do_signal(0)\<close>, which addresses the entry before the first.
\<close>

fun lowest_signal :: "nat \<Rightarrow> nat \<Rightarrow> u32 \<Rightarrow> u32 \<Rightarrow> nat \<times> u32" where
  "lowest_signal 0 i sig b = (i, sig)"
| "lowest_signal (Suc n) i sig b =
     (if Suc i < 23 then
        if sig AND b \<noteq> 0 then (Suc i, sig AND NOT b) else lowest_signal n (Suc i) sig (push_bit 1 b)
      else (Suc i, sig))"

definition ret_from_syscall :: "kstate \<Rightarrow> kstate res" where
  "ret_from_syscall s =
     kbind (the_task s (current s)) (\<lambda>c.
       if signal c \<noteq> 0 then
         (case lowest_signal 23 0 (signal c) 1 of (i, sig) \<Rightarrow>
            do_signal i (set_task (current s) (c\<lparr>signal := sig\<rparr>) s))
       else do_signal 0 s)"

section \<open>The timer tick\<close>

definition timer_selfadd :: "kstate \<Rightarrow> kstate" where
  "timer_selfadd s = s\<lparr>jiffies := jiffies s + 1\<rparr>"

record timer_list =
  tl_jiffies :: u64
  tl_fn :: nat
  tl_wait :: u64                \<comment> \<open>\<open>_jiffies\<close>\<close>

text \<open>The registered callbacks that are due; \<open>fire\<close> is what a callback does to the state.\<close>

fun run_timers :: "(nat \<Rightarrow> kstate \<Rightarrow> kstate res) \<Rightarrow> timer_list list \<Rightarrow> kstate \<Rightarrow> kstate res" where
  "run_timers fire [] s = Inr s"
| "run_timers fire (p # ps) s =
     kbind (if tl_fn p \<noteq> 0 \<and> tl_jiffies p + tl_wait p \<le> jiffies s then fire (tl_fn p) s else Inr s)
       (run_timers fire ps)"

definition do_timer :: "(nat \<Rightarrow> kstate \<Rightarrow> kstate res) \<Rightarrow> timer_list list \<Rightarrow> kstate \<Rightarrow> kstate res" where
  "do_timer fire timers s =
     kbind (run_timers fire timers s) (\<lambda>s1.
     kbind (the_task s1 (current s1)) (\<lambda>c.
       let c1 = c\<lparr>time := time c + 1\<rparr>; c2 = (if pid c \<noteq> 0 then c1\<lparr>counter := counter c - 1\<rparr> else c1);
           s2 = set_task (current s1) c2 s1
       in if pid c \<noteq> 0 \<and> counter c2 > 0 \<and> (state c = TASK_RUNNING \<or> state c = TASK_READY)
          then Inr (timer_selfadd s2) else schedule s2))"

definition timer_interrupt_handler :: "(nat \<Rightarrow> kstate \<Rightarrow> kstate res) \<Rightarrow> timer_list list \<Rightarrow> kstate \<Rightarrow> kstate res" where
  "timer_interrupt_handler fire timers s = do_timer fire timers (timer_selfadd s)"

section \<open>Identity of tasks\<close>

text \<open>What the scheduler never touches of a task.\<close>

definition ident :: "task_struct \<Rightarrow> int \<times> nat \<times> int" where
  "ident t = (pid t, pcb_id t, exit_code t)"

definition idents :: "kstate \<Rightarrow> (int \<times> nat \<times> int) option list" where
  "idents s = map (map_option ident) (TASK s)"

text \<open>
  A part of the task structure that the scheduler does not touch: any function of it that does not depend on the fields the scheduler sets.
\<close>

definition proj :: "(task_struct \<Rightarrow> 'a) \<Rightarrow> kstate \<Rightarrow> 'a option list" where
  "proj f s = map (map_option f) (TASK s)"

definition sched_blind :: "(task_struct \<Rightarrow> 'a) \<Rightarrow> bool" where
  "sched_blind f \<longleftrightarrow> (\<forall>t x. f (t\<lparr>state := x\<rparr>) = f t) \<and> (\<forall>t x. f (t\<lparr>in_Queue := x\<rparr>) = f t) \<and> (\<forall>t x. f (t\<lparr>order := x\<rparr>) = f t) \<and>
     (\<forall>t x. f (t\<lparr>counter := x\<rparr>) = f t) \<and> (\<forall>t x. f (t\<lparr>signal := x\<rparr>) = f t)"

lemma proj_set_task:
  assumes "TASK s ! i = Some t" and "f t' = f t"
  shows "proj f (set_task i t' s) = proj f s"
proof (cases "i < length (TASK s)")
  case True
  then have "map_option f (TASK s ! i) = proj f s ! i" by (simp add: proj_def)
  then show ?thesis using assms by (simp add: proj_def map_update)
next
  case False
  then show ?thesis by (simp add: proj_def list_update_beyond)
qed

lemma for_tasks_proj:
  assumes "\<And>i t s s'. TASK s ! i = Some t \<Longrightarrow> f i t s = Inr s' \<Longrightarrow> proj g s' = proj g s \<and> NEW_PID s' = NEW_PID s"
    and "for_tasks n f s = Inr s'"
  shows "proj g s' = proj g s \<and> NEW_PID s' = NEW_PID s"
  by (rule for_tasks_inv [of "\<lambda>r. proj g r = proj g s \<and> NEW_PID r = NEW_PID s" n f s s']) (use assms in auto)

lemma NEW_PID_set_task [simp]: "NEW_PID (set_task i t s) = NEW_PID s"
  by (simp add: set_task_def)

lemma proj_simps [simp]:
  "proj f (s\<lparr>heap := h\<rparr>) = proj f s" "proj f (s\<lparr>tail := x\<rparr>) = proj f s" "proj f (s\<lparr>queue_head := y\<rparr>) = proj f s"
  "proj f (s\<lparr>current := n\<rparr>) = proj f s" "proj f (s\<lparr>jiffies := j\<rparr>) = proj f s" "proj f (s\<lparr>stack_mem := m\<rparr>) = proj f s"
  "proj f (s\<lparr>NEW_PID := p\<rparr>) = proj f s" "proj f (s\<lparr>NEW_PCBID := k\<rparr>) = proj f s"
  by (simp_all add: proj_def)

lemma schedule_proj:
  assumes blind: "sched_blind f" and d: "schedule s = Inr s'"
  shows "proj f s' = proj f s \<and> NEW_PID s' = NEW_PID s"
proof -
  note b = blind [unfolded sched_blind_def]
  obtain s1 s2 n s3 where st: "alter_state s = Inr s1" "set_Queue s1 = Inr s2" "pick_next s2 = Inr (n, s3)"
    "s' = s3\<lparr>current := n\<rparr>"
    using schedule_split [OF d] .
  have "proj f s1 = proj f s \<and> NEW_PID s1 = NEW_PID s"
    using st(1) unfolding alter_state_def
    by (rule for_tasks_proj [rotated]) (auto simp: alter_state_body_def b intro!: proj_set_task split: if_splits)
  moreover have "proj f s2 = proj f s1 \<and> NEW_PID s2 = NEW_PID s1"
    using st(2) unfolding set_Queue_def
  proof (rule for_tasks_proj [rotated])
    fix i t r r' assume a: "TASK r ! i = Some t" "set_Queue_body i t r = Inr r'"
    have eq: "TASK r1 = TASK r \<and> NEW_PID r1 = NEW_PID r" if "enqueue ord i p r = Inr r1" for ord p r1
      using that by (auto simp: enqueue_def kbind_eq_Inr split: if_splits prod.splits)
    have "proj f (set_task i (requeued t) r1) = proj f r" if "TASK r1 = TASK r" for r1
      using proj_set_task [of r1 i t f "requeued t"] a(1) that by (simp add: requeued_def b proj_def)
    then show "proj f r' = proj f r \<and> NEW_PID r' = NEW_PID r" using a(2) eq
      by (auto simp: set_Queue_body_def remove_task_def Let_def kbind_eq_Inr split: if_splits)
  qed
  moreover have "proj f s3 = proj f s2 \<and> NEW_PID s3 = NEW_PID s2"
  proof -
    have "TASK (s2\<lparr>heap := h, queue_head := y\<rparr>) = TASK s2" for h y by simp
    then show ?thesis using st(3)
      by (auto simp: pick_next_def dequeue_def the_task_def kbind_eq_Inr proj_set_task b
          split: option.splits list.splits)
  qed
  ultimately show ?thesis by (simp add: st(4))
qed

text \<open>The identity of the tasks is such a part, and so are their saved registers.\<close>

lemma idents_proj: "idents = proj ident"
  by (simp add: fun_eq_iff idents_def proj_def)

lemma blind_ident: "sched_blind ident"
  by (simp add: sched_blind_def ident_def)

lemma blind_ctx: "sched_blind ctx"
  by (simp add: sched_blind_def)

lemmas idents_set_task = proj_set_task [of _ _ _ ident, folded idents_proj]

lemmas for_tasks_idents = for_tasks_proj [of _ ident, folded idents_proj]

lemmas idents_simps [simp] = proj_simps [of ident, folded idents_proj]

lemmas schedule_idents = schedule_proj [OF blind_ident, folded idents_proj]

section \<open>The system invariant\<close>

definition ids_ok :: "(int \<times> nat \<times> int) option list \<Rightarrow> int \<Rightarrow> bool" where
  "ids_ok ms n \<longleftrightarrow> 0 \<le> n \<and>
     (\<forall>i<length ms. \<forall>p c e. ms ! i = Some (p, c, e) \<longrightarrow> c = i \<and> 0 \<le> p \<and> p \<le> n \<and> e = 0 \<and> (p = 0 \<longleftrightarrow> i = 0)) \<and>
     (\<forall>i<length ms. \<forall>j<length ms. \<forall>p c e c' e'.
        ms ! i = Some (p, c, e) \<longrightarrow> ms ! j = Some (p, c', e') \<longrightarrow> i = j)"

definition pinv :: "kstate \<Rightarrow> bool" where
  "pinv s \<longleftrightarrow> sinv s \<and> ids_ok (idents s) (NEW_PID s)"

lemma idents_nth: "i < length (TASK s) \<Longrightarrow> idents s ! i = map_option ident (TASK s ! i)"
  by (simp add: idents_def)

lemma length_idents [simp]: "length (idents s) = length (TASK s)"
  by (simp add: idents_def)

lemma pinv_task:
  assumes "pinv s" and "i < 64" and "TASK s ! i = Some t"
  shows "pcb_id t = i" and "0 \<le> pid t" and "pid t \<le> NEW_PID s" and "exit_code t = 0" and "pid t = 0 \<longleftrightarrow> i = 0"
proof -
  have "length (TASK s) = 64" using assms(1) by (simp add: pinv_def sinv_def table_ok_def)
  then have "idents s ! i = Some (pid t, pcb_id t, exit_code t)" "i < length (idents s)"
    using assms(2,3) by (simp_all add: idents_nth ident_def)
  then show "pcb_id t = i" "0 \<le> pid t" "pid t \<le> NEW_PID s" "exit_code t = 0" "pid t = 0 \<longleftrightarrow> i = 0"
    using assms(1) unfolding pinv_def ids_ok_def by blast+
qed

lemma sinv_current:
  assumes "sinv s"
  obtains c where "the_task s (current s) = Inr c" and "TASK s ! current s = Some c" and "current s < 64"
    and "0 < current s \<longrightarrow> \<not> in_Queue c \<and> state c = TASK_RUNNING" and "length (TASK s) = 64"
  using assms by (auto simp: sinv_def table_ok_def the_task_def)

lemma table_set_slot0:
  assumes "table_ok s" and "TASK s ! 0 = Some t"
  shows "table_ok (set_task 0 t' s)"
proof -
  have q: "queues_ok s" using assms by (simp add: table_ok_def)
  then have "queued_ok (set_task 0 t' s) k x" if "k < 5" "x \<in> set (queue_head s ! k)" for k x
    using queues_okD(3) [OF q that] by (auto simp: queued_ok_def)
  then have "queues_ok (set_task 0 t' s)" using q by (simp add: queues_ok_def)
  moreover have "length (TASK s) = 64" using assms(1) by (simp add: table_ok_def)
  ultimately show ?thesis using assms(1) by (auto simp: table_ok_def task_ok_def)
qed

text \<open>A change of the current task that leaves it out of the queues keeps the table sound.\<close>

lemma table_set_current:
  assumes "sinv s" and "TASK s ! current s = Some c" and "\<not> in_Queue c' \<or> in_Queue c' = in_Queue c"
    and "state c' \<in> {TASK_READY, TASK_RUNNING, TASK_WAIT} \<longrightarrow> order c' \<le> 4 \<or> current s = 0"
  shows "table_ok (set_task (current s) c' s)"
proof (cases "current s = 0")
  case True
  then show ?thesis using table_set_slot0 assms(1,2) by (simp add: sinv_def)
next
  case False
  then have "\<not> in_Queue c" "current s < 64" using assms(1,2) by (auto simp: sinv_def)
  then show ?thesis using assms False by (intro task_ok_update [where t = c]) (auto simp: sinv_def)
qed

lemma current_order:
  assumes "sinv s" and "TASK s ! current s = Some c" and "state c \<in> {TASK_READY, TASK_RUNNING, TASK_WAIT}"
  shows "order c \<le> 4 \<or> current s = 0"
proof -
  have "task_ok s (current s)" if "0 < current s" using assms(1) that by (simp add: sinv_def table_ok_def)
  then show ?thesis using assms(2,3) by (auto simp: task_ok_def)
qed

section \<open>fork\<close>

lemma table_add_task:
  assumes "table_ok s" and "0 < i" and "i < 64" and "TASK s ! i = None" and "\<not> in_Queue t" and "order t \<le> 4"
  shows "table_ok (set_task i t s)"
proof -
  have q: "queues_ok s" and len: "length (TASK s) = 64" using assms(1) by (simp_all add: table_ok_def)
  have "queued_ok (set_task i t s) k x" if "k < 5" "x \<in> set (queue_head s ! k)" for k x
    using queues_okD(3) [OF q that] assms(4) by (cases "qtask x = i") (auto simp: queued_ok_def)
  then have "queues_ok (set_task i t s)" using q by (simp add: queues_ok_def)
  moreover have "task_ok (set_task i t s) j" if "0 < j" "j < 64" for j
    using that assms(1,5,6) len by (cases "j = i") (auto simp: task_ok_def table_ok_def)
  ultimately show ?thesis using assms(1,2) by (simp add: table_ok_def)
qed

lemma copy_down_frame: "(\<forall>j<n. a \<noteq> new - of_nat j) \<Longrightarrow> copy_down n new old m a = m a"
proof (induction n arbitrary: new old m)
  case (Suc n)
  have shift: "new - 1 - of_nat j = new - of_nat (Suc j)" for j by simp
  have "a \<noteq> new - 1 - of_nat j" if "j < n" for j
    unfolding shift using that by (intro Suc.prems [rule_format]) simp
  moreover have "a \<noteq> new" using Suc.prems [rule_format, of 0] by simp
  ultimately show ?case using Suc.IH by simp
qed simp

lemma copy_down_copies:
  assumes "n < 2 ^ 64" and "\<forall>k<n. \<forall>j<n. old - of_nat k \<noteq> new - of_nat j" and "k < n"
  shows "copy_down n new old m (new - of_nat k) = m (old - of_nat k)"
  using assms
proof (induction n arbitrary: new old m k)
  case (Suc n)
  have shift: "x - 1 - of_nat j = x - of_nat (Suc j)" for x :: u64 and j by simp
  show ?case
  proof (cases k)
    case 0
    have "new \<noteq> new - 1 - of_nat j" if "j < n" for j
    proof
      assume "new = new - 1 - of_nat j"
      then have "of_nat (Suc j) = (0 :: u64)" unfolding shift by (simp add: eq_diff_eq del: of_nat_Suc)
      then have "unat (of_nat (Suc j) :: u64) = 0" by simp
      moreover have "unat (of_nat (Suc j) :: u64) = Suc j"
        unfolding unat_of_nat using that Suc.prems(1) by simp
      ultimately show False by simp
    qed
    then show ?thesis using 0 copy_down_frame [of n new "new - 1"] by simp
  next
    case (Suc k')
    have "\<forall>k<n. \<forall>j<n. old - 1 - of_nat k \<noteq> new - 1 - of_nat j"
      unfolding shift using Suc.prems(2) by simp
    then have "copy_down n (new - 1) (old - 1) (m(new := m old)) (new - 1 - of_nat k') = (m(new := m old)) (old - 1 - of_nat k')"
      using Suc.IH Suc.prems(1,3) Suc by simp
    moreover have "old - 1 - of_nat k' \<noteq> new"
      unfolding shift using Suc.prems(2) [rule_format, of "Suc k'" 0] Suc.prems(3) Suc by (simp del: of_nat_Suc)
    ultimately show ?thesis using Suc by (simp add: shift del: of_nat_Suc)
  qed
qed simp

lemma sys_fork_eq:
  assumes "sinv s" and "sys_fork s = Inr (p, s')"
  obtains i c addr h where "1 \<le> i" and "i < 64" and "TASK s ! i = None" and "TASK s ! current s = Some c"
    and "p = NEW_PID s + 1"
    and "s' = copy_memory (stack_top s i) (pcb_id c)
          (set_task i (child_task addr c (s\<lparr>NEW_PID := p, NEW_PCBID := i\<rparr>)) (s\<lparr>NEW_PID := p, NEW_PCBID := i, heap := h\<rparr>))"
proof -
  obtain c where c: "the_task s (current s) = Inr c" "TASK s ! current s = Some c" "length (TASK s) = 64"
    using sinv_current [OF assms(1)] by blast
  obtain i where i: "first_index (\<lambda>i. TASK s ! i = None) 1 64 = Some i"
    using assms(2) by (auto simp: sys_fork_def find_new_id_def Let_def MAX_TASK_def split: option.splits)
  have r: "1 \<le> i" "i < 64" "TASK s ! i = None" using first_index_Some [OF i] by auto
  have cp: "copy_process (s\<lparr>NEW_PID := NEW_PID s + 1, NEW_PCBID := i\<rparr>) = Inr (p, s')"
    using assms(2) i r(2) by (simp add: sys_fork_def find_new_id_def Let_def MAX_TASK_def)
  have st: "stack_top (s\<lparr>NEW_PID := x, NEW_PCBID := y\<rparr>) = stack_top s" for x y
    by (simp add: stack_top_def fun_eq_iff)
  show ?thesis using cp c r that
    by (auto simp: copy_process_def the_task_def kbind_eq_Inr set_task_def st split: if_splits prod.splits)
qed

lemma copy_memory_simps [simp]:
  "TASK (copy_memory sp i s) = TASK s" "current (copy_memory sp i s) = current s"
  "NEW_PID (copy_memory sp i s) = NEW_PID s" "table_ok (copy_memory sp i s) = table_ok s"
  by (simp_all add: copy_memory_def table_ok_def queues_ok_def queued_ok_def task_ok_def)

lemma table_ok_simps [simp]:
  "table_ok (s\<lparr>NEW_PID := x\<rparr>) = table_ok s" "table_ok (s\<lparr>NEW_PCBID := y\<rparr>) = table_ok s"
  "table_ok (s\<lparr>heap := h\<rparr>) = table_ok s" "table_ok (s\<lparr>jiffies := j\<rparr>) = table_ok s"
  by (simp_all add: table_ok_def queues_ok_def queued_ok_def task_ok_def)

lemma ids_ok_add:
  assumes "ids_ok ms n" and "0 < i" and "i < length ms"
  shows "ids_ok (ms[i := Some (n + 1, i, 0)]) (n + 1)"
proof -
  have n: "0 \<le> n" using assms(1) by (simp add: ids_ok_def)
  have old: "c = j \<and> 0 \<le> p \<and> p \<le> n \<and> e = 0 \<and> (p = 0 \<longleftrightarrow> j = 0)"
    if "j < length ms" "ms ! j = Some (p, c, e)" for j p c e
    using assms(1) that unfolding ids_ok_def by blast
  have uniq: "j = k" if "j < length ms" "k < length ms" "ms ! j = Some (p, c, e)" "ms ! k = Some (p, c', e')" for j k p c e c' e'
    using assms(1) that unfolding ids_ok_def by blast
  have fresh: "ms ! j \<noteq> Some (n + 1, c, e)" if "j < length ms" for j c e
    using old [OF that, of "n + 1" c e] by auto
  show ?thesis unfolding ids_ok_def length_list_update
  proof (intro conjI allI impI)
    show "0 \<le> n + 1" using n by simp
  next
    fix j p c e assume "j < length ms" "ms[i := Some (n + 1, i, 0)] ! j = Some (p, c, e)"
    then show "c = j" "0 \<le> p" "p \<le> n + 1" "e = 0" "p = 0 \<longleftrightarrow> j = 0"
      using old [of j p c e] n assms(2) by (cases "j = i"; force)+
  next
    fix j k p c e c' e' assume "j < length ms" "k < length ms"
      "ms[i := Some (n + 1, i, 0)] ! j = Some (p, c, e)" "ms[i := Some (n + 1, i, 0)] ! k = Some (p, c', e')"
    then show "j = k" using uniq [of j k p c e c' e'] fresh [of j c e] fresh [of k c' e']
      by (cases "j = i"; cases "k = i") auto
  qed
qed

lemma sys_fork_pinv:
  assumes "pinv s" and "sys_fork s = Inr (p, s')"
  shows "pinv s'"
proof -
  have sv: "sinv s" using assms(1) by (simp add: pinv_def)
  obtain i c addr h where i: "1 \<le> i" "i < 64" "TASK s ! i = None" and c: "TASK s ! current s = Some c"
    and p: "p = NEW_PID s + 1"
    and s': "s' = copy_memory (stack_top s i) (pcb_id c)
          (set_task i (child_task addr c (s\<lparr>NEW_PID := p, NEW_PCBID := i\<rparr>)) (s\<lparr>NEW_PID := p, NEW_PCBID := i, heap := h\<rparr>))"
    using sys_fork_eq [OF sv assms(2)] .
  have len: "length (TASK s) = 64" using sv by (simp add: sinv_def table_ok_def)
  let ?t = "child_task addr c (s\<lparr>NEW_PID := p, NEW_PCBID := i\<rparr>)"
  have "table_ok (set_task i ?t (s\<lparr>NEW_PID := p, NEW_PCBID := i, heap := h\<rparr>))"
    using sv i by (intro table_add_task) (simp_all add: sinv_def child_task_def)
  moreover have "i \<noteq> current s" using i(3) c by auto
  ultimately have "sinv s'" using sv by (simp add: s' sinv_def)
  moreover have ids: "idents s' = (idents s)[i := Some (p, i, 0)]"
    by (simp add: s' idents_def map_update child_task_def ident_def)
  moreover have "ids_ok ((idents s)[i := Some (p, i, 0)]) p"
    unfolding p by (rule ids_ok_add) (use assms(1) i len in \<open>simp_all add: pinv_def\<close>)
  ultimately show ?thesis by (simp add: pinv_def s')
qed

lemma stack_addr:
  assumes "unat (task_stack s) + 64 * 4096 \<le> 2 ^ 64" and "j < 64" and "k < 4096"
  shows "unat (stack_top s j - of_nat k) = unat (task_stack s) + 4096 * j + 4095 - k"
proof -
  let ?x = "of_nat (4096 * j + 4095 - k) :: u64"
  have e: "stack_top s j - of_nat k = task_stack s + ?x"
    using assms(3) by (simp add: stack_top_def of_nat_diff)
  have u: "unat ?x = 4096 * j + 4095 - k"
    unfolding unat_of_nat using assms(2) by simp
  have "unat (task_stack s) + unat ?x < 2 ^ LENGTH(64)" unfolding u using assms by simp
  then have "unat (task_stack s + ?x) = unat (task_stack s) + unat ?x" by (simp only: unat_add_lem)
  then show ?thesis unfolding e u using assms(3) by simp
qed

lemma fork_facts:
  assumes inv: "pinv s" and f: "sys_fork s = Inr (p, s')"
    and stk: "unat (task_stack s) + 64 * 4096 \<le> 2 ^ 64" and c: "TASK s ! current s = Some c"
  shows "pinv s' \<and> p = NEW_PID s + 1 \<and> (\<exists>i t. 1 \<le> i \<and> i < 64 \<and> TASK s ! i = None \<and> TASK s' ! i = Some t \<and>
    (\<forall>j. j \<noteq> i \<longrightarrow> TASK s' ! j = TASK s ! j) \<and>
    pid t = p \<and> (\<forall>j<64. \<forall>u. TASK s ! j = Some u \<longrightarrow> pid u \<noteq> p) \<and> father_pid t = pid c \<and> state t = TASK_READY \<and>
    ctx t = (ctx c)\<lparr>r_sp := r_sp (ctx t), r_gp := taddr t, r_s0 := r_s0 (ctx t), r_a0 := 0,
                   r_epc := r_epc (ctx c) + 4, r_temp := 0\<rparr> \<and>
    stack_top s i - r_sp (ctx t) = stack_top s (current s) - r_sp (ctx c) \<and>
    (\<forall>k<4096. stack_mem s' (stack_top s i - of_nat k) = stack_mem s (stack_top s (current s) - of_nat k)))"
proof -
  have sv: "sinv s" using inv by (simp add: pinv_def)
  obtain i c0 addr h where i: "1 \<le> i" "i < 64" "TASK s ! i = None" and c0: "TASK s ! current s = Some c0"
    and p: "p = NEW_PID s + 1"
    and s': "s' = copy_memory (stack_top s i) (pcb_id c0)
          (set_task i (child_task addr c0 (s\<lparr>NEW_PID := p, NEW_PCBID := i\<rparr>)) (s\<lparr>NEW_PID := p, NEW_PCBID := i, heap := h\<rparr>))"
    using sys_fork_eq [OF sv f] .
  have cc: "c0 = c" using c c0 by simp
  have len: "length (TASK s) = 64" and cur: "current s < 64" using sv by (simp_all add: sinv_def table_ok_def)
  have pc: "pcb_id c = current s" using pinv_task(1) [OF inv cur c] .
  have ne: "i \<noteq> current s" using i(3) c by auto
  let ?t = "child_task addr c (s\<lparr>NEW_PID := p, NEW_PCBID := i\<rparr>)"
  have st: "stack_top (s\<lparr>NEW_PID := x, NEW_PCBID := y\<rparr>) = stack_top s" for x y by (simp add: stack_top_def fun_eq_iff)
  have addr: "unat (stack_top s j - of_nat k) = unat (task_stack s) + 4096 * j + 4095 - k" if "j < 64" "k < 4096" for j k
    using stk that by (rule stack_addr)
  have disj: "stack_top s (current s) - of_nat k \<noteq> stack_top s i - of_nat j" if "k < 4096" "j < 4096" for k j
  proof
    assume "stack_top s (current s) - of_nat k = stack_top s i - of_nat j"
    then have "4096 * current s + 4095 - k = 4096 * i + 4095 - j"
      using addr [OF cur that(1)] addr [OF i(2) that(2)] that by simp
    then have "current s = i" using that by simp
    then show False using ne by simp
  qed
  have mem: "stack_mem s' (stack_top s i - of_nat k) = stack_mem s (stack_top s (current s) - of_nat k)" if "k < 4096" for k
    using copy_down_copies [of 4096 "stack_top s (current s)" "stack_top s i" k "stack_mem s"] disj that
    by (simp add: s' copy_memory_def cc pc set_task_def stack_top_def)
  have "pid u \<noteq> p" if "j < 64" "TASK s ! j = Some u" for j u
    using pinv_task(3) [OF inv that] p by simp
  moreover have "TASK s' ! i = Some ?t" using i len by (simp add: s' cc)
  moreover have "TASK s' ! j = TASK s ! j" if "j \<noteq> i" for j using that by (simp add: s')
  moreover have "ctx ?t = (ctx c)\<lparr>r_sp := r_sp (ctx ?t), r_gp := taddr ?t, r_s0 := r_s0 (ctx ?t), r_a0 := 0,
                   r_epc := r_epc (ctx c) + 4, r_temp := 0\<rparr>"
    and "stack_top s i - r_sp (ctx ?t) = stack_top s (current s) - r_sp (ctx c)"
    and "pid ?t = p" "father_pid ?t = pid c" "state ?t = TASK_READY"
    by (simp_all add: child_task_def child_ctx_def st pc)
  ultimately show ?thesis using sys_fork_pinv [OF inv f] p i mem by blast
qed


section \<open>Changes that do not concern the scheduler\<close>

definition view :: "task_struct \<Rightarrow> bool \<times> tstate \<times> u8 \<times> int \<times> nat \<times> int" where
  "view t = (in_Queue t, state t, order t, pid t, pcb_id t, exit_code t)"

definition keeps :: "kstate \<Rightarrow> kstate \<Rightarrow> bool" where
  "keeps s s' \<longleftrightarrow> map (map_option view) (TASK s') = map (map_option view) (TASK s) \<and>
     queue_head s' = queue_head s \<and> tail s' = tail s \<and> current s' = current s \<and> NEW_PID s' = NEW_PID s"

lemma keeps_refl [simp]: "keeps s s"
  by (simp add: keeps_def)

lemma keeps_trans: "keeps s s1 \<Longrightarrow> keeps s1 s2 \<Longrightarrow> keeps s s2"
  by (simp add: keeps_def)

lemma keeps_length: "keeps s s' \<Longrightarrow> length (TASK s') = length (TASK s)"
  by (metis keeps_def length_map)

lemma keeps_nth:
  assumes "keeps s s'" and "i < length (TASK s)"
  shows "map_option view (TASK s' ! i) = map_option view (TASK s ! i)"
proof -
  have "map (map_option view) (TASK s') ! i = map (map_option view) (TASK s) ! i"
    using assms(1) by (simp add: keeps_def)
  then show ?thesis using assms(2) keeps_length [OF assms(1)] by simp
qed

lemma keeps_set_task:
  assumes "TASK s ! i = Some t" and "view t' = view t"
  shows "keeps s (set_task i t' s)"
proof (cases "i < length (TASK s)")
  case True
  then have "(map (map_option view) (TASK s))[i := Some (view t')] = map (map_option view) (TASK s)"
    using assms by (metis list_update_id nth_map option.map(2))
  then show ?thesis by (simp add: keeps_def map_update set_task_def)
next
  case False
  then show ?thesis by (simp add: keeps_def set_task_def list_update_beyond)
qed

lemma keeps_table:
  assumes k: "keeps s s'" and t: "table_ok s"
  shows "table_ok s'"
proof -
  have len: "length (TASK s) = 64" "length (TASK s') = 64" using t keeps_length [OF k] by (simp_all add: table_ok_def)
  have qs: "queue_head s' = queue_head s" "tail s' = tail s" using k by (simp_all add: keeps_def)
  have v: "\<exists>u. TASK s ! i = Some u \<and> view u = view t'" if "i < 64" "TASK s' ! i = Some t'" for i t'
    using keeps_nth [OF k, of i] that len by (cases "TASK s ! i") auto
  have v': "\<exists>u. TASK s' ! i = Some u \<and> view u = view t'" if "i < 64" "TASK s ! i = Some t'" for i t'
    using keeps_nth [OF k, of i] that len by (cases "TASK s' ! i") auto
  have q: "queues_ok s" using t by (simp add: table_ok_def)
  have "queued_ok s' j x" if jx: "j < 5" "x \<in> set (queue_head s ! j)" for j x
  proof -
    obtain u where u: "TASK s ! qtask x = Some u" "in_Queue u" "state u = TASK_READY" "pid u = qpid x"
      "unat (order u) = j" "0 < qtask x" "qtask x < 64"
      using queues_okD(3) [OF q jx] by (rule queued_okE)
    then show ?thesis using v' [OF u(7,1)] by (auto simp: queued_ok_def view_def)
  qed
  then have "queues_ok s'" using q qs by (simp add: queues_ok_def)
  moreover have "task_ok s' i" if i: "0 < i" "i < 64" for i
  proof -
    have "task_ok s i" using t i by (simp add: table_ok_def)
    then show ?thesis using v [OF i(2)] qs by (auto simp: task_ok_def view_def)
  qed
  moreover have "TASK s' ! 0 \<noteq> None" using t v' [of 0] by (auto simp: table_ok_def)
  ultimately show ?thesis using len by (simp add: table_ok_def)
qed

lemma keeps_idents: "keeps s s' \<Longrightarrow> idents s' = idents s"
proof -
  assume k: "keeps s s'"
  have i: "idents r = map (map_option (\<lambda>(q, st, ord, x). x)) (map (map_option view) (TASK r))" for r
    by (simp add: idents_def view_def ident_def [abs_def] option.map_comp comp_def)
  have "map (map_option view) (TASK s') = map (map_option view) (TASK s)" using k by (simp add: keeps_def)
  then show ?thesis unfolding i by (simp only:)
qed

lemma keeps_for_tasks:
  assumes "\<And>i t s s'. TASK s ! i = Some t \<Longrightarrow> f i t s = Inr s' \<Longrightarrow> keeps s s'" and "for_tasks n f s = Inr s'"
  shows "keeps s s'"
  by (rule for_tasks_inv [of "keeps s" n f s s']) (use assms in \<open>auto intro: keeps_trans\<close>)

lemma signal_task_keeps: "signal_task i s = Inr s' \<Longrightarrow> keeps s s'"
  by (auto simp: signal_task_def the_task_def kbind_eq_Inr view_def intro!: keeps_set_task split: option.splits)

lemma tell_father_keeps:
  assumes "tell_father p s = Inr s'"
  shows "keeps s s'"
proof -
  have "keeps s (set_task i (c\<lparr>father_pid := 1\<rparr>) s)" if "TASK s ! i = Some c" for i c
    using that by (rule keeps_set_task) (simp add: view_def)
  then show ?thesis using assms
    by (auto simp: tell_father_def the_task_def kbind_eq_Inr split: option.splits if_splits
        dest!: signal_task_keeps intro: keeps_trans)
qed

lemma reparent_keeps:
  assumes "TASK s ! i = Some t" and "reparent_body p i t s = Inr s'"
  shows "keeps s s'"
proof -
  have "keeps s (set_task i (t\<lparr>father_pid := 1\<rparr>) s)"
    using assms(1) by (rule keeps_set_task) (simp add: view_def)
  then show ?thesis using assms(2)
    by (auto simp: reparent_body_def Let_def split: if_splits dest!: tell_father_keeps intro: keeps_trans)
qed

lemma keeps_sinv:
  assumes "keeps s s'" and "sinv s"
  shows "sinv s'"
proof -
  have t: "table_ok s'" using keeps_table assms by (simp add: sinv_def)
  have cur: "current s' = current s" using assms(1) by (simp add: keeps_def)
  obtain c where c: "TASK s ! current s = Some c" "current s < 64"
    "0 < current s \<longrightarrow> \<not> in_Queue c \<and> state c = TASK_RUNNING" "length (TASK s) = 64"
    by (rule sinv_current [OF assms(2)])
  have "map_option view (TASK s' ! current s) = Some (view c)"
    using keeps_nth [OF assms(1), of "current s"] c(1,2,4) by simp
  then obtain c' where c': "TASK s' ! current s = Some c'" "view c' = view c" by auto
  have "in_Queue c' = in_Queue c" "state c' = state c" using c'(2) by (simp_all add: view_def)
  then show ?thesis unfolding sinv_def cur using t c(2,3) c'(1) by simp
qed

lemma keeps_pinv: "keeps s s' \<Longrightarrow> pinv s \<Longrightarrow> pinv s'"
  using keeps_sinv [of s s'] keeps_idents [of s s'] unfolding pinv_def keeps_def by metis

section \<open>exit\<close>

lemma for_tasks_idx:
  assumes "I n s" and "for_tasks n f s = Inr s'"
    and "\<And>i r. i < n \<Longrightarrow> I (Suc i) r \<Longrightarrow> TASK r ! Suc i = None \<Longrightarrow> I i r"
    and "\<And>i t r r'. i < n \<Longrightarrow> I (Suc i) r \<Longrightarrow> TASK r ! Suc i = Some t \<Longrightarrow> f (Suc i) t r = Inr r' \<Longrightarrow> I i r'"
  shows "I 0 s'"
  using assms
proof (induction n arbitrary: s)
  case 0
  then show ?case by simp
next
  case (Suc n)
  then obtain s1 where s1: "(case TASK s ! Suc n of None \<Rightarrow> Inr s | Some t \<Rightarrow> f (Suc n) t s) = Inr s1"
    and s': "for_tasks n f s1 = Inr s'"
    by (auto simp: kbind_eq_Inr)
  have "I n s1" using s1 Suc.prems(1,3,4) by (cases "TASK s ! Suc n") auto
  then show ?case by (rule Suc.IH [OF _ s']) (use Suc.prems(3,4) in auto)
qed

lemma for_tasks_rel:
  assumes "for_tasks n f s = Inr s'" and "R None None" and "length (TASK s) = 64" and "n < 64"
    and "\<And>i t r r'. 0 < i \<Longrightarrow> i < 64 \<Longrightarrow> length (TASK r) = 64 \<Longrightarrow> TASK r ! i = Some t \<Longrightarrow> f i t r = Inr r' \<Longrightarrow>
      R (Some t) (TASK r' ! i) \<and> (\<forall>j. j \<noteq> i \<longrightarrow> TASK r' ! j = TASK r ! j) \<and> length (TASK r') = 64"
    and "0 < i" and "i \<le> n"
  shows "R (TASK s ! i) (TASK s' ! i)"
proof -
  let ?I = "\<lambda>k r. length (TASK r) = 64 \<and> (\<forall>j. 0 < j \<longrightarrow> j \<le> k \<longrightarrow> TASK r ! j = TASK s ! j) \<and>
    (\<forall>j. k < j \<longrightarrow> j \<le> n \<longrightarrow> R (TASK s ! j) (TASK r ! j))"
  have "?I 0 s'"
  proof (rule for_tasks_idx [of ?I n s f])
    fix i r assume "i < n" "?I (Suc i) r" "TASK r ! Suc i = None"
    then show "?I i r" using assms(2) by (metis Suc_leI le_SucI le_neq_implies_less lessI zero_less_Suc)
  next
    fix i t r r' assume i: "i < n" and I: "?I (Suc i) r" and t: "TASK r ! Suc i = Some t" and f: "f (Suc i) t r = Inr r'"
    have "R (Some t) (TASK r' ! Suc i)" and fr: "\<forall>j. j \<noteq> Suc i \<longrightarrow> TASK r' ! j = TASK r ! j" and l: "length (TASK r') = 64"
      using assms(5) [of "Suc i" r t r'] I t f i assms(4) by auto
    moreover have "TASK s ! Suc i = Some t" using I t by simp
    ultimately have "R (TASK s ! j) (TASK r' ! j)" if "i < j" "j \<le> n" for j
      using I that by (cases "j = Suc i") auto
    then show "?I i r'" using I fr l by auto
  qed (use assms(1,3) in auto)
  then show ?thesis using assms(6,7) by blast
qed

lemma pid_unique:
  assumes "ids_ok (idents s) n" and "i < length (TASK s)" and "j < length (TASK s)"
    and "TASK s ! i = Some t" and "TASK s ! j = Some u" and "pid t = pid u"
  shows "i = j"
proof -
  have "idents s ! i = Some (pid t, pcb_id t, exit_code t)" "idents s ! j = Some (pid t, pcb_id u, exit_code u)"
    using assms by (simp_all add: idents_nth ident_def)
  then show ?thesis using assms(1-3) unfolding ids_ok_def length_idents by blast
qed

lemma tell_father_eq:
  assumes "ids_ok (idents s) n" and "length (TASK s) = 64" and "1 \<le> j" and "j < 64" and "TASK s ! j = Some f"
    and "pid f = p" and "p \<noteq> 0"
  shows "tell_father p s = Inr (set_task j (f\<lparr>signal := signal f OR SIG_CHLD\<rparr>) s)"
proof -
  let ?P = "\<lambda>i. case TASK s ! i of None \<Rightarrow> False | Some t \<Rightarrow> pid t = p"
  obtain i where i: "first_index ?P 1 MAX_TASK = Some i"
    using first_index_None [of ?P 1 MAX_TASK] assms(3-6) by (cases "first_index ?P 1 MAX_TASK") (auto simp: MAX_TASK_def)
  then have "i < 64" "?P i" using first_index_Some [OF i] by (auto simp: MAX_TASK_def)
  then obtain t where "TASK s ! i = Some t" "pid t = p" by (auto split: option.splits)
  then have "i = j" using pid_unique [OF assms(1), of i j t f] assms(2,4-6) \<open>i < 64\<close> by simp
  then show ?thesis using i assms by (simp add: tell_father_def signal_task_def the_task_def)
qed

text \<open>The loop of \<^verbatim>\<open>do_exit\<close>: every child gets process 1 as father.\<close>

definition new_father :: "int \<Rightarrow> nat \<Rightarrow> nat \<Rightarrow> task_struct \<Rightarrow> int" where
  "new_father p k i t = (if k < i \<and> father_pid t = p then 1 else father_pid t)"

definition reparented :: "kstate \<Rightarrow> int \<Rightarrow> nat \<Rightarrow> kstate \<Rightarrow> bool" where
  "reparented s p k r \<longleftrightarrow> keeps s r \<and> (\<forall>i<64. \<forall>t. TASK s ! i = Some t \<longrightarrow>
     (\<exists>g. TASK r ! i = Some (t\<lparr>signal := g, father_pid := new_father p k i t\<rparr>)))"

lemma reparentedD:
  "reparented s p k r \<Longrightarrow> i < 64 \<Longrightarrow> TASK s ! i = Some t \<Longrightarrow>
   \<exists>g. TASK r ! i = Some (t\<lparr>signal := g, father_pid := new_father p k i t\<rparr>)"
  by (simp add: reparented_def)

lemma reparented_signal:
  assumes "reparented s p k r" and "TASK r ! j = Some f"
  shows "reparented s p k (set_task j (f\<lparr>signal := x\<rparr>) r)"
proof -
  have "keeps r (set_task j (f\<lparr>signal := x\<rparr>) r)" using assms(2) by (rule keeps_set_task) (simp add: view_def)
  moreover have "\<exists>g. TASK (set_task j (f\<lparr>signal := x\<rparr>) r) ! i = Some (t\<lparr>signal := g, father_pid := new_father p k i t\<rparr>)"
    if i: "i < 64" "TASK s ! i = Some t" for i t
  proof -
    obtain g where g: "TASK r ! i = Some (t\<lparr>signal := g, father_pid := new_father p k i t\<rparr>)"
      using assms(1) i by (auto simp: reparented_def)
    show ?thesis
    proof (cases "i = j \<and> j < length (TASK r)")
      case True
      then show ?thesis using g assms(2) by (intro exI [of _ x]) simp
    next
      case False
      then show ?thesis using g by (intro exI [of _ g]) (auto simp: list_update_beyond)
    qed
  qed
  ultimately show ?thesis using assms(1) by (auto simp: reparented_def intro: keeps_trans)
qed

lemma reparent_loop:
  assumes inv: "pinv s" and init: "j < 64" "TASK s ! j = Some t1" "pid t1 = 1"
    and l: "for_tasks 63 (reparent_body p) s = Inr s1"
  shows "reparented s p 0 s1"
proof -
  have len: "length (TASK s) = 64" and ids: "ids_ok (idents s) (NEW_PID s)"
    using inv by (simp_all add: pinv_def sinv_def table_ok_def)
  have j1: "1 \<le> j" using pinv_task(5) [OF inv init(1,2)] init(3) by (cases j) auto
  show ?thesis
  proof (rule for_tasks_idx [of "reparented s p" 63 s _ s1])
    have "\<exists>g. t = t\<lparr>signal := g\<rparr>" for t :: task_struct by (rule exI [of _ "signal t"]) simp
    then show "reparented s p 63 s" by (auto simp: reparented_def new_father_def)
  next
    fix i r assume I: "i < 63" "reparented s p (Suc i) r" "TASK r ! Suc i = None"
    have "map_option view (TASK r ! Suc i) = map_option view (TASK s ! Suc i)"
      using I(1,2) len by (intro keeps_nth) (simp_all add: reparented_def)
    then have "TASK s ! Suc i = None" using I(3) by simp
    then have "new_father p i m t = new_father p (Suc i) m t" if "TASK s ! m = Some t" for m t
      using that by (cases "m = Suc i") (auto simp: new_father_def)
    then show "reparented s p i r" using I(2) by (auto simp: reparented_def)
  next
    fix i t r r' assume i: "i < 63" and I: "reparented s p (Suc i) r" and t: "TASK r ! Suc i = Some t"
      and f: "reparent_body p (Suc i) t r = Inr r'"
    have k: "keeps s r" using I by (simp add: reparented_def)
    have lr: "length (TASK r) = 64" using keeps_length [OF k] len by simp
    obtain t0 where t0: "TASK s ! Suc i = Some t0"
      using keeps_nth [OF k, of "Suc i"] t len i by (cases "TASK s ! Suc i") auto
    then have "\<exists>g. TASK r ! Suc i = Some (t0\<lparr>signal := g, father_pid := new_father p (Suc i) (Suc i) t0\<rparr>)"
      using I i by (simp add: reparented_def)
    then obtain g where tg: "t = t0\<lparr>signal := g\<rparr>" using t by (auto simp: new_father_def)
    define r1 where "r1 = (if father_pid t = p then set_task (Suc i) (t\<lparr>father_pid := 1\<rparr>) r else r)"
    have k1: "keeps r r1" unfolding r1_def using keeps_set_task [OF t, of "t\<lparr>father_pid := 1\<rparr>"] by (simp add: view_def)
    have step: "reparented s p i r1" unfolding reparented_def
    proof (intro conjI allI impI)
      show "keeps s r1" using keeps_trans [OF k k1] .
    next
      fix m u assume m: "m < 64" "TASK s ! m = Some u"
      then obtain h where h: "TASK r ! m = Some (u\<lparr>signal := h, father_pid := new_father p (Suc i) m u\<rparr>)"
        using I by (auto simp: reparented_def)
      show "\<exists>g. TASK r1 ! m = Some (u\<lparr>signal := g, father_pid := new_father p i m u\<rparr>)"
      proof (cases "m = Suc i")
        case True
        then show ?thesis using t0 m tg h t lr i by (intro exI [of _ g]) (auto simp: r1_def new_father_def)
      next
        case False
        then have "new_father p i m u = new_father p (Suc i) m u" by (auto simp: new_father_def)
        then show ?thesis using h False by (intro exI [of _ h]) (simp add: r1_def)
      qed
    qed
    show "reparented s p i r'"
    proof (cases "father_pid t = p \<and> state t = TASK_ZOMBINE")
      case True
      have kr: "keeps s r1" using keeps_trans [OF k k1] .
      obtain f1 where f1: "TASK r1 ! j = Some f1" "pid f1 = 1"
        using keeps_nth [OF kr, of j] init len by (cases "TASK r1 ! j") (auto simp: view_def)
      have "tell_father 1 r1 = Inr (set_task j (f1\<lparr>signal := signal f1 OR SIG_CHLD\<rparr>) r1)"
        using tell_father_eq [of r1 "NEW_PID s" j f1 1] keeps_idents [OF kr] ids keeps_length [OF kr] len j1 init(1) f1 by simp
      then have "r' = set_task j (f1\<lparr>signal := signal f1 OR SIG_CHLD\<rparr>) r1"
        using f True by (simp add: reparent_body_def r1_def)
      then show ?thesis using reparented_signal [OF step f1(1)] by simp
    next
      case False
      then have "r' = r1" using f by (auto simp: reparent_body_def r1_def split: if_splits)
      then show ?thesis using step by simp
    qed
  qed (use l in auto)
qed

text \<open>A waiting task with a pending signal is made runnable by \<^verbatim>\<open>schedule\<close>; zombies stay zombies.\<close>

lemma schedule_slot:
  assumes "table_ok s" and "schedule s = Inr s'" and "0 < i" and "i < 64" and "TASK s ! i = Some t"
  shows "\<exists>t'. TASK s' ! i = Some t' \<and> father_pid t' = father_pid t \<and> pid t' = pid t \<and>
    (state t = TASK_ZOMBINE \<longrightarrow> t' = t) \<and>
    (state t = TASK_WAIT \<and> signal t AND NOT SIG_STOP \<noteq> 0 \<longrightarrow> runnable t' \<and> signal t' = 0)"
proof -
  obtain s1 s2 n s3 where st: "alter_state s = Inr s1" "set_Queue s1 = Inr s2" "pick_next s2 = Inr (n, s3)"
    "s' = s3\<lparr>current := n\<rparr>"
    using schedule_split [OF assms(2)] .
  have t1: "table_ok s1" using alter_state_inv [OF assms(1) st(1)] by simp
  have t2: "table_ok s2" using set_Queue_inv [OF t1 st(2)] .
  have len: "length (TASK s) = 64" "length (TASK s1) = 64" "length (TASK s2) = 64"
    using assms(1) t1 t2 by (simp_all add: table_ok_def)
  define R1 where "R1 = (\<lambda>a b. \<forall>t. a = Some t \<longrightarrow> (\<exists>t'. b = Some t' \<and> father_pid t' = father_pid t \<and> pid t' = pid t \<and>
    (state t = TASK_ZOMBINE \<longrightarrow> t' = t) \<and> (state t = TASK_WAIT \<and> signal t AND NOT SIG_STOP \<noteq> 0 \<longrightarrow> runnable t' \<and> signal t' = 0)))"
  have "R1 (TASK s ! i) (TASK s1 ! i)"
    by (rule for_tasks_rel [of 63 alter_state_body s s1 R1]) (use st(1) in \<open>simp add: alter_state_def MAX_TASK_def\<close>, use assms(3,4) len in \<open>auto simp: R1_def alter_state_body_def runnable_def split: if_splits\<close>)
  then obtain u where u: "TASK s1 ! i = Some u" "father_pid u = father_pid t" "pid u = pid t" "state t = TASK_ZOMBINE \<longrightarrow> u = t"
    "state t = TASK_WAIT \<and> signal t AND NOT SIG_STOP \<noteq> 0 \<longrightarrow> runnable u \<and> signal u = 0"
    using assms(5) by (auto simp: R1_def)
  define R2 where "R2 = (\<lambda>a b. \<forall>t. a = Some t \<longrightarrow> (\<exists>t'. b = Some t' \<and> father_pid t' = father_pid t \<and> pid t' = pid t \<and>
    (state t = TASK_ZOMBINE \<longrightarrow> t' = t) \<and> signal t' = signal t \<and> (runnable t \<longrightarrow> runnable t')))"
  have "R2 (TASK s1 ! i) (TASK s2 ! i)"
    by (rule for_tasks_rel [of 63 set_Queue_body s1 s2 R2])
       (use st(2) in \<open>simp add: set_Queue_def MAX_TASK_def\<close>, use assms(3,4) len in \<open>auto simp: R2_def set_Queue_body_def remove_task_def enqueue_def requeued_def runnable_def
          Let_def kbind_eq_Inr split: if_splits prod.splits\<close>)
  then obtain v where v: "TASK s2 ! i = Some v" "father_pid v = father_pid u" "pid v = pid u" "state u = TASK_ZOMBINE \<longrightarrow> v = u"
    "signal v = signal u" "runnable u \<longrightarrow> runnable v"
    using u(1) by (auto simp: R2_def)
  have "\<exists>w. TASK s3 ! i = Some w \<and> father_pid w = father_pid v \<and> pid w = pid v \<and> (state v = TASK_ZOMBINE \<longrightarrow> w = v) \<and> signal w = signal v \<and> (runnable v \<longrightarrow> runnable w)"
  proof (cases "first_index (\<lambda>k. queue_head s2 ! k \<noteq> []) 0 5")
    case None
    then show ?thesis using st(3) v by (auto simp: pick_next_def kbind_eq_Inr)
  next
    case (Some k)
    then have k: "k < 5" "queue_head s2 ! k \<noteq> []" using first_index_Some by blast+
    then obtain q rest where q: "queue_head s2 ! k = q # rest" by (cases "queue_head s2 ! k") auto
    have d: "dequeue k s2 = Inr (n, s3)" using st(3) Some by (simp add: pick_next_def)
    obtain t' h where n: "0 < n" "n < 64" "TASK s2 ! n = Some t'" "in_Queue t'"
      and s3: "s3 = set_task n (t'\<lparr>in_Queue := False, state := TASK_RUNNING\<rparr>) (s2\<lparr>heap := h, queue_head := (queue_head s2)[k := rest]\<rparr>)"
      by (rule dequeue_eq [OF t2 k(1) q d])
    have "state t' = TASK_READY" using in_Queue_ready [OF t2 n] .
    then show ?thesis using v(1) n len by (cases "i = n") (auto simp: s3 runnable_def)
  qed
  then show ?thesis using u v st(4) by auto
qed

lemma table_zombie:
  assumes "sinv s" and "TASK s ! current s = Some c"
  shows "table_ok (set_task (current s) (c\<lparr>state := TASK_ZOMBINE, counter := 0, in_Queue := False, order := - 1\<rparr>) s)"
  using assms by (rule table_set_current) auto

lemma do_exit_split:
  assumes "sinv s" and "do_exit e s = Inr s'"
  obtains c s1 c1 s3 where "TASK s ! current s = Some c" and "pid c \<noteq> 0"
    and "for_tasks 63 (reparent_body (pid c)) s = Inr s1" and "keeps s s1" and "TASK s1 ! current s = Some c1"
    and "tell_father (father_pid c1)
          (set_task (current s) (c1\<lparr>state := TASK_ZOMBINE, counter := 0, in_Queue := False, order := - 1\<rparr>) s1) = Inr s3"
    and "table_ok s3" and "schedule s3 = Inr s'"
proof -
  obtain c where c: "the_task s (current s) = Inr c" "TASK s ! current s = Some c" by (rule sinv_current [OF assms(1)])
  have p: "pid c \<noteq> 0" using assms(2) c(1) by (auto simp: do_exit_def)
  then obtain s1 where s1: "for_tasks 63 (reparent_body (pid c)) s = Inr s1"
    using assms(2) c(1) by (auto simp: do_exit_def MAX_TASK_def kbind_eq_Inr)
  have k: "keeps s s1" by (rule keeps_for_tasks [OF _ s1]) (rule reparent_keeps)
  have sv: "sinv s1" using keeps_sinv [OF k assms(1)] .
  have cur: "current s1 = current s" using k by (simp add: keeps_def)
  obtain c1 where c1: "the_task s1 (current s1) = Inr c1" "TASK s1 ! current s1 = Some c1" by (rule sinv_current [OF sv])
  let ?z = "set_task (current s) (c1\<lparr>state := TASK_ZOMBINE, counter := 0, in_Queue := False, order := - 1\<rparr>) s1"
  obtain s3 where s3: "tell_father (father_pid c1) ?z = Inr s3" "schedule s3 = Inr s'"
    using assms(2) c(1) p s1 c1(1) cur by (auto simp: do_exit_def MAX_TASK_def kbind_eq_Inr)
  have "table_ok ?z" using table_zombie [OF sv c1(2)] cur by simp
  then have "table_ok s3" using keeps_table [OF tell_father_keeps [OF s3(1)]] by simp
  then show ?thesis using that [OF c(2) p s1 k _ s3(1) _ s3(2)] c1(2) cur by simp
qed

lemma do_exit_pinv:
  assumes "pinv s" and "do_exit e s = Inr s'"
  shows "pinv s'"
proof -
  have sv: "sinv s" using assms(1) by (simp add: pinv_def)
  obtain c s1 c1 s3 where "TASK s ! current s = Some c" "pid c \<noteq> 0"
    and st: "for_tasks 63 (reparent_body (pid c)) s = Inr s1" "keeps s s1" "TASK s1 ! current s = Some c1"
    "tell_father (father_pid c1)
       (set_task (current s) (c1\<lparr>state := TASK_ZOMBINE, counter := 0, in_Queue := False, order := - 1\<rparr>) s1) = Inr s3"
    "table_ok s3" "schedule s3 = Inr s'"
    by (rule do_exit_split [OF sv assms(2)])
  let ?z = "set_task (current s) (c1\<lparr>state := TASK_ZOMBINE, counter := 0, in_Queue := False, order := - 1\<rparr>) s1"
  have "idents ?z = idents s1" using st(3) by (rule idents_set_task) (simp add: ident_def)
  moreover have "NEW_PID ?z = NEW_PID s1" by simp
  ultimately have "idents s3 = idents s" "NEW_PID s3 = NEW_PID s"
    using keeps_idents [OF st(2)] keeps_idents [OF tell_father_keeps [OF st(4)]] st(2)
      tell_father_keeps [OF st(4)] by (simp_all add: keeps_def)
  then show ?thesis using assms(1) schedule_table [OF st(5,6)] schedule_idents [OF st(6)] by (simp add: pinv_def)
qed


lemma tell_father_slot:
  assumes "tell_father p s = Inr s'" and "i < length (TASK s)" and "TASK s ! i = Some t"
  shows "\<exists>t'. TASK s' ! i = Some t' \<and> (father_pid t' = father_pid t \<or> father_pid t' = 1) \<and> state t' = state t \<and> pid t' = pid t"
proof -
  have sig: "\<exists>t'. TASK r' ! i = Some t' \<and> father_pid t' = father_pid t \<and> state t' = state t \<and> pid t' = pid t"
    if "signal_task k r = Inr r'" "i < length (TASK r)" "TASK r ! i = Some t" for k r r' t
    using that by (cases "k = i") (auto simp: signal_task_def the_task_def kbind_eq_Inr split: option.splits)
  show ?thesis
  proof (cases "if p \<noteq> 0 then first_index (\<lambda>i. case TASK s ! i of None \<Rightarrow> False | Some t \<Rightarrow> pid t = p) 1 MAX_TASK else None")
    case (Some k)
    then have "signal_task k s = Inr s'" using assms(1) by (simp add: tell_father_def)
    from sig [OF this assms(2,3)] show ?thesis by auto
  next
    case None
    then obtain c where c: "the_task s (current s) = Inr c"
      and k: "signal_task 1 (set_task (current s) (c\<lparr>father_pid := 1\<rparr>) s) = Inr s'"
      using assms(1) unfolding tell_father_def by (auto simp: kbind_eq_Inr)
    have cs: "TASK s ! current s = Some c" using c by (auto simp: the_task_def kbind_eq_Inr split: option.splits)
    show ?thesis
    proof (cases "i = current s")
      case True
      then have "TASK (set_task (current s) (c\<lparr>father_pid := 1\<rparr>) s) ! i = Some (c\<lparr>father_pid := 1\<rparr>)" using assms(2) by simp
      from sig [OF k _ this] show ?thesis using assms(2,3) cs True by auto
    next
      case False
      then have "TASK (set_task (current s) (c\<lparr>father_pid := 1\<rparr>) s) ! i = Some t" using assms(3) by simp
      from sig [OF k _ this] show ?thesis using assms(2) by auto
    qed
  qed
qed

lemma chld_pending: "(g OR SIG_CHLD) AND NOT SIG_STOP \<noteq> 0"
proof -
  have "bit ((g OR SIG_CHLD) AND NOT SIG_STOP) 16"
    by (simp add: bit_and_iff bit_or_iff bit_not_iff SIG_CHLD_def SIG_STOP_def)
  then show ?thesis by auto
qed

lemma exit_facts:
  assumes inv: "pinv s" and e: "do_exit code s = Inr s'" and c: "TASK s ! current s = Some c"
    and init: "j < 64" "TASK s ! j = Some t1" "pid t1 = 1"
  shows "(\<exists>z. TASK s' ! current s = Some z \<and> state z = TASK_ZOMBINE \<and> pid z = pid c) \<and>
    current s' \<noteq> current s \<and>
    (\<forall>i t. 0 < i \<longrightarrow> i < 64 \<longrightarrow> TASK s ! i = Some t \<longrightarrow> father_pid t = pid c \<longrightarrow>
       (\<exists>t'. TASK s' ! i = Some t' \<and> father_pid t' = 1)) \<and>
    (\<forall>i f. 0 < i \<longrightarrow> i < 64 \<longrightarrow> i \<noteq> current s \<longrightarrow> TASK s ! i = Some f \<longrightarrow> pid f = father_pid c \<longrightarrow>
       state f = TASK_WAIT \<longrightarrow> (\<exists>f' z. TASK s' ! i = Some f' \<and> runnable f' \<and> signal f' = 0 \<and> pid f' = pid f \<and>
         TASK s' ! current s = Some z \<and> father_pid z = pid f))"
proof -
  have sv: "sinv s" using inv by (simp add: pinv_def)
  have len: "length (TASK s) = 64" and cur: "current s < 64" and ids: "ids_ok (idents s) (NEW_PID s)"
    using inv by (simp_all add: pinv_def sinv_def table_ok_def)
  obtain c0 s1 c1 s3 where st: "TASK s ! current s = Some c0" "pid c0 \<noteq> 0"
    "for_tasks 63 (reparent_body (pid c0)) s = Inr s1" "keeps s s1" "TASK s1 ! current s = Some c1"
    "tell_father (father_pid c1)
       (set_task (current s) (c1\<lparr>state := TASK_ZOMBINE, counter := 0, in_Queue := False, order := - 1\<rparr>) s1) = Inr s3"
    "table_ok s3" "schedule s3 = Inr s'"
    by (rule do_exit_split [OF sv e])
  have cc: "c0 = c" using st(1) c by simp
  let ?z = "set_task (current s) (c1\<lparr>state := TASK_ZOMBINE, counter := 0, in_Queue := False, order := - 1\<rparr>) s1"
  have cur0: "0 < current s" using pinv_task(5) [OF inv cur c] st(2) cc by auto
  have rep: "reparented s (pid c) 0 s1" using reparent_loop [OF inv init] st(3) cc by simp
  have len1: "length (TASK s1) = 64" using keeps_length [OF st(4)] len by simp
  have zk: "keeps ?z s3" using tell_father_keeps [OF st(6)] .
  have z: "\<exists>t'. TASK s' ! i = Some t' \<and> (father_pid t' = father_pid t \<or> father_pid t' = 1) \<and>
      (state t = TASK_ZOMBINE \<longrightarrow> state t' = TASK_ZOMBINE \<and> pid t' = pid t)"
    if i: "0 < i" "i < 64" "TASK ?z ! i = Some t" for i t
  proof -
    obtain u where u: "TASK s3 ! i = Some u" "father_pid u = father_pid t \<or> father_pid u = 1" "state u = state t" "pid u = pid t"
      using tell_father_slot [OF st(6), of i t] i len1 by auto
    then show ?thesis using schedule_slot [OF st(7,8) i(1,2) u(1)] by auto
  qed
  have "\<exists>z. TASK s' ! current s = Some z \<and> state z = TASK_ZOMBINE \<and> pid z = pid c"
  proof -
    have "view c1 = view c" using keeps_nth [OF st(4), of "current s"] cur len c st(5) by simp
    then show ?thesis
      using z [OF cur0 cur, of "c1\<lparr>state := TASK_ZOMBINE, counter := 0, in_Queue := False, order := - 1\<rparr>"] cur len1
      by (auto simp: view_def)
  qed
  moreover have "current s' \<noteq> current s"
    using calculation schedule_running [OF st(7,8)] cur0 by auto
  moreover have "\<exists>t'. TASK s' ! i = Some t' \<and> father_pid t' = 1"
    if i: "0 < i" "i < 64" "TASK s ! i = Some t" "father_pid t = pid c" for i t
  proof -
    obtain g where g: "TASK s1 ! i = Some (t\<lparr>signal := g, father_pid := 1\<rparr>)"
      using reparentedD [OF rep i(2,3)] i(1,4) by (auto simp: new_father_def)
    then obtain u where "TASK ?z ! i = Some u" "father_pid u = 1"
      using st(5) i(2) len1 by (cases "i = current s") auto
    then show ?thesis using z [OF i(1,2)] by force
  qed
  moreover have "\<exists>f' z. TASK s' ! i = Some f' \<and> runnable f' \<and> signal f' = 0 \<and> pid f' = pid f \<and> TASK s' ! current s = Some z \<and> father_pid z = pid f"
    if i: "0 < i" "i < 64" "i \<noteq> current s" "TASK s ! i = Some f" "pid f = father_pid c" "state f = TASK_WAIT" for i f
  proof -
    have np: "father_pid c \<noteq> pid c" using pid_unique [OF ids, of i "current s" f c] i c cur len by auto
    obtain g where g: "TASK s1 ! i = Some (f\<lparr>signal := g, father_pid := new_father (pid c) 0 i f\<rparr>)"
      using reparentedD [OF rep i(2,4)] by blast
    obtain h where "c1 = c\<lparr>signal := h, father_pid := new_father (pid c) 0 (current s) c\<rparr>"
      using reparentedD [OF rep cur c] st(5) by auto
    then have fp: "father_pid c1 = pid f" using np i(5) by (simp add: new_father_def)
    let ?f = "f\<lparr>signal := g, father_pid := new_father (pid c) 0 i f\<rparr>"
    have zi: "TASK ?z ! i = Some ?f" using g i(3) by simp
    have "idents ?z = idents s1" using st(5) by (rule idents_set_task) (simp add: ident_def)
    then have "ids_ok (idents ?z) (NEW_PID s)" using keeps_idents [OF st(4)] ids by simp
    moreover have "pid f \<noteq> 0" using pinv_task(5) [OF inv i(2,4)] i(1) by simp
    ultimately have "s3 = set_task i (?f\<lparr>signal := signal ?f OR SIG_CHLD\<rparr>) ?z"
      using tell_father_eq [of ?z "NEW_PID s" i ?f "pid f"] st(6) fp zi i len1 by simp
    then have s3: "TASK s3 ! i = Some (?f\<lparr>signal := g OR SIG_CHLD\<rparr>)"
      "TASK s3 ! current s = Some (c1\<lparr>state := TASK_ZOMBINE, counter := 0, in_Queue := False, order := - 1\<rparr>)" using i(2,3) cur len1 by simp_all
    show ?thesis using schedule_slot [OF st(7,8) i(1,2) s3(1)] schedule_slot [OF st(7,8) cur0 cur s3(2)] i(6) chld_pending fp by auto
  qed
  ultimately show ?thesis by blast
qed

text \<open>
  C18. \<open>exit\<close> with process 1 alive: the caller becomes a zombie and is not current any more,
  each of its children has process 1 as father, and a father that was waiting for it with no
  other signal pending is runnable again.
\<close>

theorem exit_correct:
  assumes inv: "pinv s" and e: "do_exit code s = Inr s'" and c: "TASK s ! current s = Some c"
    and init: "j < 64" "TASK s ! j = Some t1" "pid t1 = 1"
  shows "(\<exists>z. TASK s' ! current s = Some z \<and> state z = TASK_ZOMBINE \<and> pid z = pid c) \<and>
    current s' \<noteq> current s \<and>
    (\<forall>i t. 0 < i \<longrightarrow> i < 64 \<longrightarrow> TASK s ! i = Some t \<longrightarrow> father_pid t = pid c \<longrightarrow>
       (\<exists>t'. TASK s' ! i = Some t' \<and> father_pid t' = 1)) \<and>
    (\<forall>i f. 0 < i \<longrightarrow> i < 64 \<longrightarrow> i \<noteq> current s \<longrightarrow> TASK s ! i = Some f \<longrightarrow> pid f = father_pid c \<longrightarrow>
       state f = TASK_WAIT \<longrightarrow> (\<exists>f'. TASK s' ! i = Some f' \<and> runnable f'))"
  using exit_facts [OF assms] by blast

section \<open>waitpid\<close>

lemma table_release:
  assumes "table_ok s" and "0 < i" and "i < 64" and "TASK s ! i = Some t" and "\<not> in_Queue t"
  shows "table_ok (s\<lparr>TASK := (TASK s)[i := None]\<rparr>)"
proof -
  let ?s = "s\<lparr>TASK := (TASK s)[i := None]\<rparr>"
  have q: "queues_ok s" and len: "length (TASK s) = 64" using assms(1) by (simp_all add: table_ok_def)
  have "queued_ok ?s k x" if "k < 5" "x \<in> set (queue_head s ! k)" for k x
    using queues_okD(3) [OF q that] assms(4,5) by (cases "qtask x = i") (auto simp: queued_ok_def)
  then have "queues_ok ?s" using q by (simp add: queues_ok_def)
  moreover have "task_ok ?s j" if "0 < j" "j < 64" for j
    using that assms(1) len by (cases "j = i") (auto simp: task_ok_def table_ok_def)
  ultimately show ?thesis using assms(1,2) by (simp add: table_ok_def)
qed

lemma ids_ok_remove: "ids_ok ms n \<Longrightarrow> ids_ok (ms[i := None]) n"
proof -
  assume a: "ids_ok ms n"
  have old: "ms ! j = Some x" if "j < length ms" "ms[i := None] ! j = Some x" for j x
    using that by (cases "j = i") auto
  have uniq: "j = k" if "j < length ms" "k < length ms" "ms ! j = Some (p, c, e)" "ms ! k = Some (p, c', e')" for j k p c e c' e'
    using a that unfolding ids_ok_def by blast
  have each: "c = j \<and> 0 \<le> p \<and> p \<le> n \<and> e = 0 \<and> (p = 0 \<longleftrightarrow> j = 0)"
    if "j < length ms" "ms ! j = Some (p, c, e)" for j p c e
    using a that unfolding ids_ok_def by blast
  show ?thesis unfolding ids_ok_def length_list_update
  proof (intro conjI allI impI)
    show "0 \<le> n" using a by (simp add: ids_ok_def)
  next
    fix j p c e assume "j < length ms" "ms[i := None] ! j = Some (p, c, e)"
    then have "c = j \<and> 0 \<le> p \<and> p \<le> n \<and> e = 0 \<and> (p = 0 \<longleftrightarrow> j = 0)" using each old by blast
    then show "c = j" "0 \<le> p" "p \<le> n" "e = 0" "p = 0 \<longleftrightarrow> j = 0" by blast+
  next
    fix j k p c e c' e' assume "j < length ms" "k < length ms"
      "ms[i := None] ! j = Some (p, c, e)" "ms[i := None] ! k = Some (p, c', e')"
    then have "j < length ms" "k < length ms" "ms ! j = Some (p, c, e)" "ms ! k = Some (p, c', e')" using old by blast+
    then show "j = k" by (rule uniq)
  qed
qed

lemma release_pinv:
  assumes inv: "pinv s" and i: "0 < i" "i < 64" "i \<noteq> current s" and t: "TASK s ! i = Some t" "\<not> in_Queue t"
    and r: "release i s = Inr s'"
  shows "pinv s'" and "TASK s' = (TASK s)[i := None]" and "current s' = current s"
proof -
  have sv: "table_ok s" and cur: "current s < 64"
    and c: "\<exists>c. TASK s ! current s = Some c \<and> (0 < current s \<longrightarrow> \<not> in_Queue c \<and> state c = TASK_RUNNING)"
    using inv by (simp_all add: pinv_def sinv_def)
  obtain h where s': "s' = s\<lparr>TASK := (TASK s)[i := None], heap := h\<rparr>"
    using r i by (auto simp: release_def MAX_TASK_def kbind_eq_Inr)
  have "table_ok (s\<lparr>TASK := (TASK s)[i := None]\<rparr>)" by (rule table_release [OF sv i(1,2) t])
  then have "sinv s'" using cur c i(3) by (simp add: sinv_def s')
  moreover have "idents s' = (idents s)[i := None]" by (simp add: s' idents_def map_update)
  ultimately show "pinv s'" using inv ids_ok_remove by (simp add: pinv_def s')
  show "TASK s' = (TASK s)[i := None]" "current s' = current s" by (simp_all add: s')
qed

text \<open>The children a call \<open>waitpid(p)\<close> looks at.\<close>

definition wait_child :: "int \<Rightarrow> kstate \<Rightarrow> nat \<Rightarrow> task_struct \<Rightarrow> bool" where
  "wait_child p s i t \<longleftrightarrow> TASK s ! i = Some t \<and> i \<noteq> current s \<and>
     (\<exists>c. TASK s ! current s = Some c \<and> father_pid t = pid c) \<and> (p = - 1 \<or> p > 0 \<and> pid t = p)"

lemma waitpid_scan_result:
  assumes "sinv s" and "TASK s ! current s = Some c" and "n < 64" and "waitpid_scan p n flag s = Inr r"
  shows "case r of
      Reaped q code s' \<Rightarrow> \<exists>i t. 0 < i \<and> i \<le> n \<and> wait_child p s i t \<and> state t = TASK_ZOMBINE \<and> q = pid t \<and> code = exit_code t \<and>
         release i (set_task (current s) (c\<lparr>time := time c + time t\<rparr>) s) = Inr s'
    | Stopped q \<Rightarrow> \<exists>i t. 0 < i \<and> i \<le> n \<and> wait_child p s i t \<and> state t = TASK_STOP \<and> q = pid t
    | Pending \<Rightarrow> (flag \<or> (\<exists>i t. 0 < i \<and> i \<le> n \<and> wait_child p s i t)) \<and>
         (\<forall>i t. 0 < i \<longrightarrow> i \<le> n \<longrightarrow> wait_child p s i t \<longrightarrow> state t \<noteq> TASK_ZOMBINE \<and> state t \<noteq> TASK_STOP)
    | NoChild \<Rightarrow> \<not> flag \<and> (\<forall>i t. 0 < i \<longrightarrow> i \<le> n \<longrightarrow> \<not> wait_child p s i t)"
  using assms(3,4)
proof (induction n arbitrary: flag)
  case 0
  then show ?case by auto
next
  case (Suc n)
  have len: "length (TASK s) = 64" and cur: "current s < 64" using assms(1) by (simp_all add: sinv_def table_ok_def)
  have ct: "the_task s (current s) = Inr c" using assms(2) len cur by (simp add: the_task_def)
  have wc: "wait_child p s i t \<longleftrightarrow> TASK s ! i = Some t \<and> i \<noteq> current s \<and> father_pid t = pid c \<and> (p = - 1 \<or> p > 0 \<and> pid t = p)" for i t
    using assms(2) by (auto simp: wait_child_def)
  have skip: ?case if "waitpid_scan p n flag' s = Inr r" "flag' = flag \<or> flag' \<and> (\<exists>t. wait_child p s (Suc n) t)"
    "\<not> flag' \<longrightarrow> (\<forall>t. \<not> wait_child p s (Suc n) t)"
    "\<forall>t. wait_child p s (Suc n) t \<longrightarrow> state t \<noteq> TASK_ZOMBINE \<and> state t \<noteq> TASK_STOP" for flag'
    using Suc.IH [OF _ that(1)] Suc.prems(1) that(2-)
    by (cases r) (auto simp: le_Suc_eq split: scan.splits)
  show ?case
  proof (cases "TASK s ! Suc n")
    case None
    then show ?thesis using skip [of flag] Suc.prems len ct by (simp add: wc)
  next
    case (Some t)
    show ?thesis
    proof (cases "wait_child p s (Suc n) t")
      case False
      then have "waitpid_scan p n flag s = Inr r"
        using Suc.prems len ct Some by (auto simp: wc split: if_splits)
      then show ?thesis using skip [of flag] False Some by (auto simp: wc)
    next
      case True
      then have g: "\<not> (Suc n = current s \<or> father_pid t \<noteq> pid c \<or> (p > 0 \<and> p \<noteq> pid t) \<or> (p \<le> 0 \<and> p \<noteq> - 1))"
        by (auto simp: wc)
      consider "state t = TASK_ZOMBINE" | "state t = TASK_STOP" | "state t \<noteq> TASK_ZOMBINE" "state t \<noteq> TASK_STOP" by blast
      then show ?thesis
      proof cases
        case 1
        then show ?thesis using Suc.prems len ct Some g True by (auto simp: kbind_eq_Inr intro!: exI [of _ "Suc n"] exI [of _ t])
      next
        case 2
        then show ?thesis using Suc.prems len ct Some g True by (auto intro!: exI [of _ "Suc n"] exI [of _ t])
      next
        case 3
        then have "waitpid_scan p n True s = Inr r" using Suc.prems len ct Some g by (auto split: if_splits)
        then show ?thesis using skip [of True] True 3 by (auto simp: wc Some)
      qed
    qed
  qed
qed

lemma zombie_not_queued:
  assumes "table_ok s" and "0 < i" and "i < 64" and "TASK s ! i = Some t" and "state t \<noteq> TASK_READY"
  shows "\<not> in_Queue t"
  using in_Queue_ready [OF assms(1-4)] assms(5) by blast

lemma set_wait_table:
  assumes "sinv s" and "TASK s ! current s = Some c"
  shows "table_ok (set_task (current s) (c\<lparr>state := TASK_WAIT, in_Queue := False\<rparr>) s)"
proof -
  have "0 < current s \<longrightarrow> state c = TASK_RUNNING" using assms by (auto simp: sinv_def)
  then have "order c \<le> 4 \<or> current s = 0" using current_order [OF assms] by auto
  then show ?thesis using assms by (intro table_set_current [where c = c]) auto
qed

lemma sys_waitpid_pinv:
  assumes inv: "pinv s" and w: "sys_waitpid p s = Inr (r, s')"
  shows "pinv s'"
proof -
  have sv: "sinv s" using inv by (simp add: pinv_def)
  obtain c where c: "the_task s (current s) = Inr c" "TASK s ! current s = Some c" "current s < 64" "length (TASK s) = 64"
    by (rule sinv_current [OF sv])
  obtain x where x: "waitpid_scan p 63 False s = Inr x"
    using w by (auto simp: sys_waitpid_def MAX_TASK_def kbind_eq_Inr)
  note res = waitpid_scan_result [OF sv c(2) _ x]
  show ?thesis
  proof (cases x)
    case (Reaped q code s2)
    then obtain i t where i: "0 < i" "i \<le> 63" "wait_child p s i t" "state t = TASK_ZOMBINE"
      "release i (set_task (current s) (c\<lparr>time := time c + time t\<rparr>) s) = Inr s2"
      using res by auto
    let ?s = "set_task (current s) (c\<lparr>time := time c + time t\<rparr>) s"
    have ti: "TASK s ! i = Some t" "i \<noteq> current s" "i < 64" using i(2,3) by (auto simp: wait_child_def)
    have "keeps s ?s" using c(2) by (rule keeps_set_task) (simp add: view_def)
    then have "pinv ?s" using keeps_pinv inv by blast
    moreover have "\<not> in_Queue t" using zombie_not_queued [of s i t] sv i ti by (auto simp: sinv_def)
    ultimately have "pinv s2" using release_pinv(1) [of ?s i t s2] i(1,5) ti by simp
    then show ?thesis using w x Reaped by (simp add: sys_waitpid_def MAX_TASK_def)
  next
    case Pending
    then obtain s2 where s2: "schedule (set_task (current s) (c\<lparr>state := TASK_WAIT, in_Queue := False\<rparr>) s) = Inr s2" "s' = s2"
      using w x c(1) by (auto simp: sys_waitpid_def MAX_TASK_def kbind_eq_Inr)
    have "idents (set_task (current s) (c\<lparr>state := TASK_WAIT, in_Queue := False\<rparr>) s) = idents s"
      using c(2) by (rule idents_set_task) (simp add: ident_def)
    then show ?thesis
      using schedule_table [OF set_wait_table [OF sv c(2)] s2(1)] schedule_idents [OF s2(1)] inv s2(2) by (simp add: pinv_def)
  qed (use w x inv in \<open>simp_all add: sys_waitpid_def MAX_TASK_def\<close>)
qed

lemma waitpid_facts:
  assumes inv: "pinv s" and w: "sys_waitpid p s = Inr (r, s')"
  shows "pinv s' \<and> (case r of
      Returned q (Some code) \<Rightarrow> code = 0 \<and> (\<exists>i t. 0 < i \<and> i < 64 \<and> wait_child p s i t \<and> state t = TASK_ZOMBINE \<and>
         q = pid t \<and> TASK s' ! i = None \<and> (\<forall>j. j \<noteq> i \<longrightarrow> j \<noteq> current s \<longrightarrow> TASK s' ! j = TASK s ! j))
    | Returned q None \<Rightarrow> s' = s \<and> ((q = - ECHILD \<and> (\<forall>i t. 0 < i \<longrightarrow> i < 64 \<longrightarrow> \<not> wait_child p s i t)) \<or>
         (\<exists>i t. 0 < i \<and> i < 64 \<and> wait_child p s i t \<and> state t = TASK_STOP \<and> q = pid t))
    | Blocked \<Rightarrow> (\<exists>i t. 0 < i \<and> i < 64 \<and> wait_child p s i t) \<and>
         (\<forall>i t. 0 < i \<longrightarrow> i < 64 \<longrightarrow> wait_child p s i t \<longrightarrow> state t \<noteq> TASK_ZOMBINE \<and> state t \<noteq> TASK_STOP))"
proof (intro conjI)
  show "pinv s'" using sys_waitpid_pinv [OF assms] .
  have sv: "sinv s" using inv by (simp add: pinv_def)
  obtain c where c: "the_task s (current s) = Inr c" "TASK s ! current s = Some c" "current s < 64" "length (TASK s) = 64"
    by (rule sinv_current [OF sv])
  obtain x where x: "waitpid_scan p 63 False s = Inr x"
    using w by (auto simp: sys_waitpid_def MAX_TASK_def kbind_eq_Inr)
  note res = waitpid_scan_result [OF sv c(2) _ x]
  have le: "i \<le> 63 \<longleftrightarrow> i < 64" for i :: nat by auto
  show "case r of
      Returned q (Some code) \<Rightarrow> code = 0 \<and> (\<exists>i t. 0 < i \<and> i < 64 \<and> wait_child p s i t \<and> state t = TASK_ZOMBINE \<and>
         q = pid t \<and> TASK s' ! i = None \<and> (\<forall>j. j \<noteq> i \<longrightarrow> j \<noteq> current s \<longrightarrow> TASK s' ! j = TASK s ! j))
    | Returned q None \<Rightarrow> s' = s \<and> ((q = - ECHILD \<and> (\<forall>i t. 0 < i \<longrightarrow> i < 64 \<longrightarrow> \<not> wait_child p s i t)) \<or>
         (\<exists>i t. 0 < i \<and> i < 64 \<and> wait_child p s i t \<and> state t = TASK_STOP \<and> q = pid t))
    | Blocked \<Rightarrow> (\<exists>i t. 0 < i \<and> i < 64 \<and> wait_child p s i t) \<and>
         (\<forall>i t. 0 < i \<longrightarrow> i < 64 \<longrightarrow> wait_child p s i t \<longrightarrow> state t \<noteq> TASK_ZOMBINE \<and> state t \<noteq> TASK_STOP)"
  proof (cases x)
    case (Reaped q code s2)
    then obtain i t where i: "0 < i" "i < 64" "wait_child p s i t" "state t = TASK_ZOMBINE" "q = pid t" "code = exit_code t"
      "release i (set_task (current s) (c\<lparr>time := time c + time t\<rparr>) s) = Inr s2"
      using res by (auto simp: le)
    have rs: "r = Returned q (Some code)" "s' = s2" using w x Reaped by (simp_all add: sys_waitpid_def MAX_TASK_def)
    have ti: "TASK s ! i = Some t" using i(3) by (simp add: wait_child_def)
    have "code = 0" using pinv_task(4) [OF inv i(2) ti] i(6) by simp
    moreover have "TASK s2 = (TASK s)[current s := Some (c\<lparr>time := time c + time t\<rparr>), i := None]"
      using i(1,2,7) by (auto simp: release_def MAX_TASK_def kbind_eq_Inr)
    ultimately show ?thesis using i c(4) by (auto simp: rs intro!: exI [of _ i] exI [of _ t])
  next
    case Pending
    then have "r = Blocked" using w x c(1) by (auto simp: sys_waitpid_def MAX_TASK_def kbind_eq_Inr)
    then show ?thesis using res Pending by (auto simp: le)
  next
    case (Stopped q)
    then obtain i t where "0 < i" "i < 64" "wait_child p s i t" "state t = TASK_STOP" "q = pid t"
      using res by (auto simp: le)
    moreover have "r = Returned q None" "s' = s" using w x Stopped by (simp_all add: sys_waitpid_def MAX_TASK_def)
    ultimately show ?thesis by (auto intro!: exI [of _ i] exI [of _ t])
  qed (use w x res in \<open>auto simp: sys_waitpid_def MAX_TASK_def le\<close>)
qed

text \<open>
  C19. \<open>waitpid\<close> in one pass: a reaped child was a zombie child of the caller that matches the
  request, its slot is free afterwards, and every other slot but the caller's is untouched;
  the status it reports is always 0, whatever the child passed to \<open>exit\<close>, because \<open>do_exit\<close>
  never stores its argument. \<open>-ECHILD\<close> is returned only when no child matches, and the call
  blocks only when one does and none of the matching children is a zombie or stopped.
\<close>

theorem waitpid_correct:
  assumes inv: "pinv s" and w: "sys_waitpid p s = Inr (r, s')"
  shows "pinv s' \<and> (case r of
      Returned q (Some code) \<Rightarrow> code = 0 \<and> (\<exists>i t. 0 < i \<and> i < 64 \<and> wait_child p s i t \<and> state t = TASK_ZOMBINE \<and>
         q = pid t \<and> TASK s' ! i = None \<and> (\<forall>j. j \<noteq> i \<longrightarrow> j \<noteq> current s \<longrightarrow> TASK s' ! j = TASK s ! j))
    | Returned q None \<Rightarrow> s' = s \<and> ((q = - ECHILD \<and> (\<forall>i t. 0 < i \<longrightarrow> i < 64 \<longrightarrow> \<not> wait_child p s i t)) \<or>
         (\<exists>i t. 0 < i \<and> i < 64 \<and> wait_child p s i t \<and> state t = TASK_STOP \<and> q = pid t))
    | Blocked \<Rightarrow> (\<exists>i t. 0 < i \<and> i < 64 \<and> wait_child p s i t) \<and>
         (\<forall>i t. 0 < i \<longrightarrow> i < 64 \<longrightarrow> wait_child p s i t \<longrightarrow> state t \<noteq> TASK_ZOMBINE \<and> state t \<noteq> TASK_STOP))"
  by (rule waitpid_facts [OF assms])

section \<open>Sleep, wake-up, signals and the tick\<close>

lemma sleep_pinv:
  assumes inv: "pinv s" and "sleep s = Inr s'"
  shows "pinv s'"
proof -
  have sv: "sinv s" using inv by (simp add: pinv_def)
  obtain c where c: "the_task s (current s) = Inr c" "TASK s ! current s = Some c" by (rule sinv_current [OF sv])
  let ?c = "c\<lparr>state := TASK_WAIT, signal := signal c OR SIG_STOP\<rparr>"
  have sch: "schedule (set_task (current s) ?c s) = Inr s'" using assms(2) c(1) by (simp add: sleep_def)
  have "0 < current s \<longrightarrow> state c = TASK_RUNNING" using sv c(2) by (auto simp: sinv_def)
  then have "order c \<le> 4 \<or> current s = 0" using current_order [OF sv c(2)] by auto
  then have "table_ok (set_task (current s) ?c s)" using sv c(2) by (intro table_set_current [where c = c]) auto
  moreover have "idents (set_task (current s) ?c s) = idents s"
    using c(2) by (rule idents_set_task) (simp add: ident_def)
  ultimately show ?thesis using schedule_table [OF _ sch] schedule_idents [OF sch] inv by (simp add: pinv_def)
qed

lemma wakeup_pinv:
  assumes "pinv s" and "wakeup s = Inr s'"
  shows "pinv s'"
proof -
  have "keeps s s'"
    using assms(2) unfolding wakeup_def
    by (rule keeps_for_tasks [rotated]) (auto simp: wakeup_body_def view_def intro!: keeps_set_task split: if_splits)
  then show ?thesis using keeps_pinv assms(1) by blast
qed

lemma schedule_pinv: "pinv s \<Longrightarrow> schedule s = Inr s' \<Longrightarrow> pinv s'"
  using schedule_table [of s s'] schedule_idents [of s s'] by (simp add: pinv_def) (simp add: sinv_def)

lemma pinv_jiffies [simp]: "pinv (s\<lparr>jiffies := j\<rparr>) = pinv s"
  by (simp add: pinv_def sinv_def)

lemma do_signal_pinv:
  assumes inv: "pinv s" and d: "do_signal n s = Inr s'"
  shows "pinv s'"
proof -
  have upd: "pinv (set_task i (c1\<lparr>sigactions := f\<rparr>) r)" if r: "pinv r" "the_task r i = Inr c1" for r i c1 f
  proof -
    have "TASK r ! i = Some c1" using r(2) by (auto simp: the_task_def kbind_eq_Inr split: option.splits)
    then have "keeps r (set_task i (c1\<lparr>sigactions := f\<rparr>) r)" by (rule keeps_set_task) (simp add: view_def)
    then show ?thesis using r keeps_pinv by blast
  qed
  show ?thesis using d upd inv do_exit_pinv [OF inv]
    by (auto simp: do_signal_def Let_def kbind_eq_Inr split: if_splits)
qed

lemma ret_from_syscall_pinv:
  assumes inv: "pinv s" and d: "ret_from_syscall s = Inr s'"
  shows "pinv s'"
proof -
  have sv: "sinv s" using inv by (simp add: pinv_def)
  obtain c where c: "the_task s (current s) = Inr c" "TASK s ! current s = Some c" by (rule sinv_current [OF sv])
  have "pinv (set_task (current s) (c\<lparr>signal := g\<rparr>) s)" for g
    using keeps_pinv [OF keeps_set_task [OF c(2)] inv] by (simp add: view_def)
  then show ?thesis using d c(1) inv do_signal_pinv by (auto simp: ret_from_syscall_def split: if_splits prod.splits)
qed

text \<open>The tick with no callback registered, as the kernel uses it: \<^verbatim>\<open>add_timer\<close> has no caller.\<close>

lemma tick_pinv:
  assumes inv: "pinv s" and d: "timer_interrupt_handler fire [] s = Inr s'"
  shows "pinv s'"
proof -
  let ?s = "timer_selfadd s"
  have inv1: "pinv ?s" using inv by (simp add: timer_selfadd_def)
  have sv: "sinv ?s" using inv1 by (simp add: pinv_def)
  obtain c where c: "the_task ?s (current ?s) = Inr c" "TASK ?s ! current ?s = Some c" by (rule sinv_current [OF sv])
  have "pinv (set_task (current ?s) c' ?s)" if "view c' = view c" for c'
    using keeps_pinv [OF keeps_set_task [OF c(2) that] inv1] .
  then have k: "pinv (set_task (current ?s) (c\<lparr>time := x, counter := y\<rparr>) ?s)" "pinv (set_task (current ?s) (c\<lparr>time := x\<rparr>) ?s)" for x y
    by (simp_all add: view_def)
  show ?thesis using d c(1) k schedule_pinv [OF k(1)] schedule_pinv [OF k(2)]
    by (auto simp: timer_interrupt_handler_def do_timer_def Let_def timer_selfadd_def split: if_splits)
qed

lemma for_tasks_jiffies:
  assumes "\<And>i t s s'. f i t s = Inr s' \<Longrightarrow> jiffies s' = jiffies s"
  shows "for_tasks n f s = Inr s' \<Longrightarrow> jiffies s' = jiffies s"
  using for_tasks_inv [of "\<lambda>r. jiffies r = jiffies s" n f s s'] assms by auto

lemma schedule_jiffies: "schedule s = Inr s' \<Longrightarrow> jiffies s' = jiffies s"
proof -
  assume "schedule s = Inr s'"
  then obtain s1 s2 n s3 where st: "alter_state s = Inr s1" "set_Queue s1 = Inr s2" "pick_next s2 = Inr (n, s3)" "s' = s3\<lparr>current := n\<rparr>"
    by (rule schedule_split)
  have "jiffies s1 = jiffies s" using st(1) unfolding alter_state_def by (rule for_tasks_jiffies [rotated]) (auto simp: alter_state_body_def set_task_def)
  moreover have "jiffies s2 = jiffies s1" using st(2) unfolding set_Queue_def
    by (rule for_tasks_jiffies [rotated])
      (auto simp: set_Queue_body_def remove_task_def enqueue_def set_task_def Let_def kbind_eq_Inr split: if_splits prod.splits)
  moreover have "jiffies s3 = jiffies s2" using st(3)
    by (auto simp: pick_next_def dequeue_def set_task_def kbind_eq_Inr split: option.splits list.splits)
  ultimately show ?thesis using st(4) by simp
qed

text \<open>
  How far a tick moves the clock: \<^verbatim>\<open>timer_interrupt_handler\<close> counts it, and \<^verbatim>\<open>do_timer\<close> counts it again when the slice of the task goes on.
\<close>

lemma tick_jiffies:
  assumes "timer_interrupt_handler fire [] s = Inr s'" "TASK s ! current s = Some c"
  shows "jiffies s' = jiffies s + (if pid c \<noteq> 0 \<and> 1 < counter c \<and> runnable c then 2 else 1)"
  using assms schedule_jiffies
  by (force simp: timer_interrupt_handler_def do_timer_def timer_selfadd_def Let_def kbind_eq_Inr the_task_def runnable_def set_task_def
      split: if_splits option.splits)

section \<open>The kernel as a transition system\<close>

text \<open>
  The steps of the running kernel: system calls of the current task, the signals handled on
  the way out, the timer tick, and voluntary rescheduling. An operation that panics is not a
  step: a panic halts the machine.
\<close>

inductive kstep :: "kstate \<Rightarrow> kstate \<Rightarrow> bool" where
  fork: "sys_fork s = Inr (p, s') \<Longrightarrow> kstep s s'"
| exit: "do_exit e s = Inr s' \<Longrightarrow> kstep s s'"
| wait: "sys_waitpid p s = Inr (r, s') \<Longrightarrow> kstep s s'"
| resume: "waitpid_resume p s = Inr (r, s') \<Longrightarrow> kstep s s'"
| sleeps: "sleep s = Inr s' \<Longrightarrow> kstep s s'"
| wakes: "wakeup s = Inr s' \<Longrightarrow> kstep s s'"
| signals: "ret_from_syscall s = Inr s' \<Longrightarrow> kstep s s'"
| tick: "timer_interrupt_handler fire [] s = Inr s' \<Longrightarrow> kstep s s'"
| yield: "schedule s = Inr s' \<Longrightarrow> kstep s s'"

definition booted :: "kstate \<Rightarrow> bool" where
  "booted s \<longleftrightarrow> (\<exists>a stk. TASK s = Some (init_task a stk) # replicate 63 None) \<and> current s = 0 \<and>
     queue_head s = replicate 5 [] \<and> length (tail s) = 5 \<and> NEW_PID s = 0"

lemma booted_pinv:
  assumes "booted s"
  shows "pinv s"
proof -
  obtain a stk where T: "TASK s = Some (init_task a stk) # replicate 63 None" using assms by (auto simp: booted_def)
  have none: "TASK s ! i = None" if "0 < i" "i < 64" for i using that T by (cases i) auto
  have "length (TASK s) = 64" "TASK s ! 0 = Some (init_task a stk)" using T by simp_all
  moreover have "queues_ok s" using assms by (auto simp: booted_def queues_ok_def)
  moreover have "idents s ! i = None" if "0 < i" "i < 64" for i using none [OF that] T that by (simp add: idents_nth)
  moreover have "idents s ! 0 = Some (0, 0, 0)" using T by (simp add: idents_def init_task_def ident_def)
  ultimately have only: "i = 0 \<and> x = (0, 0, 0)" if "i < 64" "idents s ! i = Some x" for i x
    using that by (cases "i = 0") auto
  have "sinv s" using assms none T by (auto simp: sinv_def table_ok_def task_ok_def booted_def queues_ok_def)
  moreover have "ids_ok (idents s) (NEW_PID s)"
    using only assms T by (auto simp: ids_ok_def booted_def dest!: only)
  ultimately show ?thesis by (simp add: pinv_def)
qed

lemma waitpid_resume_pinv:
  assumes inv: "pinv s" and w: "waitpid_resume p s = Inr (r, s')"
  shows "pinv s'"
proof -
  have sv: "sinv s" using inv by (simp add: pinv_def)
  obtain c where c: "the_task s (current s) = Inr c" "TASK s ! current s = Some c" by (rule sinv_current [OF sv])
  have "pinv (set_task (current s) (c\<lparr>signal := g\<rparr>) s)" for g
    using keeps_pinv [OF keeps_set_task [OF c(2)] inv] by (simp add: view_def)
  note k = this
  show ?thesis using w c(1) k sys_waitpid_pinv [OF k] by (auto simp: waitpid_resume_def Let_def split: if_splits)
qed

lemma pinv_unique:
  assumes "pinv s" "i < 64" "j < 64" "TASK s ! i = Some t" "TASK s ! j = Some u" "pid t = pid u"
  shows "i = j"
proof -
  have "length (TASK s) = 64" using assms(1) by (simp add: pinv_def sinv_def table_ok_def)
  then show ?thesis using pid_unique [of s "NEW_PID s" i j t u] assms by (simp add: pinv_def)
qed

interpretation kernel: invariant_system booted kstep pinv
proof unfold_locales
  fix s assume "booted s" then show "pinv s" by (rule booted_pinv)
next
  fix s t assume "pinv s" "kstep s t"
  from this(2,1) show "pinv t"
    by cases (auto intro: sys_fork_pinv do_exit_pinv sys_waitpid_pinv waitpid_resume_pinv sleep_pinv wakeup_pinv
        ret_from_syscall_pinv tick_pinv schedule_pinv)
qed


section \<open>exit and waitpid together\<close>

text \<open>
  \<open>exit\<close> and \<open>waitpid\<close> meet. A father sleeps in \<open>waitpid\<close> for a child that calls \<open>exit\<close>, with process 1 alive. When the father is the next task that runs,
  its call ends without sleeping again: it returns the number of this child with status 0, and the slot of the child is free. No wake-up is lost and no other child is taken.
\<close>

lemma exit_wait:
  assumes inv: "pinv s" and e: "do_exit code s = Inr s'" and c: "TASK s ! current s = Some c"
    and init: "j < 64" "TASK s ! j = Some t1" "pid t1 = 1"
    and f: "0 < i" "i < 64" "TASK s ! i = Some f" "pid f = father_pid c" "state f = TASK_WAIT"
    and nxt: "current s' = i" and w: "waitpid_resume (pid c) s' = Inr (r, s'')"
  shows "r = Returned (pid c) (Some 0) \<and> TASK s'' ! current s = None \<and> pinv s''"
proof -
  have sv: "sinv s" using inv by (simp add: pinv_def)
  have len: "length (TASK s) = 64" and cur: "current s < 64" using sv by (simp_all add: sinv_def table_ok_def)
  have pc: "pid c \<noteq> 0" using e c cur len by (auto simp: do_exit_def the_task_def)
  then have cur0: "0 < current s" using pinv_task(5) [OF inv cur c] by auto
  have pos: "0 < pid c" using pinv_task [OF inv cur c] pc by auto
  have ic: "i \<noteq> current s" using sv f(3,5) c cur0 by (auto simp: sinv_def)
  note x = exit_facts [OF inv e c init]
  from conjunct2 [OF conjunct2 [OF conjunct2 [OF x]]] f ic obtain f' z where f': "TASK s' ! i = Some f'" "signal f' = 0" "pid f' = pid f"
    and z0: "TASK s' ! current s = Some z" "father_pid z = pid f" by blast
  then have z: "TASK s' ! current s = Some z" "state z = TASK_ZOMBINE" "pid z = pid c" "father_pid z = pid f" using conjunct1 [OF x] by auto
  have inv': "pinv s'" by (rule do_exit_pinv [OF inv e])
  then have len': "length (TASK s') = 64" by (simp add: pinv_def sinv_def table_ok_def)
  have "s'\<lparr>TASK := (TASK s')[i := Some (f'\<lparr>signal := 0\<rparr>)]\<rparr> = s'" using f' f(2) len' by (cases s', cases f') (auto simp: list_update_same_conv)
  then have w': "sys_waitpid (pid c) s' = Inr (r, s'')" using w nxt f' f(2) len' by (simp add: waitpid_resume_def the_task_def set_task_def)
  have wc: "wait_child (pid c) s' (current s) z" using z f' nxt ic pos by (simp add: wait_child_def)
  have only: "k = current s \<and> t = z" if "k < 64" "wait_child (pid c) s' k t" for k t
    using that pinv_unique [OF inv', of k "current s" t z] z cur pos by (auto simp: wait_child_def)
  note y = waitpid_facts [OF inv' w']
  show ?thesis
  proof (cases r)
    case Blocked
    then have "\<forall>k t. 0 < k \<longrightarrow> k < 64 \<longrightarrow> wait_child (pid c) s' k t \<longrightarrow> state t \<noteq> TASK_ZOMBINE" using conjunct2 [OF y] by simp
    then show ?thesis using wc z(2) cur0 cur by blast
  next
    case (Returned q code)
    show ?thesis
    proof (cases code)
      case None
      then have "(\<forall>k t. 0 < k \<longrightarrow> k < 64 \<longrightarrow> \<not> wait_child (pid c) s' k t) \<or> (\<exists>k t. k < 64 \<and> wait_child (pid c) s' k t \<and> state t = TASK_STOP)"
        using conjunct2 [OF y] Returned by auto
      moreover have "state t \<noteq> TASK_STOP" if "k < 64" "wait_child (pid c) s' k t" for k t using only [OF that] z(2) by simp
      ultimately show ?thesis using wc cur0 cur by blast
    next
      case (Some st)
      then obtain k t where "st = 0" "k < 64" "wait_child (pid c) s' k t" "q = pid t" "TASK s'' ! k = None" using conjunct2 [OF y] Returned by auto
      then show ?thesis using only [of k t] z(3) Returned Some conjunct1 [OF y] by simp
    qed
  qed
qed

section \<open>Concrete processes\<close>

definition boot_state :: kstate where
  "boot_state = \<lparr>TASK = Some (init_task 0x80700000 0x80600000) # replicate 63 None, current = 0,
     queue_head = replicate 5 [], tail = replicate 5 0, heap = heap_empty, jiffies = 0, NEW_PID = 0, NEW_PCBID = 0,
     task_stack = 0x80600000, stack_mem = (\<lambda>_. 0)\<rparr>"

lemma boot_state_booted: "booted boot_state"
  by (auto simp: booted_def boot_state_def)

lemma boot_fork: "\<exists>s'. sys_fork boot_state = Inr (1, s')"
proof -
  obtain p h where km: "kmalloc SIZEOF_TASK heap_empty = Inr (p, h)" "p \<noteq> 0"
    using kmalloc_empty [of SIZEOF_TASK] by (auto simp: SIZEOF_TASK_def)
  have "first_index (\<lambda>i. TASK boot_state ! i = None) 1 64 = Some 1"
    by (subst first_index.simps) (simp add: boot_state_def)
  then have "find_new_id boot_state = (1, boot_state\<lparr>NEW_PID := 1, NEW_PCBID := 1\<rparr>)"
    by (simp add: find_new_id_def MAX_TASK_def Let_def boot_state_def)
  then show ?thesis using km
    by (simp add: sys_fork_def MAX_TASK_def copy_process_def the_task_def boot_state_def)
qed



lemma waitpid_scan_empty:
  "n < length (TASK s) \<Longrightarrow> the_task s (current s) = Inr c \<Longrightarrow> (\<forall>i. 0 < i \<longrightarrow> i \<le> n \<longrightarrow> TASK s ! i = None) \<Longrightarrow>
   waitpid_scan p n flag s = Inr (if flag then Pending else NoChild)"
  by (induction n) auto

theorem waitpid_correct_witness:
  "sys_waitpid (- 1) boot_state = Inr (Returned (- ECHILD) None, boot_state) \<and> pinv boot_state"
proof -
  have none: "TASK boot_state ! i = None" if "0 < i" "i \<le> 63" for i using that by (cases i) (auto simp: boot_state_def)
  then have "waitpid_scan (- 1) 63 False boot_state = Inr NoChild"
    using waitpid_scan_empty [of 63 boot_state] by (simp add: the_task_def) (simp add: boot_state_def)
  then have w: "sys_waitpid (- 1) boot_state = Inr (Returned (- ECHILD) None, boot_state)"
    by (simp add: sys_waitpid_def MAX_TASK_def)
  then show ?thesis using conjunct1 [OF waitpid_correct [OF booted_pinv [OF boot_state_booted] w]] by blast
qed

text \<open>Process 1 running alone beside the idle task.\<close>

definition one_task :: task_struct where
  "one_task = demo_task\<lparr>in_Queue := False, state := TASK_RUNNING\<rparr>"

definition one_running :: kstate where
  "one_running = boot_state\<lparr>TASK := Some (init_task 0x80700000 0x80600000) # Some one_task # replicate 62 None,
     current := 1, NEW_PID := 1\<rparr>"

lemma one_slot:
  "i < 64 \<Longrightarrow> TASK one_running ! i = (if i = 0 then Some (init_task 0x80700000 0x80600000)
     else if i = 1 then Some one_task else None)"
  by (auto simp: one_running_def nth_Cons split: nat.splits)

lemma one_pinv: "pinv one_running"
proof -
  have len: "length (TASK one_running) = 64" and q: "queue_head one_running = replicate 5 []" "length (tail one_running) = 5"
    "current one_running = 1" "NEW_PID one_running = 1"
    by (simp_all add: one_running_def boot_state_def)
  have "queues_ok one_running" using q by (auto simp: queues_ok_def)
  moreover have "task_ok one_running i" if "0 < i" "i < 64" for i
    using one_slot [OF that(2)] by (auto simp: task_ok_def one_task_def demo_task_def init_task_def)
  ultimately have "sinv one_running" using len q one_slot [of 0] one_slot [of 1]
    by (simp add: sinv_def table_ok_def) (simp add: one_task_def)
  moreover have "idents one_running ! i = (if i = 0 then Some (0, 0, 0) else if i = 1 then Some (1, 1, 0) else None)"
    if "i < 64" for i
    using one_slot [OF that] that len by (simp add: idents_nth ident_def one_task_def demo_task_def init_task_def)
  then have "ids_ok (idents one_running) (NEW_PID one_running)"
    using len q by (auto simp: ids_ok_def split: if_splits)
  ultimately show ?thesis by (simp add: pinv_def)
qed

lemma one_schedule:
  assumes "TASK s = (TASK one_running)[1 := Some z]" and "state z = TASK_ZOMBINE" and "\<not> in_Queue z"
    and "queue_head s = replicate 5 []"
  shows "\<exists>s'. schedule s = Inr s'"
proof -
  have len: "length (TASK s) = 64" using assms(1) by (simp add: one_running_def)
  have slot: "TASK s ! i = (if i = 0 then Some (init_task 0x80700000 0x80600000) else if i = 1 then Some z else None)"
    if "i < 64" for i using one_slot [OF that] assms(1) that by (simp add: one_running_def nth_list_update)
  have one: "for_tasks 63 f s = for_tasks 1 f s" for f by (rule for_tasks_skip) (simp_all add: len slot)
  have "alter_state s = Inr s" "set_Queue s = Inr s"
    using slot [of 1] len assms(2,3) by (simp_all add: alter_state_def set_Queue_def MAX_TASK_def one alter_state_body_def set_Queue_body_def)
  moreover have "pick_next s = Inr (0, s)"
    using slot [of 0] len assms(4) first_index_None [of "\<lambda>k. queue_head s ! k \<noteq> []" 0 5]
    by (simp add: pick_next_def the_task_def)
  ultimately show ?thesis by (simp add: schedule_def)
qed

theorem exit_correct_witness:
  "\<exists>s' z. do_exit 7 one_running = Inr s' \<and> TASK s' ! 1 = Some z \<and> state z = TASK_ZOMBINE \<and> pid z = 1"
proof -
  have len: "length (TASK one_running) = 64" and cur: "current one_running = 1" by (simp_all add: one_running_def)
  have t1: "TASK one_running ! 1 = Some one_task" "TASK one_running ! current one_running = Some one_task"
    using one_slot [of 1] cur by simp_all
  have pid1: "pid one_task = 1" "father_pid one_task = 0" by (simp_all add: one_task_def demo_task_def init_task_def)
  let ?z = "one_task\<lparr>state := TASK_ZOMBINE, counter := 0, in_Queue := False, order := - 1\<rparr>"
  let ?y = "?z\<lparr>father_pid := 1, signal := signal one_task OR SIG_CHLD\<rparr>"
  let ?s = "set_task 1 ?y (set_task 1 (?z\<lparr>father_pid := 1\<rparr>) (set_task 1 ?z one_running))"
  have loop: "for_tasks 63 (reparent_body 1) one_running = Inr one_running"
  proof -
    have "for_tasks 63 (reparent_body 1) one_running = for_tasks 1 (reparent_body 1) one_running"
      by (rule for_tasks_skip) (simp_all add: len one_slot)
    then show ?thesis using t1(1) len pid1 by (simp add: reparent_body_def)
  qed
  have tell: "tell_father 0 (set_task 1 ?z one_running) = Inr ?s"
    using len cur by (simp add: tell_father_def the_task_def signal_task_def)
  have "\<exists>s'. schedule ?s = Inr s'"
    by (rule one_schedule [of _ ?y]) (simp_all add: one_running_def boot_state_def)
  then obtain s' where e: "do_exit 7 one_running = Inr s'"
    using loop tell t1 len cur pid1 by (auto simp: do_exit_def the_task_def MAX_TASK_def)
  have "\<exists>z. TASK s' ! current one_running = Some z \<and> state z = TASK_ZOMBINE \<and> pid z = pid one_task"
    by (rule conjunct1 [OF exit_correct [OF one_pinv e t1(2) _ t1(1) pid1(1)]]) simp
  then show ?thesis using e cur pid1 by auto
qed
end
