(* ===== verification/Kstring.thy ===== *)
theory Kstring
  imports Prelude
begin

text \<open>
  The string routines of \<^verbatim>\<open>src/string/string.c\<close> and the character classes of
  \<^verbatim>\<open>src/kernel/ctype.c\<close>, over a byte memory, so that overlapping buffers and missing
  terminators mean what they mean in C. A scan for the terminator that finds none does not
  return: it is a partial function with value \<open>None\<close>. Addresses and counts are natural numbers;
  address 0 is NULL. The callers pass counts that are not negative, except \<^verbatim>\<open>str_split\<close>, whose
  negative count copies nothing, as the truncated subtraction does.
\<close>

type_synonym bmem = "nat \<Rightarrow> u8"

abbreviation (input) NULL :: nat where "NULL \<equiv> 0"

section \<open>Copying\<close>

fun zero_fill :: "bmem \<Rightarrow> nat \<Rightarrow> nat \<Rightarrow> bmem" where
  "zero_fill m s 0 = m"
| "zero_fill m s (Suc n) = zero_fill (m(s := 0)) (Suc s) n"

fun strncpy :: "bmem \<Rightarrow> nat \<Rightarrow> nat \<Rightarrow> nat \<Rightarrow> bmem" where
  "strncpy m s t 0 = m"
| "strncpy m s t (Suc n) =
     (let c = m t; m' = m(s := c)
      in if c \<noteq> 0 then strncpy m' (Suc s) (Suc t) n else zero_fill m' (Suc s) n)"

fun copy_up :: "bmem \<Rightarrow> nat \<Rightarrow> nat \<Rightarrow> nat \<Rightarrow> bmem" where
  "copy_up m d s 0 = m"
| "copy_up m d s (Suc n) = copy_up (m(d := m s)) (Suc d) (Suc s) n"

fun copy_back :: "bmem \<Rightarrow> nat \<Rightarrow> nat \<Rightarrow> nat \<Rightarrow> bmem" where
  "copy_back m d s 0 = m"
| "copy_back m d s (Suc n) = copy_back (m(d + n := m (s + n))) d s n"

definition memmove :: "bmem \<Rightarrow> nat \<Rightarrow> nat \<Rightarrow> nat \<Rightarrow> bmem" where
  "memmove m dst src n =
     (if n = 0 then m
      else if src < dst \<and> src + n > dst then copy_back m dst src n else copy_up m dst src n)"

definition memcpy :: "bmem \<Rightarrow> nat \<Rightarrow> nat \<Rightarrow> nat \<Rightarrow> bmem" where
  "memcpy m dst src n = memmove m dst src n"

text \<open>
  \<^verbatim>\<open>memset\<close> of \<^verbatim>\<open>src/mm/mm.c\<close>, for counts that its signed counter can reach, below \<open>2 ^ 31\<close>: its callers pass at most the size of a page or of a segment
  that was loaded into one object of the heap.
\<close>

fun memset :: "bmem \<Rightarrow> nat \<Rightarrow> i32 \<Rightarrow> nat \<Rightarrow> bmem" where
  "memset m p c 0 = m"
| "memset m p c (Suc n) = memset (m(p := ucast c)) (Suc p) c n"

section \<open>Length and comparison\<close>

partial_function (option) strlen_from :: "bmem \<Rightarrow> nat \<Rightarrow> nat \<Rightarrow> nat option" where
  "strlen_from m s k = (if m s = 0 then Some k else strlen_from m (Suc s) (Suc k))"

definition strlen :: "bmem \<Rightarrow> nat \<Rightarrow> nat option" where
  "strlen m s = strlen_from m s 0"

text \<open>\<^verbatim>\<open>strncmp\<close> does not advance its pointers.\<close>

fun strncmp :: "bmem \<Rightarrow> nat \<Rightarrow> nat \<Rightarrow> nat \<Rightarrow> int" where
  "strncmp m s1 s2 0 = 0"
| "strncmp m s1 s2 (Suc n) =
     (if m s1 = 0 \<or> m s1 \<noteq> m s2 then int (unat (m s1)) - int (unat (m s2)) else strncmp m s1 s2 n)"

fun differ :: "bmem \<Rightarrow> nat \<Rightarrow> nat \<Rightarrow> nat \<Rightarrow> int" where
  "differ m s1 s2 0 = 0"
| "differ m s1 s2 (Suc n) = (if m s1 \<noteq> m s2 then 1 else differ m (Suc s1) (Suc s2) n)"

definition strcmp :: "bmem \<Rightarrow> nat \<Rightarrow> nat \<Rightarrow> int option" where
  "strcmp m s1 s2 =
     (case strlen m s1 of None \<Rightarrow> None
      | Some total1 \<Rightarrow> (case strlen m s2 of None \<Rightarrow> None
          | Some total2 \<Rightarrow> Some (if total1 \<noteq> total2 then 1 else differ m s1 s2 total1)))"

section \<open>Character classes\<close>

definition C_U :: u8 where "C_U = 1"
definition C_L :: u8 where "C_L = 2"
definition C_D :: u8 where "C_D = 4"
definition C_C :: u8 where "C_C = 8"
definition C_P :: u8 where "C_P = 16"
definition C_S :: u8 where "C_S = 32"
definition C_X :: u8 where "C_X = 64"
definition C_SP :: u8 where "C_SP = 128"

text \<open>The table \<^verbatim>\<open>_ctype\<close> from its second entry on, by the rows of the source.\<close>

definition ctype_table :: "u8 list" where
  "ctype_table =
     replicate 8 C_C @ [C_C, C_C OR C_S, C_C OR C_S, C_C OR C_S, C_C OR C_S, C_C OR C_S, C_C, C_C] @
     replicate 16 C_C @ [C_S OR C_SP] @ replicate 15 C_P @ replicate 10 C_D @ replicate 6 C_P @
     [C_P] @ replicate 6 (C_U OR C_X) @ replicate 20 C_U @ replicate 5 C_P @
     [C_P] @ replicate 6 (C_L OR C_X) @ replicate 20 C_L @ replicate 4 C_P @ [C_C] @ replicate 128 0"

definition ctype :: "u8 \<Rightarrow> u8 \<Rightarrow> bool" where
  "ctype c flags = (ctype_table ! unat c AND flags \<noteq> 0)"

definition islower :: "u8 \<Rightarrow> bool" where "islower c = ctype c C_L"

definition isupper :: "u8 \<Rightarrow> bool" where "isupper c = ctype c C_U"

definition toupper :: "u8 \<Rightarrow> u8" where
  "toupper c = (if islower c then c - 32 else c)"

definition tolower :: "u8 \<Rightarrow> u8" where
  "tolower c = (if isupper c then c + 32 else c)"

section \<open>Scanning and splitting\<close>

partial_function (option) str_toupper_loop :: "bmem \<Rightarrow> nat \<Rightarrow> bmem option" where
  "str_toupper_loop m s = (if m s = 0 then Some m else str_toupper_loop (m(s := toupper (m s))) (Suc s))"

definition str_toupper :: "bmem \<Rightarrow> nat \<Rightarrow> bmem option" where
  "str_toupper m str = (if str \<noteq> NULL then str_toupper_loop m str else Some m)"

text \<open>\<^verbatim>\<open>strchr\<close>: the result is the address, \<open>Some None\<close> is NULL.\<close>

partial_function (option) strchr :: "bmem \<Rightarrow> nat \<Rightarrow> u8 \<Rightarrow> nat option option" where
  "strchr m s c =
     (if m s = 0 then Some (if c = 0 then Some s else None)
      else if m s = c then Some (Some s) else strchr m (Suc s) c)"

definition str_split :: "bmem \<Rightarrow> nat \<Rightarrow> u8 \<Rightarrow> nat \<Rightarrow> nat \<Rightarrow> (int \<times> bmem) option" where
  "str_split m str ch str1 str2 =
     (case strchr m str ch of
        None \<Rightarrow> None
      | Some None \<Rightarrow> Some (- 1, m)
      | Some (Some p) \<Rightarrow>
          let m1 = strncpy m str1 str (p - str)
          in case strlen m1 str of
               None \<Rightarrow> None
             | Some n \<Rightarrow> Some (1, strncpy m1 str2 (p + 1) (n - 1 - (p - str))))"

section \<open>Strings in memory\<close>

text \<open>\<open>cstr m s xs\<close>: the bytes \<open>xs\<close>, none of them zero, are at \<open>s\<close> and a zero follows.\<close>

fun cstr :: "bmem \<Rightarrow> nat \<Rightarrow> u8 list \<Rightarrow> bool" where
  "cstr m s [] = (m s = 0)"
| "cstr m s (x # xs) = (m s = x \<and> x \<noteq> 0 \<and> cstr m (Suc s) xs)"

lemma cstr_nth: "cstr m s xs \<Longrightarrow> i < length xs \<Longrightarrow> m (s + i) = xs ! i \<and> xs ! i \<noteq> 0"
proof (induction xs arbitrary: s i)
  case (Cons x xs)
  show ?case
  proof (cases i)
    case (Suc j)
    then show ?thesis using Cons.IH [of "Suc s" j] Cons.prems by simp
  qed (use Cons.prems in simp)
qed simp

lemma cstr_end: "cstr m s xs \<Longrightarrow> m (s + length xs) = 0"
proof (induction xs arbitrary: s)
  case (Cons x xs)
  then show ?case using Cons.IH [of "Suc s"] by simp
qed simp

lemma cstr_iff: "cstr m s xs \<longleftrightarrow> (\<forall>i<length xs. m (s + i) = xs ! i \<and> xs ! i \<noteq> 0) \<and> m (s + length xs) = 0"
proof (induction xs arbitrary: s)
  case (Cons x xs)
  have "(\<forall>i<length (x # xs). m (s + i) = (x # xs) ! i \<and> (x # xs) ! i \<noteq> 0) \<longleftrightarrow>
    m s = x \<and> x \<noteq> 0 \<and> (\<forall>i<length xs. m (Suc s + i) = xs ! i \<and> xs ! i \<noteq> 0)"
    by (auto simp: less_Suc_eq_0_disj)
  then show ?case using Cons by auto
qed simp

lemma strlen_from_cstr: "cstr m s xs \<Longrightarrow> strlen_from m s k = Some (k + length xs)"
  by (induction xs arbitrary: s k) (auto simp: strlen_from.simps)

lemma strlen_cstr: "cstr m s xs \<Longrightarrow> strlen m s = Some (length xs)"
  by (simp add: strlen_def strlen_from_cstr)

section \<open>Copies\<close>

lemma memset_eq: "memset m p c n a = (if p \<le> a \<and> a < p + n then ucast c else m a)"
  by (induction n arbitrary: m p) auto

lemma zero_fill_eq: "zero_fill m s n a = (if s \<le> a \<and> a < s + n then 0 else m a)"
  by (induction n arbitrary: m s) auto

lemma copy_up_eq:
  "d \<le> s \<or> s + n \<le> d \<Longrightarrow> copy_up m d s n a = (if d \<le> a \<and> a < d + n then m (s + (a - d)) else m a)"
proof (induction n arbitrary: m d s)
  case (Suc n)
  have "copy_up m d s (Suc n) a = (if Suc d \<le> a \<and> a < Suc d + n then (m(d := m s)) (Suc s + (a - Suc d)) else (m(d := m s)) a)"
    unfolding copy_up.simps by (rule Suc.IH) (use Suc.prems in linarith)
  also have "\<dots> = (if d \<le> a \<and> a < d + Suc n then m (s + (a - d)) else m a)"
  proof (cases "Suc d \<le> a \<and> a < Suc d + n")
    case True
    then have "Suc s + (a - Suc d) = s + (a - d)" "s + (a - d) \<noteq> d" using Suc.prems by linarith+
    then show ?thesis using True by simp
  next
    case False
    then have "a = d \<or> \<not> (d \<le> a \<and> a < d + Suc n)" by linarith
    then show ?thesis using False by auto
  qed
  finally show ?case .
qed auto

lemma copy_back_eq:
  "s \<le> d \<Longrightarrow> copy_back m d s n a = (if d \<le> a \<and> a < d + n then m (s + (a - d)) else m a)"
proof (induction n arbitrary: m)
  case (Suc n)
  have "copy_back m d s (Suc n) a =
      (if d \<le> a \<and> a < d + n then (m(d + n := m (s + n))) (s + (a - d)) else (m(d + n := m (s + n))) a)"
    using Suc by simp
  also have "\<dots> = (if d \<le> a \<and> a < d + Suc n then m (s + (a - d)) else m a)"
    using Suc.prems by auto
  finally show ?case .
qed auto

text \<open>
  C30. \<open>memmove\<close> copies the \<open>n\<close> bytes as they were before the call, however the two regions
  overlap, and writes nothing outside the destination.
\<close>

theorem memmove_correct:
  "memmove m dst src n = (\<lambda>a. if dst \<le> a \<and> a < dst + n then m (src + (a - dst)) else m a)"
proof
  fix a
  show "memmove m dst src n a = (if dst \<le> a \<and> a < dst + n then m (src + (a - dst)) else m a)"
    using copy_back_eq [of src dst m n a] copy_up_eq [of dst src n m a] by (auto simp: memmove_def)
qed

lemma strncpy_eq:
  assumes "cstr m t xs" and "s + n \<le> t \<or> t + length xs < s"
  shows "strncpy m s t n = (\<lambda>a. if s \<le> a \<and> a < s + n then (if a - s < length xs then xs ! (a - s) else 0) else m a)"
  using assms
proof (induction n arbitrary: m s t xs)
  case 0
  show ?case by (simp add: fun_eq_iff) linarith
next
  case (Suc n)
  show ?case
  proof (cases xs)
    case Nil
    then have "strncpy m s t (Suc n) = zero_fill (m(s := 0)) (Suc s) n" using Suc.prems by simp
    then show ?thesis using Nil by (auto simp: zero_fill_eq fun_eq_iff)
  next
    case (Cons x ys)
    let ?m = "m(s := x)"
    have "m t = x" "x \<noteq> 0" "cstr m (Suc t) ys" using Suc.prems(1) Cons by auto
    moreover have "cstr ?m (Suc t) ys"
      using \<open>cstr m (Suc t) ys\<close> Suc.prems(2) Cons unfolding cstr_iff by auto
    moreover have "Suc s + n \<le> Suc t \<or> Suc t + length ys < Suc s" using Suc.prems(2) Cons by auto
    ultimately have "strncpy m s t (Suc n) =
      (\<lambda>a. if Suc s \<le> a \<and> a < Suc s + n then (if a - Suc s < length ys then ys ! (a - Suc s) else 0) else ?m a)"
      using Suc.IH [of ?m "Suc t" ys "Suc s"] by (simp add: Let_def del: fun_upd_apply)
    also have "\<dots> = (\<lambda>a. if s \<le> a \<and> a < s + Suc n then (if a - s < length xs then xs ! (a - s) else 0) else m a)"
    proof
      fix a
      have "xs ! (a - s) = ys ! (a - Suc s)" if "Suc s \<le> a"
      proof -
        have "a - s = Suc (a - Suc s)" using that by linarith
        then show ?thesis using Cons by simp
      qed
      then show "(if Suc s \<le> a \<and> a < Suc s + n then (if a - Suc s < length ys then ys ! (a - Suc s) else 0) else ?m a)
        = (if s \<le> a \<and> a < s + Suc n then (if a - s < length xs then xs ! (a - s) else 0) else m a)"
        using Cons by auto
    qed
    finally show ?thesis .
  qed
qed

text \<open>
  \<open>strncpy\<close> on disjoint buffers fills exactly \<open>n\<close> bytes: the string, then zeros; a source of
  \<open>n\<close> or more characters leaves no terminator.
\<close>

lemma strncpy_correct:
  assumes "cstr m t xs" and "s + n \<le> t \<or> t + length xs < s"
  shows "(\<forall>a. \<not> (s \<le> a \<and> a < s + n) \<longrightarrow> strncpy m s t n a = m a) \<and>
    (if length xs < n then cstr (strncpy m s t n) s xs
     else \<forall>i<n. strncpy m s t n (s + i) = xs ! i \<and> xs ! i \<noteq> 0)"
proof -
  have nz: "xs ! i \<noteq> 0" if "i < length xs" for i using cstr_nth [OF assms(1) that] by simp
  then show ?thesis using strncpy_eq [OF assms] by (auto simp: cstr_iff)
qed

section \<open>Comparisons\<close>

text \<open>
  \<open>strncmp\<close> compares only the first character: its pointers are never advanced, so two
  names that start with the same letter compare equal for every \<open>n\<close>.
\<close>

lemma strncmp_first_char:
  "strncmp m s1 s2 n = 0 \<longleftrightarrow> n = 0 \<or> m s1 = m s2"
proof (induction n)
  case (Suc n)
  have "int (unat (m s1)) - int (unat (m s2)) = 0 \<longleftrightarrow> unat (m s1) = unat (m s2)" by linarith
  then have "int (unat (m s1)) - int (unat (m s2)) = 0 \<longleftrightarrow> m s1 = m s2" by (simp only: word_unat_eq_iff)
  then show ?case using Suc by auto
qed simp

lemma differ_cstr:
  "cstr m s1 xs \<Longrightarrow> cstr m s2 ys \<Longrightarrow> length xs = length ys \<Longrightarrow> differ m s1 s2 (length xs) = (if xs = ys then 0 else 1)"
proof (induction xs arbitrary: s1 s2 ys)
  case (Cons x xs)
  then obtain y zs where "ys = y # zs" by (cases ys) auto
  then show ?case using Cons by auto
qed simp

text \<open>
  \<open>strcmp\<close> on two strings returns, and returns 0 exactly when they are equal and 1 otherwise.
\<close>

lemma strcmp_correct:
  assumes "cstr m s1 xs" and "cstr m s2 ys"
  shows "strcmp m s1 s2 = Some (if xs = ys then 0 else 1)"
  using strlen_cstr [OF assms(1)] strlen_cstr [OF assms(2)] differ_cstr [OF assms]
  by (auto simp: strcmp_def)

section \<open>Upper case\<close>

lemma ctype_table_length: "length ctype_table = 256"
  by (simp add: ctype_table_def)

lemma ctype_lower_all: "\<forall>n\<in>set [0..<256]. (ctype_table ! n AND C_L \<noteq> 0) = (97 \<le> n \<and> n \<le> 122)"
  by code_simp

lemma islower_iff: "islower c \<longleftrightarrow> 97 \<le> unat c \<and> unat c \<le> 122"
proof -
  have "unat c \<in> set [0..<256]" using unat_bound [of c] by simp
  then show ?thesis using ctype_lower_all unfolding islower_def ctype_def by blast
qed

lemma toupper_nz: "c \<noteq> 0 \<Longrightarrow> toupper c \<noteq> 0"
proof -
  assume "c \<noteq> 0"
  have "unat (c - 32) = unat c - 32" if "97 \<le> unat c"
    using that by (subst unat_sub) (auto simp: word_le_nat_alt)
  then show ?thesis using \<open>c \<noteq> 0\<close> by (auto simp: toupper_def islower_iff unat_eq_0 [symmetric])
qed

lemma str_toupper_loop_cstr:
  "cstr m s xs \<Longrightarrow> \<exists>m'. str_toupper_loop m s = Some m' \<and> cstr m' s (map toupper xs) \<and>
     (\<forall>a. \<not> (s \<le> a \<and> a < s + length xs) \<longrightarrow> m' a = m a)"
proof (induction xs arbitrary: m s)
  case Nil
  then show ?case by (simp add: str_toupper_loop.simps)
next
  case (Cons x xs)
  let ?m = "m(s := toupper x)"
  have "cstr ?m (Suc s) xs" using Cons.prems by (auto simp: cstr_iff)
  then obtain m' where m': "str_toupper_loop ?m (Suc s) = Some m'" "cstr m' (Suc s) (map toupper xs)"
    "\<forall>a. \<not> (Suc s \<le> a \<and> a < Suc s + length xs) \<longrightarrow> m' a = ?m a"
    using Cons.IH by blast
  have "str_toupper_loop m s = Some m'" using Cons.prems m'(1) by (simp add: str_toupper_loop.simps [of m s])
  moreover have "m' s = toupper x" using m'(3) by simp
  ultimately show ?case using m' Cons.prems toupper_nz by auto
qed

text \<open>
  \<open>str_toupper\<close> on a pointer that is not NULL terminates on every terminated string, maps exactly the letters a to z to
  A to Z in place, and touches nothing else.
\<close>

lemma str_toupper_correct:
  assumes "cstr m s xs" and "s \<noteq> NULL"
  shows "\<exists>m'. str_toupper m s = Some m' \<and>
    cstr m' s (map (\<lambda>c. if 97 \<le> unat c \<and> unat c \<le> 122 then c - 32 else c) xs) \<and>
    (\<forall>a. \<not> (s \<le> a \<and> a < s + length xs) \<longrightarrow> m' a = m a)"
proof -
  have "toupper = (\<lambda>c. if 97 \<le> unat c \<and> unat c \<le> 122 then c - 32 else c)"
    by (simp add: toupper_def islower_iff fun_eq_iff)
  then show ?thesis using str_toupper_loop_cstr [OF assms(1)] assms(2) by (simp add: str_toupper_def)
qed

lemma str_toupper_correct_example:
  "\<exists>m'. str_toupper ((\<lambda>a. 0)(8 := 97, 9 := 66, 10 := 123, 12 := 98)) 8 = Some m' \<and>
     cstr m' 8 [65, 66, 123] \<and> m' 12 = 98"
proof -
  let ?m = "(\<lambda>a. 0)(8 := 97, 9 := 66, 10 := 123, 12 := 98)"
  obtain m' where "str_toupper ?m 8 = Some m'"
    "cstr m' 8 (map (\<lambda>c. if 97 \<le> unat c \<and> unat c \<le> 122 then c - 32 else c) [97, 66, 123])"
    "\<forall>a. \<not> (8 \<le> a \<and> a < 8 + length [97, 66, 123]) \<longrightarrow> m' a = ?m a"
    using str_toupper_correct [of ?m 8 "[97, 66, 123]"] by auto
  then show ?thesis by (intro exI [of _ m']) simp
qed

section \<open>Splitting\<close>

lemma strchr_found:
  "cstr m s (p @ c # q) \<Longrightarrow> c \<notin> set p \<Longrightarrow> strchr m s c = Some (Some (s + length p))"
proof (induction p arbitrary: s)
  case Nil
  then show ?case by (simp add: strchr.simps)
next
  case (Cons x p)
  then have "strchr m (Suc s) c = Some (Some (Suc s + length p))" by simp
  then show ?case using Cons.prems by (auto simp: strchr.simps [of m s])
qed

lemma strchr_none: "cstr m s xs \<Longrightarrow> c \<notin> set xs \<Longrightarrow> c \<noteq> 0 \<Longrightarrow> strchr m s c = Some None"
  by (induction xs arbitrary: s) (auto simp: strchr.simps)

lemma cstr_drop: "cstr m s (p @ q) \<Longrightarrow> cstr m (s + length p) q"
proof (induction p arbitrary: s)
  case (Cons x p)
  then show ?case using Cons.IH [of "Suc s"] by simp
qed simp

text \<open>
  \<open>str_split\<close> at the first separator: the part before it and the part after it are written to
  the two buffers, without a terminator, when the buffers are clear of the string and of each
  other; without a separator it returns \<open>-1\<close> and writes nothing.
\<close>

lemma str_split_correct:
  assumes s: "cstr m str xs" and ch: "ch \<noteq> 0"
    and clear: "str + length xs < str1" "str1 + length xs \<le> str2"
  shows "(ch \<notin> set xs \<longrightarrow> str_split m str ch str1 str2 = Some (- 1, m)) \<and>
    (\<forall>p q. xs = p @ ch # q \<longrightarrow> ch \<notin> set p \<longrightarrow>
       (\<exists>m'. str_split m str ch str1 str2 = Some (1, m') \<and>
         (\<forall>i<length p. m' (str1 + i) = p ! i) \<and> (\<forall>i<length q. m' (str2 + i) = q ! i) \<and>
         m' (str1 + length p) = m (str1 + length p) \<and> m' (str2 + length q) = m (str2 + length q)))"
proof (intro conjI impI allI)
  assume "ch \<notin> set xs"
  then show "str_split m str ch str1 str2 = Some (- 1, m)" using strchr_none [OF s _ ch] by (simp add: str_split_def)
next
  fix p q assume xs: "xs = p @ ch # q" and p: "ch \<notin> set p"
  have found: "strchr m str ch = Some (Some (str + length p))" using strchr_found s p xs by simp
  let ?m1 = "strncpy m str1 str (length p)"
  have m1: "?m1 = (\<lambda>a. if str1 \<le> a \<and> a < str1 + length p then (if a - str1 < length xs then xs ! (a - str1) else 0) else m a)"
    by (rule strncpy_eq [OF s]) (use clear in simp)
  have s1: "cstr ?m1 str xs" using s clear unfolding m1 cstr_iff by auto
  have q1: "cstr ?m1 (str + length p + 1) q" using cstr_drop [of ?m1 str "p @ [ch]" q] s1 xs by simp
  let ?m2 = "strncpy ?m1 str2 (str + length p + 1) (length q)"
  have m2: "?m2 = (\<lambda>a. if str2 \<le> a \<and> a < str2 + length q then (if a - str2 < length q then q ! (a - str2) else 0) else ?m1 a)"
    by (rule strncpy_eq [OF q1]) (use clear xs in simp)
  have "str_split m str ch str1 str2 = Some (1, ?m2)"
    using found strlen_cstr [OF s1] xs by (simp add: str_split_def Let_def)
  moreover have "?m2 (str1 + i) = p ! i" if "i < length p" for i
    using that clear xs unfolding m2 by (simp add: m1 nth_append)
  moreover have "?m2 (str2 + i) = q ! i" if "i < length q" for i using that unfolding m2 by simp
  moreover have "?m2 (str1 + length p) = m (str1 + length p)" "?m2 (str2 + length q) = m (str2 + length q)"
    using clear xs unfolding m2 by (simp_all add: m1)
  ultimately show "\<exists>m'. str_split m str ch str1 str2 = Some (1, m') \<and>
         (\<forall>i<length p. m' (str1 + i) = p ! i) \<and> (\<forall>i<length q. m' (str2 + i) = q ! i) \<and>
         m' (str1 + length p) = m (str1 + length p) \<and> m' (str2 + length q) = m (str2 + length q)" by blast
qed

lemma str_split_example:
  "\<exists>m'. str_split ((\<lambda>a. 0)(0 := 97, 1 := 47, 2 := 98, 21 := 9)) 0 47 20 30 = Some (1, m') \<and>
     m' 20 = 97 \<and> m' 30 = 98 \<and> m' 21 = 9"
proof -
  let ?m = "(\<lambda>a. 0)(0 := 97, 1 := 47, 2 := 98, 21 := 9) :: bmem"
  have "\<forall>p q. [97, 47, 98] = p @ 47 # q \<longrightarrow> 47 \<notin> set p \<longrightarrow>
      (\<exists>m'. str_split ?m 0 47 20 30 = Some (1, m') \<and>
         (\<forall>i<length p. m' (20 + i) = p ! i) \<and> (\<forall>i<length q. m' (30 + i) = q ! i) \<and>
         m' (20 + length p) = ?m (20 + length p) \<and> m' (30 + length q) = ?m (30 + length q))"
    using str_split_correct [of ?m 0 "[97, 47, 98]" 47 20 30] by simp
  from this [rule_format, of "[97]" "[98]"] show ?thesis by auto
qed

end
