(* ===== verification/Ktime.thy ===== *)
theory Ktime
  imports Prelude "HOL-Library.Signed_Division"
begin

text \<open>
  The calendar arithmetic of \<^verbatim>\<open>src/timer/time.c\<close>. The fields of \<^verbatim>\<open>struct tm\<close> are \<^verbatim>\<open>int\<close>, and so
  are the products of the function; \<open>wrap32\<close> is the two's complement result of a 32-bit operation.
  The sums go into a 64-bit \<^verbatim>\<open>time_t\<close>, which the values here cannot overflow.
\<close>

record tm =
  tm_sec :: int
  tm_min :: int
  tm_hour :: int
  tm_mday :: int
  tm_mon :: int
  tm_year :: int
  tm_wday :: int
  tm_yday :: int
  tm_isdst :: int

definition wrap32 :: "int \<Rightarrow> int" where
  "wrap32 x = (x + 2 ^ 31) mod 2 ^ 32 - 2 ^ 31"

definition MINUTE :: int where "MINUTE = 60"
definition HOUR :: int where "HOUR = 60 * MINUTE"
definition DAY :: int where "DAY = 24 * HOUR"
definition YEAR :: int where "YEAR = 365 * DAY"

definition month :: "int list" where
  "month = [0, DAY * 31, DAY * (31+29), DAY * (31+29+31), DAY * (31+29+31+30),
     DAY * (31+29+31+30+31), DAY * (31+29+31+30+31+30), DAY * (31+29+31+30+31+30+31),
     DAY * (31+29+31+30+31+30+31+31), DAY * (31+29+31+30+31+30+31+31+30),
     DAY * (31+29+31+30+31+30+31+31+30+31), DAY * (31+29+31+30+31+30+31+31+30+31+30)]"

definition kernel_mktime :: "tm \<Rightarrow> int res" where
  "kernel_mktime tm =
     (let year = wrap32 (tm_year tm - 1970);
          r0 = wrap32 (wrap32 (YEAR * year) + wrap32 (DAY * (wrap32 (year + 1) sdiv 4)))
      in if tm_mon tm < 0 then Inl OutOfBounds
         else kbind (kget month (nat (tm_mon tm))) (\<lambda>m.
           let r1 = r0 + m;
               r2 = (if tm_mon tm > 1 \<and> wrap32 (year + 2) smod 4 \<noteq> 0 then r1 - DAY else r1);
               r3 = r2 + wrap32 (DAY * wrap32 (tm_mday tm - 1));
               r4 = r3 + wrap32 (HOUR * tm_hour tm);
               r5 = r4 + wrap32 (MINUTE * tm_min tm)
           in Inr (r5 + tm_sec tm)))"

definition mktime :: "tm \<Rightarrow> int res" where
  "mktime tp = kernel_mktime tp"

section \<open>The Gregorian calendar\<close>

definition leap :: "nat \<Rightarrow> bool" where
  "leap y \<longleftrightarrow> 4 dvd y \<and> (\<not> 100 dvd y \<or> 400 dvd y)"

definition month_days :: "nat \<Rightarrow> int list" where
  "month_days y = [31, if leap y then 29 else 28, 31, 30, 31, 30, 31, 31, 30, 31, 30, 31]"

definition year_days :: "nat \<Rightarrow> int" where
  "year_days y = sum_list (month_days y)"

text \<open>Seconds since 1 January 1970: the days of the years and months before, summed up.\<close>

definition epoch_days :: "nat \<Rightarrow> nat \<Rightarrow> int \<Rightarrow> int" where
  "epoch_days y mon mday = (\<Sum>i = 1970..<y. year_days i) + sum_list (take mon (month_days y)) + (mday - 1)"

definition epoch_seconds :: "nat \<Rightarrow> nat \<Rightarrow> int \<Rightarrow> int \<Rightarrow> int \<Rightarrow> int \<Rightarrow> int" where
  "epoch_seconds y mon mday h mi s = 86400 * epoch_days y mon mday + 3600 * h + 60 * mi + s"

lemma year_days_eq: "year_days y = (if leap y then 366 else 365)"
  by (simp add: year_days_def month_days_def)

lemma leap_between: "1970 \<le> y \<Longrightarrow> y < 2100 \<Longrightarrow> leap y \<longleftrightarrow> y mod 4 = 0"
proof -
  assume y: "1970 \<le> y" "y < 2100"
  have "y = 2000" if d: "100 dvd y"
  proof -
    obtain k where "y = 100 * k" using d by (rule dvdE)
    moreover have "19 < k" "k < 21" using y \<open>y = 100 * k\<close> by linarith+
    ultimately show ?thesis by simp
  qed
  moreover have "400 dvd (2000 :: nat)" by simp
  ultimately have "\<not> 100 dvd y \<or> 400 dvd y" by metis
  then show ?thesis by (simp add: leap_def dvd_eq_mod_eq_0)
qed

lemma leap_shift: "((1970 + y) mod 4 = 0) \<longleftrightarrow> ((y + 2) mod 4 = (0 :: nat))"
  by presburger

lemma days_before_year:
  assumes "y \<le> 130"
  shows "(\<Sum>i = 1970..<1970 + y. year_days i) = 365 * int y + int ((y + 1) div 4)"
  using assms
proof (induction y)
  case (Suc y)
  have "leap (1970 + y) \<longleftrightarrow> (y + 2) mod 4 = 0"
    using leap_between [of "1970 + y"] Suc.prems leap_shift [of y] by simp
  moreover have "(Suc y + 1) div 4 = (y + 1) div 4 + (if (y + 2) mod 4 = 0 then 1 else 0)" by presburger
  moreover have "(\<Sum>i = 1970..<1970 + Suc y. year_days i) = (\<Sum>i = 1970..<1970 + y. year_days i) + year_days (1970 + y)"
    using sum.atLeastLessThan_Suc [of 1970 "1970 + y" year_days] by simp
  ultimately show ?case using Suc by (simp add: year_days_eq)
qed simp

lemma month_days_before:
  assumes "mon < 12"
  shows "86400 * sum_list (take mon (month_days y)) = month ! mon - (if mon > 1 \<and> \<not> leap y then DAY else 0)"
proof -
  have "mon \<in> {0, 1, 2, 3, 4, 5, 6, 7, 8, 9, 10, 11}" using assms by simp presburger
  then show ?thesis
    by (elim insertE emptyE) (simp_all add: month_days_def month_def DAY_def HOUR_def MINUTE_def)
qed

lemma wrap32_id: "- (2 ^ 31) \<le> x \<Longrightarrow> x < 2 ^ 31 \<Longrightarrow> wrap32 x = x"
  by (simp add: wrap32_def)

lemma wrap32_over: "2 ^ 31 \<le> x \<Longrightarrow> x < 2 ^ 32 \<Longrightarrow> wrap32 x = x - 2 ^ 32"
proof -
  assume "2 ^ 31 \<le> x" "x < 2 ^ 32"
  then have "(x + 2 ^ 31) mod 2 ^ 32 = x + 2 ^ 31 - 2 ^ 32" by (subst mod_pos_geq) auto
  then show ?thesis by (simp add: wrap32_def)
qed

lemma wrap32_add: "wrap32 (wrap32 a + wrap32 b) = wrap32 (a + b)"
proof -
  have "(wrap32 a + wrap32 b + 2 ^ 31) mod 2 ^ 32 = (a + b + 2 ^ 31) mod 2 ^ 32"
  proof -
    have "wrap32 a + wrap32 b + 2 ^ 31 = (a + 2 ^ 31) mod 2 ^ 32 + (b + 2 ^ 31) mod 2 ^ 32 - 2 ^ 31"
      by (simp add: wrap32_def)
    also have "\<dots> mod 2 ^ 32 = ((a + 2 ^ 31) + (b + 2 ^ 31) - 2 ^ 31) mod 2 ^ 32" 
      by (rule mod_diff_cong [OF mod_add_cong [OF mod_mod_trivial mod_mod_trivial] refl])
    also have "(a + 2 ^ 31) + (b + 2 ^ 31) - 2 ^ 31 = a + b + 2 ^ 31" by simp
    finally show ?thesis .
  qed
  then show ?thesis by (simp add: wrap32_def)
qed

lemma kernel_mktime_eq:
  fixes y mon :: nat
  assumes y: "y \<le> 129" and mon: "mon < 12"
    and t: "1 \<le> tm_mday t" "tm_mday t \<le> 31" "0 \<le> tm_hour t" "tm_hour t < 24" "0 \<le> tm_min t" "tm_min t < 60"
    and ty: "tm_year t = int (1970 + y)" and tmon: "tm_mon t = int mon"
  shows "kernel_mktime t = Inr (wrap32 (86400 * (\<Sum>i = 1970..<1970 + y. year_days i))
     + 86400 * sum_list (take mon (month_days (1970 + y))) + DAY * (tm_mday t - 1)
     + HOUR * tm_hour t + MINUTE * tm_min t + tm_sec t)"
proof -
  have yr: "wrap32 (tm_year t - 1970) = int y" using y ty by (simp add: wrap32_id)
  have "wrap32 (int y + 1) sdiv 4 = int ((y + 1) div 4)"
    using y by (simp add: wrap32_id signed_divide_int_def sgn_if zdiv_int)
  moreover have "YEAR * int y + DAY * int ((y + 1) div 4) = 86400 * (\<Sum>i = 1970..<1970 + y. year_days i)"
    using days_before_year [of y] y by (simp add: YEAR_def DAY_def HOUR_def MINUTE_def)
  ultimately have r0: "wrap32 (wrap32 (YEAR * int y) + wrap32 (DAY * (wrap32 (int y + 1) sdiv 4)))
      = wrap32 (86400 * (\<Sum>i = 1970..<1970 + y. year_days i))"
    by (simp add: wrap32_add)
  have "wrap32 (int y + 2) smod 4 = int ((y + 2) mod 4)"
    using y by (simp add: wrap32_id signed_modulo_int_def signed_divide_int_def sgn_if zmod_int minus_div_mult_eq_mod add.commute)
  then have lp: "wrap32 (int y + 2) smod 4 \<noteq> 0 \<longleftrightarrow> \<not> leap (1970 + y)"
    using leap_between [of "1970 + y"] leap_shift [of y] y by simp
  have w: "wrap32 (DAY * wrap32 (tm_mday t - 1)) = DAY * (tm_mday t - 1)"
    "wrap32 (HOUR * tm_hour t) = HOUR * tm_hour t" "wrap32 (MINUTE * tm_min t) = MINUTE * tm_min t"
    using t by (simp_all add: wrap32_id DAY_def HOUR_def MINUTE_def)
  have m: "month ! mon - (if mon > 1 \<and> \<not> leap (1970 + y) then DAY else 0)
      = 86400 * sum_list (take mon (month_days (1970 + y)))"
    using month_days_before [OF mon] by simp
  have len: "mon < length month" using mon by (simp add: month_def)
  show ?thesis
    unfolding kernel_mktime_def Let_def yr r0 w tmon
    using m len by (cases "leap (1970 + y)"; cases "mon > 1") (simp_all add: lp)
qed

text \<open>
  C31. \<open>mktime\<close> agrees with the Gregorian calendar (the days of all years and months before the date,
  summed up) for every date from 1970 to the end of 2038, and from 2039 to 2099 it is short by
  \<open>2 ^ 32\<close> seconds: the 32-bit product of the year overflows.
\<close>

theorem mktime_correct:
  assumes "1970 \<le> y" and "y \<le> 2099" and "mon < 12"
    and "1 \<le> tm_mday t" "tm_mday t \<le> 31" "0 \<le> tm_hour t" "tm_hour t < 24" "0 \<le> tm_min t" "tm_min t < 60"
    and "tm_year t = int y" and "tm_mon t = int mon"
  shows "mktime t = Inr (epoch_seconds y mon (tm_mday t) (tm_hour t) (tm_min t) (tm_sec t)
     - (if y \<le> 2038 then 0 else 2 ^ 32))"
proof -
  define k where "k = y - 1970"
  have y: "y = 1970 + k" and k: "k \<le> 129" using assms(1,2) by (simp_all add: k_def)
  have "(\<Sum>i = 1970..<1970 + k. year_days i) = 365 * int k + int ((k + 1) div 4)"
    using days_before_year [of k] k by simp
  moreover have "365 * int k + int ((k + 1) div 4) < 24856" if "k \<le> 68"
  proof -
    have "(k + 1) div 4 \<le> 17" using that by simp
    then show ?thesis using that by linarith
  qed
  moreover have "24856 \<le> 365 * int k + int ((k + 1) div 4)" if "\<not> k \<le> 68" using that by linarith
  moreover have "365 * int k + int ((k + 1) div 4) < 49711"
  proof -
    have "(k + 1) div 4 \<le> 32" using k by simp
    then show ?thesis using k by linarith
  qed
  ultimately have w: "wrap32 (86400 * (\<Sum>i = 1970..<1970 + k. year_days i)) =
      86400 * (\<Sum>i = 1970..<1970 + k. year_days i) - (if k \<le> 68 then 0 else 2 ^ 32)"
    by (cases "k \<le> 68") (simp_all add: wrap32_id wrap32_over)
  have "mktime t = Inr (wrap32 (86400 * (\<Sum>i = 1970..<1970 + k. year_days i))
     + 86400 * sum_list (take mon (month_days (1970 + k))) + DAY * (tm_mday t - 1)
     + HOUR * tm_hour t + MINUTE * tm_min t + tm_sec t)"
    unfolding mktime_def by (rule kernel_mktime_eq [OF k assms(3-9) _ assms(11)]) (use assms(10) y in simp)
  also have "\<dots> = Inr (epoch_seconds y mon (tm_mday t) (tm_hour t) (tm_min t) (tm_sec t)
     - (if y \<le> 2038 then 0 else 2 ^ 32))"
    unfolding w y by (simp add: epoch_seconds_def epoch_days_def DAY_def HOUR_def MINUTE_def algebra_simps)
  finally show ?thesis .
qed

theorem mktime_correct_witness:
  "mktime \<lparr>tm_sec = 7, tm_min = 14, tm_hour = 3, tm_mday = 19, tm_mon = 0, tm_year = 2038,
     tm_wday = 0, tm_yday = 0, tm_isdst = 0\<rparr> = Inr 2147483647"
proof -
  let ?t = "\<lparr>tm_sec = 7, tm_min = 14, tm_hour = 3, tm_mday = 19, tm_mon = 0, tm_year = 2038,
     tm_wday = 0, tm_yday = 0, tm_isdst = 0\<rparr>"
  have "mktime ?t = Inr (epoch_seconds 2038 0 19 3 14 7)"
    using mktime_correct [of 2038 0 ?t] by simp
  also have "epoch_seconds 2038 0 19 3 14 7 = 2147483647"
    using days_before_year [of 68] by (simp add: epoch_seconds_def epoch_days_def)
  finally show ?thesis .
qed

end
