(* ===== verification/Lock.thy ===== *)
theory Lock
  imports Prelude
begin

text \<open>
  The spin lock of \<^verbatim>\<open>src/kernel/lock/spin_lock.c\<close> over the atomic exchange of
  \<^verbatim>\<open>src/kernel/lock/atomic.S\<close> (\<^verbatim>\<open>amoswap.w\<close>), and the interleavings of any number of harts
  that use one lock: each exchange is one step.
\<close>

section \<open>The operations\<close>

text \<open>\<^verbatim>\<open>spin_atomic_lock(addr, v)\<close>: the word read and the word stored.\<close>

definition spin_atomic_lock :: "u32 \<Rightarrow> u32 \<Rightarrow> u32 \<times> u32" where
  "spin_atomic_lock state v = (state, v)"

text \<open>
  One turn of the loop of \<^verbatim>\<open>spin_lock\<close>: whether the loop is left, and the new state. While no
  other hart runs, a turn that fails repeats for ever.
\<close>

definition spin_lock_turn :: "u32 \<Rightarrow> bool \<times> u32" where
  "spin_lock_turn state = (case spin_atomic_lock state 1 of (old, state') \<Rightarrow> (old = 0, state'))"

definition spin_lock :: "u32 \<Rightarrow> u32 res" where
  "spin_lock state = (case spin_lock_turn state of (True, state') \<Rightarrow> Inr state' | (False, _) \<Rightarrow> Inl Hang)"

definition spin_unlock :: "u32 \<Rightarrow> u32" where
  "spin_unlock state = snd (spin_atomic_lock state 0)"

lemma spin_lock_free [simp]: "spin_lock 0 = Inr 1"
  by (simp add: spin_lock_def spin_lock_turn_def spin_atomic_lock_def)

lemma spin_lock_held: "state \<noteq> 0 \<Longrightarrow> spin_lock state = Inl Hang"
  by (simp add: spin_lock_def spin_lock_turn_def spin_atomic_lock_def)

lemma spin_unlock_free [simp]: "spin_unlock state = 0"
  by (simp add: spin_unlock_def spin_atomic_lock_def)

section \<open>Harts\<close>

text \<open>Where a hart is: outside, in the loop of \<^verbatim>\<open>spin_lock\<close>, or between \<^verbatim>\<open>spin_lock\<close> and \<^verbatim>\<open>spin_unlock\<close>.\<close>

datatype hpc = Outside | Spinning | Holding

record lstate =
  lock_word :: u32
  harts :: "hpc list"

inductive lock_step :: "lstate \<Rightarrow> lstate \<Rightarrow> bool" where
  enter: "i < length (harts s) \<Longrightarrow> harts s ! i = Outside \<Longrightarrow>
    lock_step s (s\<lparr>harts := (harts s)[i := Spinning]\<rparr>)"
| turn: "i < length (harts s) \<Longrightarrow> harts s ! i = Spinning \<Longrightarrow> spin_lock_turn (lock_word s) = (got, w) \<Longrightarrow>
    lock_step s \<lparr>lock_word = w, harts = (harts s)[i := if got then Holding else Spinning]\<rparr>"
| leave: "i < length (harts s) \<Longrightarrow> harts s ! i = Holding \<Longrightarrow>
    lock_step s \<lparr>lock_word = spin_unlock (lock_word s), harts = (harts s)[i := Outside]\<rparr>"

inductive_cases lock_stepE: "lock_step s t"

definition lock_init :: "lstate \<Rightarrow> bool" where
  "lock_init s \<longleftrightarrow> lock_word s = 0 \<and> (\<forall>h\<in>set (harts s). h = Outside)"

text \<open>The word is 0 when nobody holds the lock and 1 when exactly one hart does.\<close>

definition lock_inv :: "lstate \<Rightarrow> bool" where
  "lock_inv s \<longleftrightarrow>
     (\<forall>i<length (harts s). \<forall>j<length (harts s). harts s ! i = Holding \<longrightarrow> harts s ! j = Holding \<longrightarrow> i = j) \<and>
     (lock_word s = 0 \<longleftrightarrow> (\<forall>i<length (harts s). harts s ! i \<noteq> Holding))"

lemma lock_inv_init: "lock_init s \<Longrightarrow> lock_inv s"
  unfolding lock_init_def lock_inv_def by (metis hpc.distinct(3) nth_mem)

lemma lock_inv_step: "lock_inv s \<Longrightarrow> lock_step s t \<Longrightarrow> lock_inv t"
proof (elim lock_stepE)
  fix i assume "lock_inv s" "t = s\<lparr>harts := (harts s)[i := Spinning]\<rparr>" "i < length (harts s)" "harts s ! i = Outside"
  moreover from this have "(harts t ! j = Holding) = (harts s ! j = Holding)" for j
    by (cases "j = i") (auto simp: nth_list_update)
  ultimately show "lock_inv t" by (simp add: lock_inv_def)
next
  fix i got w assume s: "lock_inv s" "t = \<lparr>lock_word = w, harts = (harts s)[i := if got then Holding else Spinning]\<rparr>"
    "i < length (harts s)" "harts s ! i = Spinning" "spin_lock_turn (lock_word s) = (got, w)"
  then have w: "w = 1" "got \<longleftrightarrow> lock_word s = 0" by (auto simp: spin_lock_turn_def spin_atomic_lock_def)
  show "lock_inv t"
  proof (cases got)
    case True
    then have "\<forall>j<length (harts s). harts s ! j \<noteq> Holding" using s(1) w by (simp add: lock_inv_def)
    then have "(harts t ! j = Holding) = (j = i)" if "j < length (harts s)" for j
      using s(2,3) True that by (auto simp: nth_list_update)
    then show ?thesis using s(2,3) w(1) by (auto simp: lock_inv_def)
  next
    case False
    then have "(harts t ! j = Holding) = (harts s ! j = Holding)" for j
      using s by (cases "j = i") (auto simp: nth_list_update)
    then show ?thesis using s(1,2) w False by (simp add: lock_inv_def)
  qed
next
  fix i assume s: "lock_inv s" "t = \<lparr>lock_word = 0, harts = (harts s)[i := Outside]\<rparr>"
    "i < length (harts s)" "harts s ! i = Holding"
  then show "lock_inv t" unfolding lock_inv_def by (auto simp: nth_list_update)
qed

interpretation spin: invariant_system lock_init lock_step lock_inv
  by unfold_locales (auto intro: lock_inv_init lock_inv_step)

text \<open>
  C26. Mutual exclusion and progress of the spin lock: in every reachable interleaving of any number of harts
  at most one hart is between \<open>spin_lock\<close> and \<open>spin_unlock\<close>, and the lock word is 0 exactly when
  none is, so that the next exchange of a spinning hart then succeeds.
\<close>

theorem spin_lock_exclusive:
  assumes "reach lock_init lock_step s"
  shows "(\<forall>i<length (harts s). \<forall>j<length (harts s). harts s ! i = Holding \<longrightarrow> harts s ! j = Holding \<longrightarrow> i = j) \<and>
     ((\<forall>i<length (harts s). harts s ! i \<noteq> Holding) \<longleftrightarrow> spin_lock (lock_word s) = Inr 1)"
  using spin.reach_inv [OF assms] spin_lock_held [of "lock_word s"] unfolding lock_inv_def
  by (cases "lock_word s = 0") auto

theorem spin_lock_exclusive_witness:
  "reach lock_init lock_step \<lparr>lock_word = 1, harts = [Holding, Outside]\<rparr> \<and> spin_lock 1 \<noteq> Inr 1"
proof -
  let ?a = "\<lparr>lock_word = 0, harts = [Outside, Outside]\<rparr>"
  let ?b = "\<lparr>lock_word = 0, harts = [Spinning, Outside]\<rparr>"
  let ?c = "\<lparr>lock_word = 1, harts = [Holding, Outside]\<rparr>"
  have "reach lock_init lock_step ?a" by (rule reach_init) (simp add: lock_init_def)
  moreover have "lock_step ?a ?b" using enter [of 0 ?a] by simp
  moreover have "lock_step ?b ?c"
    using turn [of 0 ?b True 1] by (simp add: spin_lock_turn_def spin_atomic_lock_def)
  ultimately have r: "reach lock_init lock_step ?c" by (blast intro: reach_step)
  then show ?thesis using spin_lock_exclusive [OF r] by auto
qed

end
