(* ===== verification/Printf.thy ===== *)
theory Printf
  imports Kstring Lock "HOL-Library.Signed_Division"
begin

text \<open>
  The formatted output of \<^verbatim>\<open>src/print/printf.c\<close> and \<^verbatim>\<open>src/print/printk.c\<close>. A format is the list of
  its bytes without the terminator. Each variadic argument is one 64-bit slot, of which \<^verbatim>\<open>va_arg\<close>
  with type \<^verbatim>\<open>int\<close> takes the low half; strings are read from a byte memory. The output buffer is
  a map from offsets to bytes, \<open>None\<close> for a NULL \<^verbatim>\<open>out\<close>. Lengths stay below \<open>2 ^ 31\<close>, so that the \<^verbatim>\<open>int\<close> result is the
  position.
\<close>

section \<open>The conversions\<close>

record pfst =
  pf_out :: "bmem option"
  pf_pos :: nat
  pf_args :: "u64 list"
  pf_format :: bool
  pf_long :: bool

definition put_ch :: "nat \<Rightarrow> nat \<Rightarrow> u8 \<Rightarrow> bmem option \<Rightarrow> bmem option" where
  "put_ch n pos c out = map_option (\<lambda>b. if pos < n then b(pos := c) else b) out"

definition emit :: "nat \<Rightarrow> u8 \<Rightarrow> pfst \<Rightarrow> pfst" where
  "emit n c s = s\<lparr>pf_out := put_ch n (pf_pos s) c (pf_out s), pf_pos := pf_pos s + 1\<rparr>"

definition va_arg :: "pfst \<Rightarrow> (u64 \<times> pfst) res" where
  "va_arg s = (case pf_args s of [] \<Rightarrow> Inl OutOfBounds | a # as \<Rightarrow> Inr (a, s\<lparr>pf_args := as\<rparr>))"

text \<open>\<^verbatim>\<open>longarg ? va_arg(vl, long) : va_arg(vl, int)\<close> as a long.\<close>

definition arg_num :: "bool \<Rightarrow> u64 \<Rightarrow> int" where
  "arg_num l a = (if l then sint a else sint (ucast a :: u32))"

definition conv_done :: "pfst \<Rightarrow> pfst" where
  "conv_done s = s\<lparr>pf_long := False, pf_format := False\<rparr>"

definition hex_digit :: "int \<Rightarrow> u8" where
  "hex_digit d = word_of_int (if d < 10 then 48 + d else 97 + d - 10)"

fun emit_hex :: "nat \<Rightarrow> int \<Rightarrow> nat \<Rightarrow> pfst \<Rightarrow> pfst" where
  "emit_hex n num 0 s = s"
| "emit_hex n num (Suc i) s = emit_hex n num i (emit n (hex_digit (num div 2 ^ (4 * i) mod 16)) s)"

definition fmt_x :: "nat \<Rightarrow> pfst \<Rightarrow> pfst res" where
  "fmt_x n s = kbind (va_arg s) (\<lambda>(a, s).
     Inr (conv_done (emit_hex n (arg_num (pf_long s) a) (2 * (if pf_long s then 8 else 4)) s)))"

definition fmt_p :: "nat \<Rightarrow> pfst \<Rightarrow> pfst res" where
  "fmt_p n s = fmt_x n (emit n 120 (emit n 48 (s\<lparr>pf_long := True\<rparr>)))"

definition neg64 :: "int \<Rightarrow> int" where
  "neg64 x = (if x = - (2 ^ 63) then x else - x)"

function count_digits :: "int \<Rightarrow> nat" where
  "count_digits nn = (if nn sdiv 10 = 0 then 1 else Suc (count_digits (nn sdiv 10)))"
  by pat_completeness auto
termination
  by (relation "measure (\<lambda>nn. nat \<bar>nn\<bar>)") (auto simp: signed_divide_int_def abs_mult sgn_if)

declare count_digits.simps [simp del]

fun put_digits :: "nat \<Rightarrow> nat \<Rightarrow> int \<Rightarrow> nat \<Rightarrow> bmem option \<Rightarrow> bmem option" where
  "put_digits n pos num 0 out = out"
| "put_digits n pos num (Suc i) out =
     put_digits n pos (num sdiv 10) i (put_ch n (pos + i) (word_of_int (48 + num smod 10)) out)"

definition fmt_d :: "nat \<Rightarrow> pfst \<Rightarrow> pfst res" where
  "fmt_d n s = kbind (va_arg s) (\<lambda>(a, s).
     let num = arg_num (pf_long s) a;
         s1 = (if num < 0 then emit n 45 s else s);
         num = (if num < 0 then neg64 num else num);
         digits = count_digits num
     in Inr (conv_done (s1\<lparr>pf_out := put_digits n (pf_pos s1) num digits (pf_out s1), pf_pos := pf_pos s1 + digits\<rparr>)))"

definition fmt_s :: "bmem \<Rightarrow> nat \<Rightarrow> pfst \<Rightarrow> pfst res" where
  "fmt_s m n s = kbind (va_arg s) (\<lambda>(a, s).
     case strlen m (unat a) of
       None \<Rightarrow> Inl OutOfBounds
     | Some k \<Rightarrow> Inr (conv_done (fold (emit n) (map m [unat a..<unat a + k]) s)))"

text \<open>\<^verbatim>\<open>%c\<close> takes its argument only when it stores the character.\<close>

definition fmt_c :: "nat \<Rightarrow> pfst \<Rightarrow> pfst res" where
  "fmt_c n s =
     (if pf_out s \<noteq> None \<and> pf_pos s < n
      then kbind (va_arg s) (\<lambda>(a, s). Inr (conv_done (emit n (ucast a) s)))
      else Inr (conv_done (s\<lparr>pf_pos := pf_pos s + 1\<rparr>)))"

definition fmt_step :: "bmem \<Rightarrow> nat \<Rightarrow> u8 \<Rightarrow> pfst \<Rightarrow> pfst res" where
  "fmt_step m n c s =
     (if pf_format s then
        (if c = 108 then Inr (s\<lparr>pf_long := True\<rparr>)
         else if c = 112 then fmt_p n s
         else if c = 120 then fmt_x n s
         else if c = 100 then fmt_d n s
         else if c = 115 then fmt_s m n s
         else if c = 99 then fmt_c n s
         else Inr s)
      else if c = 37 then Inr (s\<lparr>pf_format := True\<rparr>)
      else Inr (emit n c s))"

fun fmt_loop :: "bmem \<Rightarrow> nat \<Rightarrow> u8 list \<Rightarrow> pfst \<Rightarrow> pfst res" where
  "fmt_loop m n [] s = Inr s"
| "fmt_loop m n (c # cs) s = kbind (fmt_step m n c s) (fmt_loop m n cs)"

definition terminate_out :: "nat \<Rightarrow> pfst \<Rightarrow> bmem option" where
  "terminate_out n s =
     (case pf_out s of
        None \<Rightarrow> None
      | Some b \<Rightarrow> Some (if pf_pos s < n then b(pf_pos s := 0) else if n \<noteq> 0 then b(n - 1 := 0) else b))"

definition vsnprintf :: "bmem \<Rightarrow> bmem option \<Rightarrow> nat \<Rightarrow> u8 list \<Rightarrow> u64 list \<Rightarrow> (nat \<times> bmem option) res" where
  "vsnprintf m out n s vl =
     kbind (fmt_loop m n s \<lparr>pf_out = out, pf_pos = 0, pf_args = vl, pf_format = False, pf_long = False\<rparr>)
       (\<lambda>st. Inr (pf_pos st, terminate_out n st))"

section \<open>Printing\<close>

definition BUF_SIZE :: nat where "BUF_SIZE = 1000"

text \<open>The text \<^verbatim>\<open>uart_puts\<close> sends: the bytes up to the first zero.\<close>

definition sent_text :: "bmem \<Rightarrow> nat \<Rightarrow> u8 list res" where
  "sent_text m s = (case strlen m s of None \<Rightarrow> Inl OutOfBounds | Some k \<Rightarrow> Inr (map m [s..<s + k]))"

text \<open>The result, the lock word afterwards and the text sent; a text of 999 bytes or more ends in a loop.\<close>

definition vprintf :: "bmem \<Rightarrow> u32 \<Rightarrow> u8 list \<Rightarrow> u64 list \<Rightarrow> bmem \<Rightarrow> (nat \<times> u32 \<times> u8 list) res" where
  "vprintf m lock s vl buf =
     kbind (spin_lock lock) (\<lambda>lock.
     kbind (vsnprintf m None (2 ^ 64 - 1) s vl) (\<lambda>(res, _).
       if res + 1 \<ge> BUF_SIZE then Inl Hang
       else kbind (vsnprintf m (Some buf) (res + 1) s vl) (\<lambda>(_, out).
         case out of None \<Rightarrow> Inl NullDeref
         | Some b \<Rightarrow> kbind (sent_text b 0) (\<lambda>t. Inr (res, spin_unlock lock, t)))))"

section \<open>What a format means\<close>

function dec_nat :: "nat \<Rightarrow> u8 list" where
  "dec_nat n = (if n < 10 then [of_nat (48 + n)] else dec_nat (n div 10) @ [of_nat (48 + n mod 10)])"
  by pat_completeness auto
termination by (relation "measure (\<lambda>n. n)") auto

declare dec_nat.simps [simp del]

definition dec_string :: "int \<Rightarrow> u8 list" where
  "dec_string i = (if i < 0 then 45 # dec_nat (nat (- i)) else dec_nat (nat i))"

definition hex_string :: "int \<Rightarrow> nat \<Rightarrow> u8 list" where
  "hex_string num k = map (\<lambda>i. hex_digit (num div 2 ^ (4 * i) mod 16)) (rev [0..<k])"

text \<open>
  The text a format denotes; \<open>None\<close> outside the specification: too few arguments, a string without
  terminator, or the least 64-bit integer in decimal, whose negation overflows.
\<close>

fun render :: "bmem \<Rightarrow> u8 list \<Rightarrow> bool \<Rightarrow> bool \<Rightarrow> u64 list \<Rightarrow> u8 list option" where
  "render m [] f l as = Some []"
| "render m (c # cs) f l as =
     (if \<not> f then (if c = 37 then render m cs True l as else map_option ((#) c) (render m cs False l as))
      else if c = 108 then render m cs True True as
      else if c \<notin> {112, 120, 100, 115, 99} then render m cs True l as
      else case as of [] \<Rightarrow> None
      | a # as \<Rightarrow>
        (let rest = render m cs False False as in
         if c = 112 then map_option (\<lambda>t. [48, 120] @ hex_string (sint a) 16 @ t) rest
         else if c = 120 then map_option (\<lambda>t. hex_string (arg_num l a) (if l then 16 else 8) @ t) rest
         else if c = 100 then (if arg_num l a = - (2 ^ 63) then None else map_option (\<lambda>t. dec_string (arg_num l a) @ t) rest)
         else if c = 115 then (case strlen m (unat a) of None \<Rightarrow> None
            | Some k \<Rightarrow> map_option (\<lambda>t. map m [unat a..<unat a + k] @ t) rest)
         else map_option (\<lambda>t. ucast a # t) rest))"

text \<open>No \<^verbatim>\<open>%c\<close> conversion in a format.\<close>

fun no_pc :: "u8 list \<Rightarrow> bool \<Rightarrow> bool" where
  "no_pc [] f = True"
| "no_pc (c # cs) f =
     (if f then c \<noteq> 99 \<and> no_pc cs (c \<notin> {112, 120, 100, 115}) else no_pc cs (c = 37))"

section \<open>Writing a text\<close>

definition wr :: "nat \<Rightarrow> u8 list \<Rightarrow> bmem \<Rightarrow> bmem" where
  "wr p xs b = (\<lambda>a. if p \<le> a \<and> a < p + length xs then xs ! (a - p) else b a)"

lemma wr_Nil [simp]: "wr p [] = (\<lambda>b. b)"
  by (auto simp: wr_def fun_eq_iff)

lemma wr_append: "wr (p + length xs) ys (wr p xs b) = wr p (xs @ ys) b"
proof
  fix a
  have "ys ! (a - (p + length xs)) = (xs @ ys) ! (a - p)" if "p + length xs \<le> a"
    using that by (simp add: nth_append le_diff_conv2 less_diff_conv2)
  moreover have "(xs @ ys) ! (a - p) = xs ! (a - p)" if "p \<le> a" "a < p + length xs"
    using that by (simp add: nth_append less_diff_conv2)
  ultimately show "wr (p + length xs) ys (wr p xs b) a = wr p (xs @ ys) b a"
    by (auto simp: wr_def)
qed

lemma wr_append_early: "wr p xs (wr (p + length xs) ys b) = wr p (xs @ ys) b"
proof -
  have "wr p xs (wr (p + length xs) ys b) = wr (p + length xs) ys (wr p xs b)"
    by (auto simp: wr_def fun_eq_iff)
  then show ?thesis by (simp add: wr_append)
qed

lemma wr_one: "wr p [c] b = b(p := c)"
  by (auto simp: wr_def fun_eq_iff)

text \<open>
  \<open>says s t xs\<close>: from \<open>s\<close> to \<open>t\<close> the text \<open>xs\<close> was put out; \<open>fits\<close>: there is room for it, or
  nothing is stored.
\<close>

definition fits :: "nat \<Rightarrow> pfst \<Rightarrow> u8 list \<Rightarrow> bool" where
  "fits n s xs \<longleftrightarrow> pf_out s = None \<or> pf_pos s + length xs \<le> n"

definition says :: "pfst \<Rightarrow> u8 list \<Rightarrow> pfst \<Rightarrow> bool" where
  "says s xs t \<longleftrightarrow> pf_out t = map_option (wr (pf_pos s) xs) (pf_out s) \<and> pf_pos t = pf_pos s + length xs"

lemma says_refl: "pf_out t = pf_out s \<Longrightarrow> pf_pos t = pf_pos s \<Longrightarrow> says s [] t"
  by (simp add: says_def option.map_ident)

lemma says_trans: "says s xs t \<Longrightarrow> says t ys u \<Longrightarrow> says s (xs @ ys) u"
  by (auto simp: says_def option.map_comp o_def wr_append)

lemma fits_append: "fits n s (xs @ ys) \<Longrightarrow> says s xs t \<Longrightarrow> fits n s xs \<and> fits n t ys"
  by (auto simp: fits_def says_def)

lemma emit_says: "fits n s [c] \<Longrightarrow> says s [c] (emit n c s)"
  by (cases "pf_out s") (auto simp: fits_def says_def emit_def put_ch_def wr_one)

lemma emit_sel [simp]:
  "pf_args (emit n c s) = pf_args s" "pf_format (emit n c s) = pf_format s" "pf_long (emit n c s) = pf_long s"
  by (simp_all add: emit_def)

lemma conv_done_sel [simp]:
  "pf_out (conv_done s) = pf_out s" "pf_pos (conv_done s) = pf_pos s" "pf_args (conv_done s) = pf_args s"
  "pf_format (conv_done s) = False" "pf_long (conv_done s) = False"
  by (simp_all add: conv_done_def)

lemma says_conv_done: "says s xs t \<Longrightarrow> says s xs (conv_done t)"
  by (simp add: says_def)

lemma says_args [simp]: "says (s\<lparr>pf_args := as\<rparr>) xs t = says s xs t" "says (s\<lparr>pf_long := l\<rparr>) xs t = says s xs t"
  "says (s\<lparr>pf_format := f\<rparr>) xs t = says s xs t"
  by (simp_all add: says_def)

lemma fits_args [simp]: "fits n (s\<lparr>pf_args := as\<rparr>) xs = fits n s xs" "fits n (s\<lparr>pf_long := l\<rparr>) xs = fits n s xs"
  "fits n (s\<lparr>pf_format := f\<rparr>) xs = fits n s xs"
  by (simp_all add: fits_def)

lemma fold_emit:
  "fits n s xs \<Longrightarrow> says s xs (fold (emit n) xs s) \<and> pf_args (fold (emit n) xs s) = pf_args s"
proof (induction xs arbitrary: s)
  case Nil
  then show ?case by (simp add: says_refl)
next
  case (Cons c xs)
  have c: "fits n s [c]" using Cons.prems by (auto simp: fits_def)
  note e = emit_says [OF c]
  have "fits n (emit n c s) xs" using fits_append [of n s "[c]" xs] Cons.prems e by simp
  then show ?case using Cons.IH [of "emit n c s"] says_trans [OF e] by auto
qed

lemma emit_hex_fold:
  "emit_hex n num k s = fold (emit n) (hex_string num k) s"
  by (induction k arbitrary: s) (simp_all add: hex_string_def)

fun dig :: "int \<Rightarrow> nat \<Rightarrow> u8 list" where
  "dig num 0 = []"
| "dig num (Suc i) = dig (num sdiv 10) i @ [word_of_int (48 + num smod 10)]"

lemma length_dig [simp]: "length (dig num k) = k"
  by (induction k arbitrary: num) auto

lemma put_digits_dig:
  "out = None \<or> pos + k \<le> n \<Longrightarrow> put_digits n pos num k out = map_option (wr pos (dig num k)) out"
proof (induction k arbitrary: num out)
  case 0
  then show ?case by (simp add: option.map_ident)
next
  case (Suc i)
  let ?c = "word_of_int (48 + num smod 10) :: u8"
  have "put_digits n pos num (Suc i) out = map_option (wr pos (dig (num sdiv 10) i)) (put_ch n (pos + i) ?c out)"
    using Suc.IH [of "put_ch n (pos + i) ?c out" "num sdiv 10"] Suc.prems by (auto simp: put_ch_def)
  also have "put_ch n (pos + i) ?c out = map_option (wr (pos + i) [?c]) out"
    using Suc.prems by (cases out) (simp_all add: put_ch_def wr_one)
  also have "map_option (wr pos (dig (num sdiv 10) i)) (map_option (wr (pos + i) [?c]) out)
      = map_option (wr pos (dig num (Suc i))) out"
    using wr_append_early [of pos "dig (num sdiv 10) i" "[?c]"] by (simp add: option.map_comp o_def)
  finally show ?case .
qed

lemma sdiv10: "0 \<le> num \<Longrightarrow> num sdiv 10 = num div 10" and smod10: "0 \<le> num \<Longrightarrow> num smod 10 = num mod 10" for num :: int
  by (simp_all add: signed_divide_int_def signed_modulo_int_def sgn_if minus_div_mult_eq_mod)

lemma dig_dec_nat: "dig (int k) (count_digits (int k)) = dec_nat k"
proof (induction k rule: dec_nat.induct)
  case (1 k)
  have d: "int k sdiv 10 = int (k div 10)" "int k smod 10 = int (k mod 10)"
    by (simp_all add: sdiv10 smod10 zdiv_int zmod_int)
  show ?case
  proof (cases "k < 10")
    case True
    then show ?thesis using d by (subst count_digits.simps, subst dec_nat.simps) simp
  next
    case False
    then have "k div 10 \<noteq> 0" by linarith
    then show ?thesis using 1 d False by (subst count_digits.simps, subst dec_nat.simps) simp
  qed
qed

lemma dec_nat_length: "length (dec_nat k) = count_digits (int k)"
  by (simp flip: dig_dec_nat)

section \<open>The loop prints what the format means\<close>

lemma dec_nat_nonempty: "dec_nat k \<noteq> []"
  by (subst dec_nat.simps) simp

lemma fmt_x_says:
  assumes "pf_args s = a # as" and "fits n s (hex_string (arg_num (pf_long s) a) (if pf_long s then 16 else 8))"
  shows "\<exists>t. fmt_x n s = Inr t \<and> says s (hex_string (arg_num (pf_long s) a) (if pf_long s then 16 else 8)) t \<and>
    pf_args t = as \<and> \<not> pf_format t \<and> \<not> pf_long t"
proof -
  let ?s = "s\<lparr>pf_args := as\<rparr>" and ?h = "hex_string (arg_num (pf_long s) a) (if pf_long s then 16 else 8)"
  have "says ?s ?h (fold (emit n) ?h ?s)" "pf_args (fold (emit n) ?h ?s) = as"
    using fold_emit [of n ?s ?h] assms(2) by auto
  moreover have "fmt_x n s = Inr (conv_done (fold (emit n) ?h ?s))"
    using assms(1) by (simp add: fmt_x_def va_arg_def emit_hex_fold)
  ultimately show ?thesis by (simp add: says_conv_done)
qed

lemma fmt_p_says:
  assumes "pf_args s = a # as" and "fits n s ([48, 120] @ hex_string (sint a) 16)"
  shows "\<exists>t. fmt_p n s = Inr t \<and> says s ([48, 120] @ hex_string (sint a) 16) t \<and>
    pf_args t = as \<and> \<not> pf_format t \<and> \<not> pf_long t"
proof -
  let ?s = "fold (emit n) [48, 120] (s\<lparr>pf_long := True\<rparr>)"
  have f: "says s [48, 120] ?s" "pf_args ?s = a # as" "pf_long ?s"
    using fold_emit [of n "s\<lparr>pf_long := True\<rparr>" "[48, 120]"] assms by (auto simp: fits_def)
  have "fits n ?s (hex_string (sint a) 16)" using fits_append [OF assms(2) f(1)] by simp
  then obtain t where "fmt_x n ?s = Inr t" "says ?s (hex_string (sint a) 16) t" "pf_args t = as" "\<not> pf_format t" "\<not> pf_long t"
    using fmt_x_says [of ?s a as n] f by (auto simp: arg_num_def)
  moreover have "fmt_p n s = fmt_x n ?s" by (simp add: fmt_p_def)
  ultimately show ?thesis using says_trans [OF f(1)] by auto
qed

lemma fmt_d_nat:
  assumes "fits n s (dec_nat k)"
  shows "says s (dec_nat k) (s\<lparr>pf_out := put_digits n (pf_pos s) (int k) (count_digits (int k)) (pf_out s),
    pf_pos := pf_pos s + count_digits (int k)\<rparr>)"
  using assms put_digits_dig [of "pf_out s" "pf_pos s" "count_digits (int k)" n "int k"]
  by (simp add: says_def fits_def dec_nat_length dig_dec_nat)

lemma fmt_d_says:
  assumes a: "pf_args s = a # as" and r: "arg_num (pf_long s) a \<noteq> - (2 ^ 63)"
    and f: "fits n s (dec_string (arg_num (pf_long s) a))"
  shows "\<exists>t. fmt_d n s = Inr t \<and> says s (dec_string (arg_num (pf_long s) a)) t \<and>
    pf_args t = as \<and> \<not> pf_format t \<and> \<not> pf_long t"
proof (cases "arg_num (pf_long s) a < 0")
  case True
  let ?s = "emit n 45 (s\<lparr>pf_args := as\<rparr>)" and ?k = "nat (- arg_num (pf_long s) a)"
  have ds: "dec_string (arg_num (pf_long s) a) = [45] @ dec_nat ?k" using True by (simp add: dec_string_def)
  have e: "says s [45] ?s"
    using emit_says [of n "s\<lparr>pf_args := as\<rparr>" 45] f unfolding ds by (auto simp: fits_def)
  have "fits n ?s (dec_nat ?k)" using fits_append [OF f [unfolded ds] e] by simp
  note says_trans [OF e fmt_d_nat [OF this]]
  moreover have "neg64 (arg_num (pf_long s) a) = int ?k" using True r by (simp add: neg64_def)
  ultimately show ?thesis
    using a True ds by (simp add: fmt_d_def va_arg_def Let_def says_conv_done)
next
  case False
  let ?s = "s\<lparr>pf_args := as\<rparr>" and ?k = "nat (arg_num (pf_long s) a)"
  have ds: "dec_string (arg_num (pf_long s) a) = dec_nat ?k" using False by (simp add: dec_string_def)
  have "fits n ?s (dec_nat ?k)" using f unfolding ds by simp
  from fmt_d_nat [OF this] show ?thesis
    using a False ds by (simp add: fmt_d_def va_arg_def Let_def says_conv_done)
qed

lemma fmt_s_says:
  assumes "pf_args s = a # as" and "strlen m (unat a) = Some k" and "fits n s (map m [unat a..<unat a + k])"
  shows "\<exists>t. fmt_s m n s = Inr t \<and> says s (map m [unat a..<unat a + k]) t \<and>
    pf_args t = as \<and> \<not> pf_format t \<and> \<not> pf_long t"
  using fold_emit [of n "s\<lparr>pf_args := as\<rparr>" "map m [unat a..<unat a + k]"] assms
  by (simp add: fmt_s_def va_arg_def says_conv_done)

lemma fmt_c_says:
  assumes "pf_args s = a # as" and "pf_out s \<noteq> None" and "fits n s [ucast a]"
  shows "\<exists>t. fmt_c n s = Inr t \<and> says s [ucast a] t \<and> pf_args t = as \<and> \<not> pf_format t \<and> \<not> pf_long t"
proof -
  have "pf_pos s < n" using assms(2,3) by (auto simp: fits_def)
  then show ?thesis using emit_says [of n "s\<lparr>pf_args := as\<rparr>" "ucast a"] assms
    by (simp add: fmt_c_def va_arg_def says_conv_done)
qed

definition step_ok :: "bmem \<Rightarrow> nat \<Rightarrow> u8 \<Rightarrow> u8 list \<Rightarrow> pfst \<Rightarrow> u8 list \<Rightarrow> bool" where
  "step_ok m n c cs s xs \<longleftrightarrow> (\<exists>t ys zs. fmt_step m n c s = Inr t \<and> xs = ys @ zs \<and> says s ys t \<and>
     render m cs (pf_format t) (pf_long t) (pf_args t) = Some zs \<and> (pf_out t \<noteq> None \<or> no_pc cs (pf_format t)))"

lemma says_out: "says s xs t \<Longrightarrow> (pf_out t \<noteq> None) = (pf_out s \<noteq> None)"
  by (simp add: says_def)

lemma step_okI:
  assumes "\<exists>t. fmt_step m n c s = Inr t \<and> says s ys t \<and> pf_args t = as \<and> \<not> pf_format t \<and> \<not> pf_long t"
    and "render m cs False False as = Some zs" and "pf_out s \<noteq> None \<or> no_pc cs False"
  shows "step_ok m n c cs s (ys @ zs)"
proof -
  obtain t where t: "fmt_step m n c s = Inr t" "says s ys t" "pf_args t = as" "\<not> pf_format t" "\<not> pf_long t"
    using assms(1) by blast
  have "render m cs (pf_format t) (pf_long t) (pf_args t) = Some zs" using t(3-5) assms(2) by simp
  moreover have "pf_out t \<noteq> None \<or> no_pc cs (pf_format t)" using t(2,4) assms(3) says_out by auto
  ultimately show ?thesis unfolding step_ok_def using t(1,2) by blast
qed

lemma fits_prefix: "fits n s (xs @ ys) \<Longrightarrow> fits n s xs"
  by (auto simp: fits_def)

lemma render_conv:
  assumes r: "render m (c # cs) True l args = Some xs" and c: "c \<in> {112, 120, 100, 115, 99}"
  shows "\<exists>a as zs. args = a # as \<and> render m cs False False as = Some zs"
proof (cases args)
  case Nil
  then show ?thesis using r c by auto
next
  case (Cons a as)
  then have "render m cs False False as \<noteq> None" using r c by (auto split: if_splits option.splits)
  then show ?thesis using Cons by auto
qed

lemma step_ok_conv:
  assumes r: "render m (c # cs) (pf_format s) (pf_long s) (pf_args s) = Some xs" and f: "fits n s xs"
    and pc: "pf_out s \<noteq> None \<or> no_pc (c # cs) (pf_format s)" and m: "pf_format s" "c \<in> {112, 120, 100, 115, 99}"
  shows "step_ok m n c cs s xs"
proof -
  obtain a as zs where a: "pf_args s = a # as" and z: "render m cs False False as = Some zs"
  proof -
    have "render m (c # cs) True (pf_long s) (pf_args s) = Some xs" using r m(1) by simp
    from render_conv [OF this m(2)] show ?thesis using that by auto
  qed
  have pc': "pf_out s \<noteq> None \<or> no_pc cs False" using pc m by auto
  note I = step_okI [OF _ z pc']
  consider "c = 112" | "c = 120" | "c = 100" | "c = 115" | "c = 99" using m(2) by blast
  then show ?thesis
  proof cases
    case 1
    then have xs: "xs = ([48, 120] @ hex_string (sint a) 16) @ zs" using r m(1) a z by simp
    show ?thesis unfolding xs
      by (rule I) (use 1 m(1) fmt_p_says [OF a fits_prefix [OF f [unfolded xs]]] in \<open>simp add: fmt_step_def\<close>)
  next
    case 2
    then have xs: "xs = hex_string (arg_num (pf_long s) a) (if pf_long s then 16 else 8) @ zs" using r m(1) a z by simp
    show ?thesis unfolding xs
      by (rule I) (use 2 m(1) fmt_x_says [OF a fits_prefix [OF f [unfolded xs]]] in \<open>simp add: fmt_step_def\<close>)
  next
    case 3
    then have xs: "xs = dec_string (arg_num (pf_long s) a) @ zs" and nm: "arg_num (pf_long s) a \<noteq> - (2 ^ 63)"
      using r m(1) a z by (auto split: if_splits)
    show ?thesis unfolding xs
      by (rule I) (use 3 m(1) fmt_d_says [OF a nm fits_prefix [OF f [unfolded xs]]] in \<open>simp add: fmt_step_def\<close>)
  next
    case 4
    then obtain k where k: "strlen m (unat a) = Some k" and xs: "xs = map m [unat a..<unat a + k] @ zs"
      using r m(1) a z by (auto split: option.splits)
    show ?thesis unfolding xs
      by (rule I) (use 4 m(1) fmt_s_says [OF a k fits_prefix [OF f [unfolded xs]]] in \<open>simp add: fmt_step_def\<close>)
  next
    case 5
    then have xs: "xs = [ucast a] @ zs" and o: "pf_out s \<noteq> None" using r m(1) a z pc by auto
    show ?thesis unfolding xs
      by (rule I) (use 5 m(1) fmt_c_says [OF a o fits_prefix [OF f [unfolded xs]]] in \<open>simp add: fmt_step_def\<close>)
  qed
qed

lemma step_ok_plain:
  assumes r: "render m (c # cs) (pf_format s) (pf_long s) (pf_args s) = Some xs" and f: "fits n s xs"
    and pc: "pf_out s \<noteq> None \<or> no_pc (c # cs) (pf_format s)" and m: "\<not> (pf_format s \<and> c \<in> {112, 120, 100, 115, 99})"
  shows "step_ok m n c cs s xs"
proof (cases "pf_format s \<or> c = 37")
  case True
  define t where "t = (if pf_format s then (if c = 108 then s\<lparr>pf_long := True\<rparr> else s) else s\<lparr>pf_format := True\<rparr>)"
  have "fmt_step m n c s = Inr t" using True m by (auto simp: fmt_step_def t_def)
  moreover have "says s [] t" "pf_out t = pf_out s" by (simp_all add: t_def says_refl)
  moreover have "render m cs (pf_format t) (pf_long t) (pf_args t) = Some xs"
    using True m r by (cases "pf_format s") (auto simp: t_def)
  moreover have "pf_out s \<noteq> None \<or> no_pc cs (pf_format t)"
    using True m pc by (cases "pf_format s") (auto simp: t_def)
  ultimately show ?thesis unfolding step_ok_def by (intro exI [of _ t] exI [of _ "[]"] exI [of _ xs]) simp
next
  case False
  then obtain zs where xs: "xs = [c] @ zs" and z: "render m cs False (pf_long s) (pf_args s) = Some zs" using r by auto
  have "says s [c] (emit n c s)" by (rule emit_says [OF fits_prefix [OF f [unfolded xs]]])
  moreover have "fmt_step m n c s = Inr (emit n c s)" using False by (simp add: fmt_step_def)
  moreover have "pf_out (emit n c s) \<noteq> None \<or> no_pc cs (pf_format (emit n c s))"
    using pc False says_out [OF calculation(1)] by auto
  ultimately show ?thesis unfolding step_ok_def
    using z xs False by (intro exI [of _ "emit n c s"] exI [of _ "[c]"] exI [of _ zs]) simp
qed

lemma fmt_loop_render:
  "render m cs (pf_format s) (pf_long s) (pf_args s) = Some xs \<Longrightarrow> fits n s xs \<Longrightarrow>
   pf_out s \<noteq> None \<or> no_pc cs (pf_format s) \<Longrightarrow> \<exists>t. fmt_loop m n cs s = Inr t \<and> says s xs t"
proof (induction cs arbitrary: s xs)
  case Nil
  then show ?case by (simp add: says_refl)
next
  case (Cons c cs)
  have "step_ok m n c cs s xs"
    using step_ok_conv [OF Cons.prems] step_ok_plain [OF Cons.prems] by blast
  then obtain t ys zs where t: "fmt_step m n c s = Inr t" "xs = ys @ zs" "says s ys t"
    "render m cs (pf_format t) (pf_long t) (pf_args t) = Some zs" "pf_out t \<noteq> None \<or> no_pc cs (pf_format t)"
    unfolding step_ok_def by blast
  have "fits n t zs" using fits_append Cons.prems(2) t(2,3) by blast
  then obtain u where "fmt_loop m n cs t = Inr u" "says t zs u" using Cons.IH [OF t(4) _ t(5)] by blast
  then show ?case using t(1,2) says_trans [OF t(3)] by auto
qed

text \<open>
  \<open>vsnprintf\<close> into a buffer with room for the text and its terminator writes exactly the text the
  format denotes, then a zero, and touches nothing else; called without a buffer it measures the
  same length when the format has no \<^verbatim>\<open>%c\<close>.
\<close>

lemma vsnprintf_render:
  assumes "render m fmt False False vl = Some xs"
  shows "(length xs < n \<longrightarrow> vsnprintf m (Some b) n fmt vl =
      Inr (length xs, Some (\<lambda>a. if a < length xs then xs ! a else if a = length xs then 0 else b a))) \<and>
    (no_pc fmt False \<longrightarrow> vsnprintf m None n fmt vl = Inr (length xs, None))"
proof (intro conjI impI)
  let ?s = "\<lambda>out. \<lparr>pf_out = out, pf_pos = 0, pf_args = vl, pf_format = False, pf_long = False\<rparr>"
  {
    assume n: "length xs < n"
    then obtain t where t: "fmt_loop m n fmt (?s (Some b)) = Inr t" "says (?s (Some b)) xs t"
      using fmt_loop_render [of m fmt "?s (Some b)" xs n] assms by (auto simp: fits_def)
    then have "pf_pos t = length xs" "pf_out t = Some (wr 0 xs b)" by (simp_all add: says_def)
    then show "vsnprintf m (Some b) n fmt vl =
        Inr (length xs, Some (\<lambda>a. if a < length xs then xs ! a else if a = length xs then 0 else b a))"
      using t(1) n by (auto simp: vsnprintf_def terminate_out_def wr_def fun_eq_iff)
  next
    assume "no_pc fmt False"
    then obtain t where t: "fmt_loop m n fmt (?s None) = Inr t" "says (?s None) xs t"
      using fmt_loop_render [of m fmt "?s None" xs n] assms by (auto simp: fits_def)
    then show "vsnprintf m None n fmt vl = Inr (length xs, None)"
      by (simp add: vsnprintf_def terminate_out_def says_def)
  }
qed

section \<open>The texts have no zero byte\<close>

lemma strlen_from_Some:
  assumes "strlen_from m s k = Some r"
  shows "k \<le> r \<and> (\<forall>i<r - k. m (s + i) \<noteq> 0) \<and> m (s + (r - k)) = 0"
proof (rule strlen_from.raw_induct [OF _ assms])
  fix f :: "bmem \<Rightarrow> nat \<Rightarrow> nat \<Rightarrow> nat option" and m s k r
  assume IH: "\<And>m s k r. f m s k = Some r \<Longrightarrow> k \<le> r \<and> (\<forall>i<r - k. m (s + i) \<noteq> 0) \<and> m (s + (r - k)) = 0"
    and e: "(if m s = 0 then Some k else f m (Suc s) (Suc k)) = Some r"
  show "k \<le> r \<and> (\<forall>i<r - k. m (s + i) \<noteq> 0) \<and> m (s + (r - k)) = 0"
  proof (cases "m s = 0")
    case True
    then show ?thesis using e by simp
  next
    case False
    then have "f m (Suc s) (Suc k) = Some r" using e by simp
    from IH [OF this] have r: "Suc k \<le> r" and nz: "\<forall>i<r - Suc k. m (Suc s + i) \<noteq> 0"
      and z: "m (Suc s + (r - Suc k)) = 0" by blast+
    then obtain d where d: "r - k = Suc d" "r - Suc k = d" by (cases "r - k") auto
    have "m (s + i) \<noteq> 0" if "i < Suc d" for i
      using that nz False d by (cases i) auto
    then show ?thesis using r z d by auto
  qed
qed

lemma strlen_bytes: "strlen m s = Some k \<Longrightarrow> 0 \<notin> set (map m [s..<s + k])"
proof -
  assume "strlen m s = Some k"
  then have "\<forall>i<k. m (s + i) \<noteq> 0" using strlen_from_Some [of m s 0 k] by (simp add: strlen_def)
  then have "m a \<noteq> 0" if "a \<in> {s..<s + k}" for a
    using that spec [of "\<lambda>i. i < k \<longrightarrow> m (s + i) \<noteq> 0" "a - s"] by auto
  then show ?thesis by (auto simp del: set_upt simp add: atLeastLessThan_upt [symmetric])
qed

lemma small_byte_nz: "0 < k \<Longrightarrow> k < 256 \<Longrightarrow> (of_nat k :: u8) \<noteq> 0"
proof
  assume k: "0 < k" "k < 256" "(of_nat k :: u8) = 0"
  have "unat (of_nat k :: u8) = k" using k(2) by (simp add: unat_of_nat)
  then show False using k by simp
qed

lemma hex_digit_nz: "0 \<le> d \<Longrightarrow> d < 16 \<Longrightarrow> hex_digit d \<noteq> 0"
proof -
  assume d: "0 \<le> d" "d < 16"
  have "hex_digit d = of_nat (if d < 10 then 48 + nat d else 87 + nat d)"
    using d by (simp add: hex_digit_def of_nat_nat)
  then show ?thesis using small_byte_nz d by (auto simp del: of_nat_add)
qed

lemma hex_string_nz: "0 \<notin> set (hex_string num k)"
proof
  assume "0 \<in> set (hex_string num k)"
  then obtain i where "0 = hex_digit (num div 2 ^ (4 * i) mod 16)" by (auto simp: hex_string_def)
  moreover have "hex_digit (num div 2 ^ (4 * i) mod 16) \<noteq> 0" by (rule hex_digit_nz) auto
  ultimately show False by simp
qed

lemma dec_nat_nz: "0 \<notin> set (dec_nat k)"
proof (induction k rule: dec_nat.induct)
  case (1 k)
  have "(of_nat (48 + k mod 10) :: u8) \<noteq> 0" by (rule small_byte_nz) auto
  moreover have "(of_nat (48 + k) :: u8) \<noteq> 0" if "k < 10" using that by (intro small_byte_nz) auto
  ultimately show ?case using 1 by (subst dec_nat.simps) (auto simp del: of_nat_add)
qed

lemma dec_string_nz: "0 \<notin> set (dec_string i)"
  by (simp add: dec_string_def dec_nat_nz)

lemma render_nz:
  "render m cs f l as = Some xs \<Longrightarrow> no_pc cs f \<Longrightarrow> 0 \<notin> set cs \<Longrightarrow> 0 \<notin> set xs"
proof (induction cs arbitrary: f l as xs)
  case (Cons c cs)
  show ?case
  proof (cases "f \<and> c \<in> {112, 120, 100, 115, 99}")
    case False
    then show ?thesis using Cons by (cases f) (auto split: if_splits)
  next
    case True
    then have r: "render m (c # cs) True l as = Some xs" using Cons.prems(1) by simp
    obtain a as' zs where a: "as = a # as'" and z: "render m cs False False as' = Some zs"
      using render_conv [OF r] True by blast
    have c: "c = 112 \<or> c = 120 \<or> c = 100 \<or> c = 115" and pc: "no_pc cs False" using True Cons.prems(2) by auto
    have "0 \<notin> set zs" using Cons.IH [OF z pc] Cons.prems(3) by simp
    then show ?thesis
      using c r a z hex_string_nz dec_string_nz strlen_bytes by (auto split: if_splits option.splits simp del: set_map)
  qed
qed simp

text \<open>
  C25. \<open>printf\<close> and \<open>printk\<close> with the lock free: for a format without \<^verbatim>\<open>%c\<close> whose text is shorter than the
  buffer, the two passes agree on the length, exactly the text the format denotes is sent to the
  UART, its length is returned and the lock is free again.
\<close>

theorem vprintf_correct:
  assumes "render m fmt False False vl = Some xs" and "no_pc fmt False" and "0 \<notin> set fmt" and "length xs + 1 < BUF_SIZE"
  shows "vprintf m 0 fmt vl buf = Inr (length xs, 0, xs)"
proof -
  let ?b = "\<lambda>a. if a < length xs then xs ! a else if a = length xs then 0 else buf a"
  have "0 \<notin> set xs" using render_nz [OF assms(1-3)] .
  then have "cstr ?b 0 xs" unfolding cstr_iff by (auto simp: in_set_conv_nth)
  then have "sent_text ?b 0 = Inr (map ?b [0..<length xs])" by (simp add: sent_text_def strlen_cstr)
  moreover have "map ?b [0..<length xs] = xs" by (rule nth_equalityI) auto
  ultimately have u: "sent_text ?b 0 = Inr xs" by simp
  have "vsnprintf m None (2 ^ 64 - 1) fmt vl = Inr (length xs, None)"
    "vsnprintf m (Some buf) (length xs + 1) fmt vl = Inr (length xs, Some ?b)"
    using vsnprintf_render [OF assms(1)] assms(2) by auto
  then show ?thesis unfolding vprintf_def using assms(4) u by simp
qed

theorem vprintf_correct_witness:
  "vprintf ((\<lambda>a. 0)(64 := 104, 65 := 105)) 0 [37, 100, 58, 37, 115] [7, 64] (\<lambda>a. 255) = Inr (4, 0, [55, 58, 104, 105])"
proof -
  let ?m = "(\<lambda>a. 0)(64 := 104, 65 := 105) :: bmem"
  have "cstr ?m 64 [104, 105]" by simp
  then have "strlen ?m 64 = Some 2" using strlen_cstr by fastforce
  then have "render ?m [37, 100, 58, 37, 115] False False [7, 64] = Some [55, 58, 104, 105]"
    by (simp add: arg_num_def dec_string_def dec_nat.simps upt_rec)
  then show ?thesis
    using vprintf_correct [of ?m "[37, 100, 58, 37, 115]" "[7, 64]" "[55, 58, 104, 105]" "\<lambda>a. 255"]
    by (simp add: BUF_SIZE_def)
qed

section \<open>The measuring pass and \<^verbatim>\<open>%c\<close>\<close>

text \<open>
  Without a buffer \<^verbatim>\<open>%c\<close> does not take its argument, so the string conversion that follows measures the
  memory at the address given by the character.
\<close>

lemma printf_c_misreads:
  assumes "strlen m (unat c) = Some k"
  shows "vsnprintf m None n [37, 99, 37, 115] [c, p] = Inr (1 + k, None)"
proof -
  have f: "pf_out (fold (emit n) xs s) = None \<and> pf_pos (fold (emit n) xs s) = pf_pos s + length xs"
    if "pf_out s = None" for xs s
    using fold_emit [of n s xs] that by (simp add: fits_def says_def)
  show ?thesis using assms f
    by (simp add: vsnprintf_def fmt_step_def fmt_c_def fmt_s_def va_arg_def conv_done_def terminate_out_def)
qed

section \<open>No write outside the buffer\<close>

definition bkeeps :: "nat \<Rightarrow> bmem option \<Rightarrow> bmem option \<Rightarrow> bool" where
  "bkeeps n x y \<longleftrightarrow> (case x of None \<Rightarrow> y = None | Some b \<Rightarrow> (\<exists>b'. y = Some b' \<and> (\<forall>a\<ge>n. b' a = b a)))"

lemma bkeeps_refl [simp]: "bkeeps n x x"
  by (cases x) (auto simp: bkeeps_def)

lemma bkeeps_trans: "bkeeps n x y \<Longrightarrow> bkeeps n y z \<Longrightarrow> bkeeps n x z"
  by (cases x; cases y) (auto simp: bkeeps_def)

lemma bkeeps_put: "bkeeps n x (put_ch n p c x)"
  by (cases x) (auto simp: bkeeps_def put_ch_def)

lemma bkeeps_emit: "bkeeps n (pf_out s) (pf_out (emit n c s))"
  by (simp add: emit_def bkeeps_put)

lemma bkeeps_fold: "bkeeps n (pf_out s) (pf_out (fold (emit n) xs s))"
  by (induction xs arbitrary: s) (auto intro: bkeeps_trans [OF bkeeps_emit])

lemma bkeeps_digits: "bkeeps n x (put_digits n p num k x)"
  by (induction k arbitrary: num x) (auto intro: bkeeps_trans [OF bkeeps_put])

lemma bkeeps_x: "fmt_x n s = Inr t \<Longrightarrow> bkeeps n (pf_out s) (pf_out t)"
  using bkeeps_fold [of n "s\<lparr>pf_args := tl (pf_args s)\<rparr>"]
  by (auto simp: fmt_x_def va_arg_def emit_hex_fold split: list.splits)

lemma bkeeps_p: "fmt_p n s = Inr t \<Longrightarrow> bkeeps n (pf_out s) (pf_out t)"
  using bkeeps_fold [of n "s\<lparr>pf_long := True\<rparr>" "[48, 120]"] bkeeps_x
  by (auto simp: fmt_p_def intro: bkeeps_trans)

lemma bkeeps_d: "fmt_d n s = Inr t \<Longrightarrow> bkeeps n (pf_out s) (pf_out t)"
  using bkeeps_emit [of n "s\<lparr>pf_args := tl (pf_args s)\<rparr>" 45]
  by (auto simp: fmt_d_def va_arg_def Let_def bkeeps_digits split: list.splits intro: bkeeps_trans [OF _ bkeeps_digits])

lemma bkeeps_s: "fmt_s m n s = Inr t \<Longrightarrow> bkeeps n (pf_out s) (pf_out t)"
  using bkeeps_fold [of n "s\<lparr>pf_args := tl (pf_args s)\<rparr>"]
  by (auto simp: fmt_s_def va_arg_def split: list.splits option.splits)

lemma bkeeps_c: "fmt_c n s = Inr t \<Longrightarrow> bkeeps n (pf_out s) (pf_out t)"
  using bkeeps_emit [of n "s\<lparr>pf_args := tl (pf_args s)\<rparr>"]
  by (auto simp: fmt_c_def va_arg_def split: list.splits if_splits)

lemma bkeeps_step: "fmt_step m n c s = Inr t \<Longrightarrow> bkeeps n (pf_out s) (pf_out t)"
  unfolding fmt_step_def
  by (auto split: if_splits intro: bkeeps_x bkeeps_p bkeeps_d bkeeps_s bkeeps_c bkeeps_emit)

lemma bkeeps_loop: "fmt_loop m n cs s = Inr t \<Longrightarrow> bkeeps n (pf_out s) (pf_out t)"
  by (induction cs arbitrary: s) (auto elim!: kbind_InrE intro: bkeeps_trans bkeeps_step)

text \<open>
  C32. \<open>vsnprintf\<close> never writes outside the \<open>n\<close> bytes of its buffer, whatever the format and the
  arguments, and terminates what it wrote inside them, also when the text is cut off.
\<close>

theorem vsnprintf_bounds:
  assumes "vsnprintf m (Some b) n fmt vl = Inr (pos, out)"
  shows "\<exists>b'. out = Some b' \<and> (\<forall>a\<ge>n. b' a = b a) \<and> (n = 0 \<or> b' (min pos (n - 1)) = 0)"
proof -
  obtain t where t: "fmt_loop m n fmt \<lparr>pf_out = Some b, pf_pos = 0, pf_args = vl, pf_format = False, pf_long = False\<rparr> = Inr t"
    and p: "pos = pf_pos t" "out = terminate_out n t"
    using assms by (auto simp: vsnprintf_def elim!: kbind_InrE)
  have "bkeeps n (Some b) (pf_out t)" using bkeeps_loop [OF t] by simp
  then obtain b' where b': "pf_out t = Some b'" "\<forall>a\<ge>n. b' a = b a" by (auto simp: bkeeps_def)
  then show ?thesis using p by (cases "pf_pos t < n") (auto simp: terminate_out_def min_def)
qed

theorem vsnprintf_bounds_witness:
  "\<exists>b'. vsnprintf (\<lambda>a. 0) (Some (\<lambda>a. 9)) 2 [65, 66, 67] [] = Inr (3, Some b') \<and> b' 2 = 9 \<and> b' 1 = 0"
proof -
  obtain out where o: "vsnprintf (\<lambda>a. 0) (Some (\<lambda>a. 9)) 2 [65, 66, 67] [] = Inr (3, out)"
    by (simp add: vsnprintf_def fmt_step_def emit_def)
  from vsnprintf_bounds [OF o] obtain b' where "out = Some b'" "\<forall>a\<ge>2. b' a = 9" "b' (min 3 (2 - 1)) = 0" by auto
  then show ?thesis using o by simp
qed

end
