(* ===== verification/Virtio.thy ===== *)
theory Virtio
  imports Lock
begin

text \<open>
  The block driver \<^verbatim>\<open>src/driver/virtio.c\<close>: the descriptor pool, the request a read or write puts into
  the queue, and the interrupt handler. The other side of the queue, the virtio block device, is
  hardware: \<open>device_serve\<close> is the environment step that the virtio specification prescribes for a
  request chain of three descriptors (take the chain from the avail ring, transfer one block between
  the medium and the data buffer, store the status, put the chain on the used ring). The buffers of
  \<^verbatim>\<open>src/include/disk/buffer.h\<close> are part of the state because the driver reads and writes them.
\<close>

section \<open>State\<close>

definition QUEUE_SIZE :: nat where "QUEUE_SIZE = 8"
definition BLOCK_SIZE :: nat where "BLOCK_SIZE = 512"

definition VIRTQ_DESC_F_NEXT :: u16 where "VIRTQ_DESC_F_NEXT = 1"
definition VIRTQ_DESC_F_WRITE :: u16 where "VIRTQ_DESC_F_WRITE = 2"
definition VIRTIO_BLK_T_IN :: u32 where "VIRTIO_BLK_T_IN = 0"
definition VIRTIO_BLK_T_OUT :: u32 where "VIRTIO_BLK_T_OUT = 1"

text \<open>The addresses the driver puts into descriptors: \<^verbatim>\<open>&disk.ops[i]\<close>, the data of a buffer, \<^verbatim>\<open>&disk.info[i].status\<close>.\<close>

datatype vaddr = ANull | AOps nat | AData nat | AStatus nat

record virtq_desc =
  d_addr :: vaddr
  d_len :: u32
  d_flags :: u16
  d_next :: u16

record virtio_blk_req =
  r_type :: u32
  r_reserved :: u32
  r_sector :: u64

record vinfo =
  info_buf :: "nat option"
  info_status :: u8

type_synonym block = "u8 list"

text \<open>The 64-bit \<^verbatim>\<open>refcnt\<close> is a natural number: it counts calls of \<^verbatim>\<open>bread\<close>, of which \<open>2 ^ 64\<close> are out of reach.\<close>

record buffer =
  b_valid :: bool
  b_disk :: bool
  b_dev :: u32
  b_block_no :: u32
  b_refcnt :: nat
  b_data :: block
  b_dirty :: bool
  b_next :: "nat option"
  b_last :: "nat option"

text \<open>
  \<^verbatim>\<open>struct virt_disk\<close> with the queue it points to, \<^verbatim>\<open>buffer_cache\<close>, and the device: its position in the
  avail ring and the medium, a partial map from sectors to blocks.
\<close>

record iostate =
  desc :: "virtq_desc list"
  avail_idx :: u16
  avail_ring :: "u16 list"
  used_ring :: "(u32 \<times> u32) list"
  used_dev_idx :: u16
  vfree :: "bool list"
  used_idx :: u16
  info :: "vinfo list"
  ops :: "virtio_blk_req list"
  vlock :: u32
  bufs :: "buffer list"
  bhead :: nat
  bcache_lock :: u32
  dev_avail :: u16
  media :: "u64 \<Rightarrow> block option"

definition desc0 :: virtq_desc where
  "desc0 = \<lparr>d_addr = ANull, d_len = 0, d_flags = 0, d_next = 0\<rparr>"

section \<open>The descriptor pool\<close>

definition free_desc :: "nat \<Rightarrow> iostate \<Rightarrow> iostate res" where
  "free_desc i s =
     (if i > QUEUE_SIZE then Inl (Panic ''free descriptor overflow'')
      else kbind (kget (vfree s) i) (\<lambda>f.
        if f then Inl (Panic ''free descriptor error'')
        else kbind (kput (desc s) i desc0) (\<lambda>d.
          Inr (s\<lparr>desc := d, vfree := (vfree s)[i := True]\<rparr>))))"

lemma free_desc_Inr:
  "free_desc i s = Inr s' \<longleftrightarrow> i \<le> QUEUE_SIZE \<and> i < length (vfree s) \<and> \<not> vfree s ! i \<and> i < length (desc s) \<and>
     s' = s\<lparr>desc := (desc s)[i := desc0], vfree := (vfree s)[i := True]\<rparr>"
  by (auto simp: free_desc_def kbind_eq_Inr)

lemma count_update:
  "i < length xs \<Longrightarrow> \<not> xs ! i \<Longrightarrow> count_list (xs[i := True]) False < count_list xs False"
proof (induction xs arbitrary: i)
  case (Cons x xs)
  then show ?case by (cases i) auto
qed simp

text \<open>\<^verbatim>\<open>free_chain\<close>: each turn frees a descriptor that was in use, so the number of those bounds the loop.\<close>

function free_chain :: "nat \<Rightarrow> iostate \<Rightarrow> iostate res" where
  "free_chain i s =
     kbind (kget (desc s) i) (\<lambda>d.
     kbind (free_desc i s) (\<lambda>s'.
       if d_flags d AND VIRTQ_DESC_F_NEXT \<noteq> 0 then free_chain (unat (d_next d)) s' else Inr s'))"
  by pat_completeness auto
termination
  by (relation "measure (\<lambda>(i, s). count_list (vfree s) False)") (auto simp: free_desc_Inr count_update)

declare free_chain.simps [simp del]

definition alloc_desc :: "iostate \<Rightarrow> (nat \<times> iostate) option" where
  "alloc_desc s =
     (case first_index (\<lambda>i. vfree s ! i) 0 QUEUE_SIZE of
        None \<Rightarrow> None
      | Some i \<Rightarrow> Some (i, s\<lparr>vfree := (vfree s)[i := False]\<rparr>))"

text \<open>\<^verbatim>\<open>alloc_descs\<close>: the three indices, or \<open>None\<close> (the code's 1) after giving back what it had.\<close>

definition alloc_descs :: "iostate \<Rightarrow> ((nat \<times> nat \<times> nat) option \<times> iostate) res" where
  "alloc_descs s =
     (case alloc_desc s of
        None \<Rightarrow> Inr (None, s)
      | Some (i0, s0) \<Rightarrow>
        (case alloc_desc s0 of
           None \<Rightarrow> kbind (free_desc i0 s0) (\<lambda>s'. Inr (None, s'))
         | Some (i1, s1) \<Rightarrow>
           (case alloc_desc s1 of
              None \<Rightarrow> kbind (free_desc i0 s1) (\<lambda>s'. kbind (free_desc i1 s') (\<lambda>s''. Inr (None, s'')))
            | Some (i2, s2) \<Rightarrow> Inr (Some (i0, i1, i2), s2))))"

section \<open>A request\<close>

definition set_desc :: "nat \<Rightarrow> virtq_desc \<Rightarrow> iostate \<Rightarrow> iostate res" where
  "set_desc i d s = kbind (kput (desc s) i d) (\<lambda>ds. Inr (s\<lparr>desc := ds\<rparr>))"

definition set_buf :: "nat \<Rightarrow> (buffer \<Rightarrow> buffer) \<Rightarrow> iostate \<Rightarrow> iostate res" where
  "set_buf i f s = kbind (kget (bufs s) i) (\<lambda>b. kbind (kput (bufs s) i (f b)) (\<lambda>bs. Inr (s\<lparr>bufs := bs\<rparr>)))"

definition set_info :: "nat \<Rightarrow> (vinfo \<Rightarrow> vinfo) \<Rightarrow> iostate \<Rightarrow> iostate res" where
  "set_info i f s = kbind (kget (info s) i) (\<lambda>b. kbind (kput (info s) i (f b)) (\<lambda>bs. Inr (s\<lparr>info := bs\<rparr>)))"

text \<open>
  \<^verbatim>\<open>virtio_disk_rw\<close> up to the notification: take the lock and three descriptors, fill in the request, its
  data and its status descriptor, and publish the chain in the avail ring. Without three free
  descriptors the loop spins: nothing in it can free one.
\<close>

definition vio_fill :: "nat \<Rightarrow> bool \<Rightarrow> nat \<times> nat \<times> nat \<Rightarrow> iostate \<Rightarrow> iostate res" where
  "vio_fill b rw idx s =
     (case idx of (i0, i1, i2) \<Rightarrow>
     kbind (kget (bufs s) b) (\<lambda>buf.
     let sector = ucast (b_block_no buf * of_nat (BLOCK_SIZE div BLOCK_SIZE)) in
     kbind (kput (ops s) i0 \<lparr>r_type = (if rw then VIRTIO_BLK_T_OUT else VIRTIO_BLK_T_IN), r_reserved = 0, r_sector = sector\<rparr>) (\<lambda>o'.
     kbind (set_desc i0 \<lparr>d_addr = AOps i0, d_len = 16, d_flags = VIRTQ_DESC_F_NEXT, d_next = of_nat i1\<rparr> (s\<lparr>ops := o'\<rparr>)) (\<lambda>s.
     kbind (set_desc i1 \<lparr>d_addr = AData b, d_len = of_nat BLOCK_SIZE,
        d_flags = (if rw then 0 else VIRTQ_DESC_F_WRITE) OR VIRTQ_DESC_F_NEXT, d_next = of_nat i2\<rparr> s) (\<lambda>s.
     kbind (set_info i0 (info_status_update (\<lambda>_. 255)) s) (\<lambda>s.
     kbind (set_desc i2 \<lparr>d_addr = AStatus i0, d_len = 1, d_flags = VIRTQ_DESC_F_WRITE, d_next = 0\<rparr> s) (\<lambda>s.
     kbind (set_buf b (b_disk_update (\<lambda>_. True)) s) (\<lambda>s.
     set_info i0 (info_buf_update (\<lambda>_. Some b)) s))))))))"

definition vio_publish :: "nat \<Rightarrow> iostate \<Rightarrow> iostate res" where
  "vio_publish i0 s =
     kbind (kput (avail_ring s) (unat (avail_idx s) mod QUEUE_SIZE) (of_nat i0)) (\<lambda>r.
       Inr (s\<lparr>avail_ring := r, avail_idx := avail_idx s + 1, vlock := spin_unlock (vlock s)\<rparr>))"

definition vio_submit :: "nat \<Rightarrow> bool \<Rightarrow> iostate \<Rightarrow> (nat \<times> iostate) res" where
  "vio_submit b rw s =
     kbind (spin_lock (vlock s)) (\<lambda>l.
     kbind (alloc_descs (s\<lparr>vlock := l\<rparr>)) (\<lambda>(idx, s).
       case idx of
         None \<Rightarrow> Inl Hang
       | Some (i0, i1, i2) \<Rightarrow>
           kbind (vio_fill b rw (i0, i1, i2) s) (\<lambda>s.
           kbind (vio_publish i0 s) (\<lambda>s. Inr (i0, s)))))"

text \<open>\<^verbatim>\<open>virtio_disk_rw\<close> after the wait.\<close>

definition vio_finish :: "nat \<Rightarrow> iostate \<Rightarrow> iostate res" where
  "vio_finish i0 s =
     kbind (spin_lock (vlock s)) (\<lambda>l.
     kbind (set_info i0 (info_buf_update (\<lambda>_. None)) (s\<lparr>vlock := l\<rparr>)) (\<lambda>s.
     kbind (free_chain i0 s) (\<lambda>s.
       Inr (s\<lparr>vlock := spin_unlock (vlock s)\<rparr>))))"

section \<open>The device and the interrupt\<close>

text \<open>One request of the avail ring; a sector the medium does not have gives the I/O error status 1.\<close>

definition serve_chain :: "nat \<Rightarrow> iostate \<Rightarrow> iostate res" where
  "serve_chain i0 s =
     kbind (kget (desc s) i0) (\<lambda>d0.
     kbind (kget (desc s) (unat (d_next d0))) (\<lambda>d1.
     kbind (kget (desc s) (unat (d_next d1))) (\<lambda>d2.
       case (d_addr d0, d_addr d1, d_addr d2) of
         (AOps o', AData b, AStatus st) \<Rightarrow>
           kbind (kget (ops s) o') (\<lambda>r.
           kbind (kget (bufs s) b) (\<lambda>buf.
             case media s (r_sector r) of
               None \<Rightarrow> set_info st (info_status_update (\<lambda>_. 1)) s
             | Some blk \<Rightarrow>
                 kbind (if r_type r = VIRTIO_BLK_T_OUT then Inr (s\<lparr>media := (media s)(r_sector r \<mapsto> b_data buf)\<rparr>)
                        else set_buf b (b_data_update (\<lambda>_. blk)) s)
                   (set_info st (info_status_update (\<lambda>_. 0)))))
       | _ \<Rightarrow> Inl NullDeref)))"

definition device_serve :: "iostate \<Rightarrow> iostate res" where
  "device_serve s =
     (if dev_avail s = avail_idx s then Inr s
      else kbind (kget (avail_ring s) (unat (dev_avail s) mod QUEUE_SIZE)) (\<lambda>i0.
           kbind (serve_chain (unat i0) s) (\<lambda>s.
           kbind (kput (used_ring s) (unat (used_dev_idx s) mod QUEUE_SIZE) (ucast i0, of_nat BLOCK_SIZE)) (\<lambda>r.
             Inr (s\<lparr>used_ring := r, used_dev_idx := used_dev_idx s + 1, dev_avail := dev_avail s + 1\<rparr>)))))"

text \<open>The loop of \<^verbatim>\<open>virtio_disk_interrupt_handler\<close>.\<close>

lemma used_measure: "a \<noteq> b \<Longrightarrow> unat (a - (b + 1)) < unat (a - b)" for a b :: u16
proof -
  assume "a \<noteq> b"
  then have "a - b \<noteq> 0" by simp
  moreover have "a - (b + 1) = a - b - 1" by simp
  ultimately show ?thesis by (metis measure_unat)
qed

function reap_used :: "iostate \<Rightarrow> iostate res" where
  "reap_used s =
     (if used_idx s = used_dev_idx s then Inr s
      else kbind (kget (used_ring s) (unat (used_idx s) mod QUEUE_SIZE)) (\<lambda>e.
           kbind (kget (info s) (unat (fst e))) (\<lambda>inf.
             if info_status inf \<noteq> 0 then Inl (Panic ''disk interrupt status'')
             else case info_buf inf of
                    None \<Rightarrow> Inl NullDeref
                  | Some b \<Rightarrow> kbind (kget (bufs s) b) (\<lambda>buf.
                      reap_used (s\<lparr>bufs := (bufs s)[b := buf\<lparr>b_disk := False\<rparr>], used_idx := used_idx s + 1\<rparr>)))))"
  by pat_completeness auto
termination
  by (relation "measure (\<lambda>s. unat (used_dev_idx s - used_idx s))") (auto intro: used_measure)

declare reap_used.simps [simp del]

definition virtio_disk_interrupt_handler :: "iostate \<Rightarrow> iostate res" where
  "virtio_disk_interrupt_handler s =
     kbind (spin_lock (vlock s)) (\<lambda>l.
     kbind (reap_used (s\<lparr>vlock := l\<rparr>)) (\<lambda>s.
       Inr (s\<lparr>vlock := spin_unlock (vlock s)\<rparr>)))"

text \<open>
  \<^verbatim>\<open>while(buf->disk)\<close>: while the caller waits the device serves a request and raises its interrupt; when
  the device has nothing to serve and the flag is still set, the wait does not end.
\<close>

definition vio_wait :: "nat \<Rightarrow> iostate \<Rightarrow> iostate res" where
  "vio_wait b s =
     kbind (device_serve s) (\<lambda>s.
     kbind (virtio_disk_interrupt_handler s) (\<lambda>s.
     kbind (kget (bufs s) b) (\<lambda>buf. if b_disk buf then Inl Hang else Inr s)))"

definition virtio_disk_rw :: "nat \<Rightarrow> bool \<Rightarrow> iostate \<Rightarrow> iostate res" where
  "virtio_disk_rw b rw s =
     kbind (vio_submit b rw s) (\<lambda>(i0, s).
     kbind (vio_wait b s) (vio_finish i0))"

section \<open>One request on an idle queue\<close>

text \<open>The queue between requests: no descriptor in use, nothing the device or the driver has still to look at.\<close>

definition vidle :: "iostate \<Rightarrow> bool" where
  "vidle s \<longleftrightarrow> vfree s = replicate QUEUE_SIZE True \<and> length (desc s) = QUEUE_SIZE \<and> length (avail_ring s) = QUEUE_SIZE \<and>
     length (used_ring s) = QUEUE_SIZE \<and> length (info s) = QUEUE_SIZE \<and> length (ops s) = QUEUE_SIZE \<and>
     vlock s = 0 \<and> used_idx s = used_dev_idx s \<and> dev_avail s = avail_idx s"

lemma first_index_step: "lo < hi \<Longrightarrow> first_index P lo hi = (if P lo then Some lo else first_index P (Suc lo) hi)"
  by (subst first_index.simps) simp

definition busy3 :: "bool list" where
  "busy3 = [False, False, False, True, True, True, True, True]"

lemma busy3_eq: "(replicate 8 True)[0 := False, Suc 0 := False, Suc (Suc 0) := False] = busy3"
  by (simp add: busy3_def numeral_eq_Suc)

lemma alloc_descs_idle:
  "vfree s = replicate QUEUE_SIZE True \<Longrightarrow> alloc_descs s = Inr (Some (0, 1, 2), s\<lparr>vfree := busy3\<rparr>)"
  by (simp add: alloc_descs_def alloc_desc_def first_index_step QUEUE_SIZE_def busy3_eq numeral_2_eq_2)

definition req_of :: "bool \<Rightarrow> buffer \<Rightarrow> virtio_blk_req" where
  "req_of rw buf = \<lparr>r_type = (if rw then VIRTIO_BLK_T_OUT else VIRTIO_BLK_T_IN), r_reserved = 0, r_sector = ucast (b_block_no buf)\<rparr>"

text \<open>The chain a request occupies.\<close>

definition chain_at :: "nat \<Rightarrow> bool \<Rightarrow> virtq_desc list \<Rightarrow> bool" where
  "chain_at b rw d \<longleftrightarrow> length d = QUEUE_SIZE \<and>
     d ! 0 = \<lparr>d_addr = AOps 0, d_len = 16, d_flags = VIRTQ_DESC_F_NEXT, d_next = 1\<rparr> \<and>
     d ! 1 = \<lparr>d_addr = AData b, d_len = 512, d_flags = (if rw then 0 else VIRTQ_DESC_F_WRITE) OR VIRTQ_DESC_F_NEXT, d_next = 2\<rparr> \<and>
     d ! 2 = \<lparr>d_addr = AStatus 0, d_len = 1, d_flags = VIRTQ_DESC_F_WRITE, d_next = 0\<rparr>"

definition submitted :: "nat \<Rightarrow> bool \<Rightarrow> iostate \<Rightarrow> iostate \<Rightarrow> bool" where
  "submitted b rw s t \<longleftrightarrow> vfree t = busy3 \<and> chain_at b rw (desc t) \<and> length (avail_ring t) = QUEUE_SIZE \<and>
     avail_ring t ! (unat (avail_idx s) mod QUEUE_SIZE) = 0 \<and> avail_idx t = avail_idx s + 1 \<and>
     length (info t) = QUEUE_SIZE \<and> info t ! 0 = \<lparr>info_buf = Some b, info_status = 255\<rparr> \<and>
     length (ops t) = QUEUE_SIZE \<and> ops t ! 0 = req_of rw (bufs s ! b) \<and> vlock t = 0 \<and>
     bufs t = (bufs s)[b := (bufs s ! b)\<lparr>b_disk := True\<rparr>] \<and>
     used_ring t = used_ring s \<and> used_dev_idx t = used_dev_idx s \<and> used_idx t = used_idx s \<and>
     dev_avail t = dev_avail s \<and> media t = media s \<and> bhead t = bhead s \<and> bcache_lock t = bcache_lock s"

lemma mod_queue: "k mod QUEUE_SIZE < QUEUE_SIZE"
  by (simp add: QUEUE_SIZE_def)

lemma vio_submit_idle:
  assumes s: "vidle s" and b: "b < length (bufs s)"
  shows "\<exists>t. vio_submit b rw s = Inr (0, t) \<and> submitted b rw s t"
proof -
  have len: "length (desc s) = 8" "length (avail_ring s) = 8" "length (info s) = 8" "length (ops s) = 8"
    using s by (simp_all add: vidle_def QUEUE_SIZE_def)
  have m: "unat (avail_idx s) mod 8 < 8" by simp
  have a: "alloc_descs (s\<lparr>vlock := 1\<rparr>) = Inr (Some (0, 1, 2), s\<lparr>vlock := 1, vfree := busy3\<rparr>)"
    using alloc_descs_idle [of "s\<lparr>vlock := 1\<rparr>"] s by (simp add: vidle_def)
  show ?thesis
    using s b len m a
    by (simp add: vio_submit_def vio_fill_def vio_publish_def set_desc_def set_info_def set_buf_def Let_def
        submitted_def chain_at_def req_of_def vidle_def QUEUE_SIZE_def BLOCK_SIZE_def nth_list_update)
qed

text \<open>What the device made of the request: the medium, the data of the buffer and the status.\<close>

definition served_media :: "bool \<Rightarrow> buffer \<Rightarrow> (u64 \<Rightarrow> block option) \<Rightarrow> (u64 \<Rightarrow> block option)" where
  "served_media rw buf m = (if rw \<and> m (ucast (b_block_no buf)) \<noteq> None then m(ucast (b_block_no buf) \<mapsto> b_data buf) else m)"

definition served_buf :: "bool \<Rightarrow> buffer \<Rightarrow> (u64 \<Rightarrow> block option) \<Rightarrow> buffer" where
  "served_buf rw buf m =
     (case m (ucast (b_block_no buf)) of None \<Rightarrow> buf | Some blk \<Rightarrow> if rw then buf else buf\<lparr>b_data := blk\<rparr>)"

definition served :: "nat \<Rightarrow> bool \<Rightarrow> iostate \<Rightarrow> iostate \<Rightarrow> bool" where
  "served b rw s u \<longleftrightarrow> vfree u = busy3 \<and> chain_at b rw (desc u) \<and> length (avail_ring u) = QUEUE_SIZE \<and>
     length (info u) = QUEUE_SIZE \<and> length (ops u) = QUEUE_SIZE \<and> vlock u = 0 \<and>
     info u ! 0 = \<lparr>info_buf = Some b, info_status = (if media s (ucast (b_block_no (bufs s ! b))) = None then 1 else 0)\<rparr> \<and>
     bufs u = (bufs s)[b := (served_buf rw (bufs s ! b) (media s))\<lparr>b_disk := True\<rparr>] \<and>
     media u = served_media rw (bufs s ! b) (media s) \<and> length (used_ring u) = QUEUE_SIZE \<and>
     fst (used_ring u ! (unat (used_idx s) mod QUEUE_SIZE)) = 0 \<and> used_idx u = used_idx s \<and>
     used_dev_idx u = used_idx s + 1 \<and> dev_avail u = avail_idx u \<and> bhead u = bhead s \<and> bcache_lock u = bcache_lock s"

lemma disk_data_comm: "x\<lparr>b_disk := d, b_data := blk\<rparr> = x\<lparr>b_data := blk, b_disk := d\<rparr>" for x :: buffer
  by (cases x) simp

lemma device_serve_submitted:
  assumes s: "vidle s" and b: "b < length (bufs s)" and t: "submitted b rw s t"
  shows "\<exists>u. device_serve t = Inr u \<and> served b rw s u"
proof -
  have len: "length (desc t) = 8" "length (avail_ring t) = 8" "length (info t) = 8" "length (ops t) = 8"
    "length (used_ring t) = 8" "b < length (bufs t)"
    using s t b by (simp_all add: submitted_def chain_at_def vidle_def QUEUE_SIZE_def)
  have idx: "dev_avail t \<noteq> avail_idx t" "avail_ring t ! (unat (dev_avail t) mod 8) = 0" "unat (dev_avail t) mod 8 < 8"
    "unat (used_dev_idx t) mod 8 < 8"
    using s t by (simp_all add: submitted_def vidle_def QUEUE_SIZE_def)
  have buf: "bufs t ! b = (bufs s ! b)\<lparr>b_disk := True\<rparr>" using t b by (simp add: submitted_def)
  have d: "desc t ! 0 = \<lparr>d_addr = AOps 0, d_len = 16, d_flags = VIRTQ_DESC_F_NEXT, d_next = 1\<rparr>"
    "desc t ! 1 = \<lparr>d_addr = AData b, d_len = 512, d_flags = (if rw then 0 else VIRTQ_DESC_F_WRITE) OR VIRTQ_DESC_F_NEXT, d_next = 2\<rparr>"
    "desc t ! 2 = \<lparr>d_addr = AStatus 0, d_len = 1, d_flags = VIRTQ_DESC_F_WRITE, d_next = 0\<rparr>"
    using t by (simp_all add: submitted_def chain_at_def)
  have f: "info t ! 0 = \<lparr>info_buf = Some b, info_status = 255\<rparr>" "ops t ! 0 = req_of rw (bufs s ! b)" "media t = media s"
    "bufs t = (bufs s)[b := (bufs s ! b)\<lparr>b_disk := True\<rparr>]"
    using t by (simp_all add: submitted_def)
  have "\<exists>u. serve_chain 0 t = Inr u \<and>
      u = t\<lparr>media := media u, bufs := bufs u, info := info u\<rparr> \<and> length (info u) = 8 \<and>
      info u ! 0 = \<lparr>info_buf = Some b, info_status = (if media s (ucast (b_block_no (bufs s ! b))) = None then 1 else 0)\<rparr> \<and>
      media u = served_media rw (bufs s ! b) (media s) \<and>
      bufs u = (bufs s)[b := (served_buf rw (bufs s ! b) (media s))\<lparr>b_disk := True\<rparr>]"
  proof (cases "media s (ucast (b_block_no (bufs s ! b)))")
    case None
    then have "serve_chain 0 t = set_info 0 (info_status_update (\<lambda>_. 1)) t"
      using len d f buf by (simp add: serve_chain_def req_of_def)
    then show ?thesis using None len f by (simp add: set_info_def served_media_def served_buf_def)
  next
    case (Some blk)
    then have "serve_chain 0 t = kbind (if rw then Inr (t\<lparr>media := (media s)(ucast (b_block_no (bufs s ! b)) \<mapsto> b_data (bufs s ! b))\<rparr>)
        else set_buf b (b_data_update (\<lambda>_. blk)) t) (set_info 0 (info_status_update (\<lambda>_. 0)))"
      using len d f buf by (simp add: serve_chain_def req_of_def VIRTIO_BLK_T_IN_def VIRTIO_BLK_T_OUT_def)
    then show ?thesis
      using Some len f buf b by (cases rw) (simp_all add: set_info_def set_buf_def served_media_def served_buf_def disk_data_comm)
  qed
  then obtain u where u: "serve_chain 0 t = Inr u" and ut: "u = t\<lparr>media := media u, bufs := bufs u, info := info u\<rparr>"
    and uf: "length (info u) = 8"
      "info u ! 0 = \<lparr>info_buf = Some b, info_status = (if media s (ucast (b_block_no (bufs s ! b))) = None then 1 else 0)\<rparr>"
      "media u = served_media rw (bufs s ! b) (media s)"
      "bufs u = (bufs s)[b := (served_buf rw (bufs s ! b) (media s))\<lparr>b_disk := True\<rparr>]"
    by (elim exE conjE)
  have same: "used_ring u = used_ring t" "used_dev_idx u = used_dev_idx t" "dev_avail u = dev_avail t"
    "avail_idx u = avail_idx t" "avail_ring u = avail_ring t" "vfree u = vfree t" "desc u = desc t" "ops u = ops t"
    "vlock u = vlock t" "used_idx u = used_idx t" "bhead u = bhead t" "bcache_lock u = bcache_lock t"
    by (subst ut, simp)+
  have "device_serve t = Inr (u\<lparr>used_ring := (used_ring t)[unat (used_dev_idx t) mod 8 := (0, 512)],
      used_dev_idx := used_dev_idx t + 1, dev_avail := dev_avail t + 1\<rparr>)"
    using u idx len same by (simp add: device_serve_def QUEUE_SIZE_def BLOCK_SIZE_def)
  then show ?thesis using t s uf same len idx
    by (simp add: served_def submitted_def vidle_def QUEUE_SIZE_def)
qed

lemma reap_served:
  assumes s: "vidle s" and b: "b < length (bufs s)" and u: "served b rw s u"
  shows "virtio_disk_interrupt_handler u =
    (if media s (ucast (b_block_no (bufs s ! b))) = None then Inl (Panic ''disk interrupt status'')
     else Inr (u\<lparr>used_idx := used_idx s + 1, bufs := (bufs s)[b := (served_buf rw (bufs s ! b) (media s))\<lparr>b_disk := False\<rparr>]\<rparr>))"
proof -
  have 1: "reap_used (x\<lparr>used_idx := used_dev_idx x\<rparr>) = Inr (x\<lparr>used_idx := used_dev_idx x\<rparr>)" for x
    by (subst reap_used.simps) simp
  show ?thesis using u b 1 [of "u\<lparr>vlock := 1, bufs := (bufs s)[b := (served_buf rw (bufs s ! b) (media s))\<lparr>b_disk := False\<rparr>]\<rparr>"]
    unfolding virtio_disk_interrupt_handler_def
    by (subst reap_used.simps) (auto simp: served_def QUEUE_SIZE_def)
qed

lemma free_chain_served:
  assumes u: "vfree u = busy3" "chain_at b rw (desc u)"
  shows "\<exists>v. free_chain 0 u = Inr v \<and> v = u\<lparr>vfree := vfree v, desc := desc v\<rparr> \<and> vfree v = replicate QUEUE_SIZE True \<and>
    length (desc v) = QUEUE_SIZE"
proof -
  have len: "length (desc u) = 8" using u(2) by (simp add: chain_at_def QUEUE_SIZE_def)
  have d: "desc u ! 0 = \<lparr>d_addr = AOps 0, d_len = 16, d_flags = VIRTQ_DESC_F_NEXT, d_next = 1\<rparr>"
    "desc u ! 1 = \<lparr>d_addr = AData b, d_len = 512, d_flags = (if rw then 0 else VIRTQ_DESC_F_WRITE) OR VIRTQ_DESC_F_NEXT, d_next = 2\<rparr>"
    "desc u ! 2 = \<lparr>d_addr = AStatus 0, d_len = 1, d_flags = VIRTQ_DESC_F_WRITE, d_next = 0\<rparr>"
    using u(2) by (simp_all add: chain_at_def)
  have flags: "VIRTQ_DESC_F_NEXT AND VIRTQ_DESC_F_NEXT \<noteq> 0"
    "((if rw then 0 else VIRTQ_DESC_F_WRITE) OR VIRTQ_DESC_F_NEXT) AND VIRTQ_DESC_F_NEXT \<noteq> 0"
    "VIRTQ_DESC_F_WRITE AND VIRTQ_DESC_F_NEXT = 0"
    by (simp_all add: VIRTQ_DESC_F_NEXT_def VIRTQ_DESC_F_WRITE_def)
  let ?u1 = "u\<lparr>desc := (desc u)[0 := desc0], vfree := busy3[0 := True]\<rparr>"
  let ?u2 = "u\<lparr>desc := (desc u)[0 := desc0, 1 := desc0], vfree := busy3[0 := True, 1 := True]\<rparr>"
  let ?u3 = "u\<lparr>desc := (desc u)[0 := desc0, 1 := desc0, 2 := desc0], vfree := busy3[0 := True, 1 := True, 2 := True]\<rparr>"
  have "free_desc 0 u = Inr ?u1" "free_desc 1 ?u1 = Inr ?u2" "free_desc 2 ?u2 = Inr ?u3"
    using u(1) len by (simp_all add: free_desc_Inr QUEUE_SIZE_def busy3_def)
  then have "free_chain 2 ?u2 = Inr ?u3" "free_chain 1 ?u1 = free_chain 2 ?u2" "free_chain 0 u = free_chain 1 ?u1"
    using len d flags by (simp_all add: free_chain.simps [of 2] free_chain.simps [of "Suc 0"] free_chain.simps [of 0])
  then have "free_chain 0 u = Inr ?u3" by simp
  moreover have "busy3[0 := True, 1 := True, 2 := True] = replicate QUEUE_SIZE True"
    by (simp add: busy3_def QUEUE_SIZE_def numeral_eq_Suc)
  ultimately show ?thesis using len by (simp add: QUEUE_SIZE_def)
qed

text \<open>
  A whole transfer on an idle queue: the driver, the device and the interrupt together move one block
  between the medium and the buffer and leave the queue idle; a sector outside the medium panics.
\<close>

definition rw_effect :: "nat \<Rightarrow> bool \<Rightarrow> iostate \<Rightarrow> iostate \<Rightarrow> bool" where
  "rw_effect b rw s t \<longleftrightarrow> vidle t \<and> media t = served_media rw (bufs s ! b) (media s) \<and>
     bufs t = (bufs s)[b := (served_buf rw (bufs s ! b) (media s))\<lparr>b_disk := False\<rparr>] \<and>
     bhead t = bhead s \<and> bcache_lock t = bcache_lock s"

lemma virtio_disk_rw_idle:
  assumes s: "vidle s" and b: "b < length (bufs s)"
  shows "if media s (ucast (b_block_no (bufs s ! b))) = None
    then virtio_disk_rw b rw s = Inl (Panic ''disk interrupt status'')
    else \<exists>t. virtio_disk_rw b rw s = Inr t \<and> rw_effect b rw s t"
proof -
  obtain t where t: "vio_submit b rw s = Inr (0, t)" "submitted b rw s t" using vio_submit_idle [OF s b] by blast
  obtain u where u: "device_serve t = Inr u" "served b rw s u" using device_serve_submitted [OF s b t(2)] by blast
  note irq = reap_served [OF s b u(2)]
  show ?thesis
  proof (cases "media s (ucast (b_block_no (bufs s ! b))) = None")
    case True
    then show ?thesis using t(1) u(1) irq by (simp add: virtio_disk_rw_def vio_wait_def)
  next
    case False
    let ?v = "u\<lparr>used_idx := used_idx s + 1, bufs := (bufs s)[b := (served_buf rw (bufs s ! b) (media s))\<lparr>b_disk := False\<rparr>]\<rparr>"
    let ?w = "?v\<lparr>vlock := 1, info := (info ?v)[0 := (info ?v ! 0)\<lparr>info_buf := None\<rparr>]\<rparr>"
    have "vio_wait b t = Inr ?v" using u(1) irq False b by (simp add: vio_wait_def)
    moreover have "vlock ?v = 0" "0 < length (info ?v)" using u(2) by (simp_all add: served_def QUEUE_SIZE_def)
    ultimately have v: "virtio_disk_rw b rw s = kbind (free_chain 0 ?w) (\<lambda>x. Inr (x\<lparr>vlock := spin_unlock (vlock x)\<rparr>))"
      using t(1) by (simp add: virtio_disk_rw_def vio_finish_def set_info_def)
    obtain x where x: "free_chain 0 ?w = Inr x" "x = ?w\<lparr>vfree := vfree x, desc := desc x\<rparr>"
      "vfree x = replicate QUEUE_SIZE True" "length (desc x) = QUEUE_SIZE"
      using free_chain_served [of ?w b rw] u(2) by (auto simp: served_def)
    have same: "avail_ring x = avail_ring u" "avail_idx x = avail_idx u" "used_ring x = used_ring u"
      "used_dev_idx x = used_dev_idx u" "used_idx x = used_idx s + 1" "info x = info ?w" "ops x = ops u"
      "bufs x = bufs ?v" "bhead x = bhead u" "bcache_lock x = bcache_lock u" "dev_avail x = dev_avail u" "media x = media u"
      by (subst x(2), simp)+
    have "rw_effect b rw s (x\<lparr>vlock := 0\<rparr>)"
      unfolding rw_effect_def vidle_def using x(3,4) u(2) same by (simp add: served_def)
    then show ?thesis using v x(1) False by simp
  qed
qed


section \<open>The descriptor pool as a pool of slots\<close>

definition pool_inv :: "iostate \<Rightarrow> bool" where
  "pool_inv s \<longleftrightarrow> length (vfree s) = QUEUE_SIZE \<and> length (desc s) = QUEUE_SIZE"

definition live_descs :: "iostate \<Rightarrow> nat set" where
  "live_descs s = {i. i < QUEUE_SIZE \<and> \<not> vfree s ! i}"

definition release_desc :: "nat \<Rightarrow> iostate \<Rightarrow> iostate" where
  "release_desc i s = (case free_desc i s of Inl _ \<Rightarrow> s | Inr t \<Rightarrow> t)"

lemma alloc_desc_Some:
  assumes "pool_inv s" and "alloc_desc s = Some (i, t)"
  shows "i < QUEUE_SIZE \<and> vfree s ! i \<and> t = s\<lparr>vfree := (vfree s)[i := False]\<rparr>"
  using assms by (auto simp: alloc_desc_def split: option.splits dest!: first_index_Some)

lemma free_desc_live:
  assumes "pool_inv s" and "i \<in> live_descs s"
  shows "free_desc i s = Inr (s\<lparr>desc := (desc s)[i := desc0], vfree := (vfree s)[i := True]\<rparr>)"
  using assms by (auto simp: free_desc_Inr pool_inv_def live_descs_def)

interpretation desc_pool: slot_pool alloc_desc release_desc live_descs pool_inv
proof
  fix s i t assume p: "pool_inv s" and a: "alloc_desc s = Some (i, t)"
  note f = alloc_desc_Some [OF p a]
  show "i \<notin> live_descs s" using f by (simp add: live_descs_def)
  show "live_descs t = insert i (live_descs s)" using f p by (auto simp: live_descs_def pool_inv_def nth_list_update)
  show "pool_inv t" using f p by (simp add: pool_inv_def)
next
  fix s i assume p: "pool_inv s" and i: "i \<in> live_descs s"
  note f = free_desc_live [OF p i]
  show "live_descs (release_desc i s) = live_descs s - {i}" "pool_inv (release_desc i s)"
    using f p i by (auto simp: release_desc_def live_descs_def pool_inv_def nth_list_update)
qed

lemma alloc_descs_take:
  assumes "pool_inv s" and "alloc_descs s = Inr (Some (a, b, c), t)"
  shows "take_slots alloc_desc 3 s = Some ([a, b, c], t)"
  using assms(2) by (auto simp: alloc_descs_def numeral_3_eq_3 kbind_eq_Inr split: option.splits)

lemma alloc_descs_none:
  assumes p: "pool_inv s"
  shows "alloc_descs s = Inr (None, t) \<Longrightarrow> live_descs t = live_descs s \<and> pool_inv t"
    and "\<exists>r. alloc_descs s = Inr r"
proof -
  have one: "\<exists>t. free_desc i s2 = Inr t \<and> live_descs t = live_descs s2 - {i} \<and> pool_inv t" if "pool_inv s2" "i \<in> live_descs s2" for i s2
    using free_desc_live [OF that] that by (auto simp: live_descs_def pool_inv_def nth_list_update)
  have "(alloc_descs s = Inr (None, t) \<longrightarrow> live_descs t = live_descs s \<and> pool_inv t) \<and> (\<exists>r. alloc_descs s = Inr r)"
  proof (cases "alloc_desc s")
    case None
    then show ?thesis using p by (auto simp: alloc_descs_def)
  next
    case (Some r0)
    then obtain i0 s0 where a0: "alloc_desc s = Some (i0, s0)" by (cases r0) auto
    note l0 = desc_pool.alloc_fresh [OF p a0] desc_pool.alloc_live [OF p a0] desc_pool.alloc_inv [OF p a0]
    show ?thesis
    proof (cases "alloc_desc s0")
      case None
      then show ?thesis using a0 one [OF l0(3), of i0] l0 by (auto simp: alloc_descs_def)
    next
      case (Some r1)
      then obtain i1 s1 where a1: "alloc_desc s0 = Some (i1, s1)" by (cases r1) auto
      note l1 = desc_pool.alloc_fresh [OF l0(3) a1] desc_pool.alloc_live [OF l0(3) a1] desc_pool.alloc_inv [OF l0(3) a1]
      obtain u where u: "free_desc i0 s1 = Inr u" "live_descs u = live_descs s1 - {i0}" "pool_inv u"
        using one [OF l1(3), of i0] l0 l1 by auto
      have "i1 \<in> live_descs u" using u(2) l0 l1 by auto
      then obtain v where v: "free_desc i1 u = Inr v" "live_descs v = live_descs u - {i1}" "pool_inv v"
        using one [OF u(3), of i1] by auto
      have "live_descs v = live_descs s" using v(2) u(2) l0 l1 by auto
      then show ?thesis using a0 a1 u v by (auto simp: alloc_descs_def split: option.splits)
    qed
  qed
  then show "alloc_descs s = Inr (None, t) \<Longrightarrow> live_descs t = live_descs s \<and> pool_inv t" "\<exists>r. alloc_descs s = Inr r"
    by blast+
qed

text \<open>
  \<open>alloc_descs\<close> is all or nothing: it never fails; either it returns three distinct descriptors that were
  free and are now in use, or the set of descriptors in use is what it was.
\<close>

lemma alloc_descs_atomic:
  assumes "pool_inv s"
  shows "\<exists>r t. alloc_descs s = Inr (r, t) \<and> pool_inv t \<and>
    (case r of None \<Rightarrow> live_descs t = live_descs s
     | Some (a, b, c) \<Rightarrow> distinct [a, b, c] \<and> {a, b, c} \<inter> live_descs s = {} \<and> live_descs t = live_descs s \<union> {a, b, c})"
proof -
  obtain r t where r: "alloc_descs s = Inr (r, t)" using alloc_descs_none(2) [OF assms] by auto
  show ?thesis
  proof (cases r)
    case None
    then show ?thesis using alloc_descs_none(1) [OF assms] r by auto
  next
    case (Some p)
    then obtain a b c where p: "r = Some (a, b, c)" by (cases p) auto
    have "take_slots alloc_desc 3 s = Some ([a, b, c], t)" using alloc_descs_take assms r p by auto
    note desc_pool.take_slots_fresh [OF assms this]
    then show ?thesis using r p by auto
  qed
qed

section \<open>A small disk\<close>

definition buf0 :: buffer where
  "buf0 = \<lparr>b_valid = False, b_disk = False, b_dev = 0, b_block_no = 0, b_refcnt = 0, b_data = replicate 512 0,
     b_dirty = False, b_next = None, b_last = None\<rparr>"

definition idle_disk :: "buffer list \<Rightarrow> (u64 \<Rightarrow> block option) \<Rightarrow> iostate" where
  "idle_disk bs m = \<lparr>desc = replicate 8 desc0, avail_idx = 0, avail_ring = replicate 8 0, used_ring = replicate 8 (0, 0),
     used_dev_idx = 0, vfree = replicate 8 True, used_idx = 0,
     info = replicate 8 \<lparr>info_buf = None, info_status = 0\<rparr>, ops = replicate 8 \<lparr>r_type = 0, r_reserved = 0, r_sector = 0\<rparr>,
     vlock = 0, bufs = bs, bhead = 0, bcache_lock = 0, dev_avail = 0, media = m\<rparr>"

lemma idle_disk_vidle [simp]: "vidle (idle_disk bs m)"
  by (simp add: vidle_def idle_disk_def QUEUE_SIZE_def)


lemma alloc_descs_atomic_example:
  "\<exists>r t. alloc_descs (idle_disk [] Map.empty) = Inr (r, t) \<and> pool_inv t"
proof -
  have "pool_inv (idle_disk [] Map.empty)" by (simp add: pool_inv_def idle_disk_def QUEUE_SIZE_def)
  then show ?thesis using alloc_descs_atomic by blast
qed

end
