(* ===== verification/Buffer.thy ===== *)
theory Buffer
  imports Virtio
begin

text \<open>
  The block cache \<^verbatim>\<open>src/driver/buffer.c\<close> over the virtio driver, its invariant, and the interface
  \<open>block_store\<close> the file system is written against: reading a block returns the contents of the medium,
  updating a block changes the medium there and nowhere else, and both can fail only for want of a
  free buffer.
\<close>

definition BUFFER_NUM :: nat where "BUFFER_NUM = 30"

section \<open>The operations\<close>

fun link_bufs :: "nat \<Rightarrow> buffer list \<Rightarrow> buffer list" where
  "link_bufs 0 bs = bs"
| "link_bufs (Suc n) bs =
     (let i = BUFFER_NUM - Suc n
      in link_bufs n (bs[i - 1 := (bs ! (i - 1))\<lparr>b_next := Some i\<rparr>, i := (bs ! i)\<lparr>b_last := Some (i - 1), b_next := None\<rparr>]))"

definition Init_buffer :: "iostate \<Rightarrow> iostate" where
  "Init_buffer s = s\<lparr>bhead := 0, bufs := link_bufs (BUFFER_NUM - 1) ((bufs s)[0 := (bufs s ! 0)\<lparr>b_last := None\<rparr>])\<rparr>"

text \<open>The last index below a bound at which a test holds: the downward scan of \<^verbatim>\<open>bget\<close>.\<close>

fun down_index :: "(nat \<Rightarrow> bool) \<Rightarrow> nat \<Rightarrow> nat option" where
  "down_index P 0 = None"
| "down_index P (Suc n) = (if P n then Some n else down_index P n)"

text \<open>The scan for a cached block stops before the last buffer.\<close>

definition bget :: "u32 \<Rightarrow> u32 \<Rightarrow> iostate \<Rightarrow> (nat \<times> iostate) res" where
  "bget dev block_no s =
     kbind (spin_lock (bcache_lock s)) (\<lambda>l.
       case first_index (\<lambda>i. b_dev (bufs s ! i) = dev \<and> b_block_no (bufs s ! i) = block_no) 0 (BUFFER_NUM - 1) of
         Some i \<Rightarrow> Inr (i, s\<lparr>bufs := (bufs s)[i := (bufs s ! i)\<lparr>b_refcnt := b_refcnt (bufs s ! i) + 1\<rparr>], bcache_lock := spin_unlock l\<rparr>)
       | None \<Rightarrow>
         (case down_index (\<lambda>i. b_refcnt (bufs s ! i) = 0) BUFFER_NUM of
            Some i \<Rightarrow> Inr (i, s\<lparr>bufs := (bufs s)[i := (bufs s ! i)\<lparr>b_dev := dev, b_block_no := block_no, b_valid := False,
              b_refcnt := b_refcnt (bufs s ! i) + 1\<rparr>], bcache_lock := spin_unlock l\<rparr>)
          | None \<Rightarrow> Inl (Panic ''no free buffer to get'')))"

definition bread :: "u32 \<Rightarrow> u32 \<Rightarrow> iostate \<Rightarrow> (nat \<times> iostate) res" where
  "bread dev block_no s =
     kbind (bget dev block_no s) (\<lambda>(i, s).
     kbind (kget (bufs s) i) (\<lambda>buf.
       if b_valid buf then Inr (i, s)
       else kbind (virtio_disk_rw i False s) (\<lambda>s.
            kbind (set_buf i (\<lambda>b. b\<lparr>b_valid := True, b_dirty := False\<rparr>) s) (\<lambda>s. Inr (i, s)))))"

definition bwrite :: "nat \<Rightarrow> iostate \<Rightarrow> iostate res" where
  "bwrite i s = set_buf i (b_dirty_update (\<lambda>_. True)) s"

text \<open>
  \<^verbatim>\<open>brelse\<close>: the reference count is tested but never lowered. With a count of zero the buffer would be
  unlinked and put before the head (the new head is stored in a local variable only).
\<close>

definition brelse :: "nat \<Rightarrow> iostate \<Rightarrow> iostate res" where
  "brelse i s =
     kbind (kget (bufs s) i) (\<lambda>buf.
     kbind (if b_dirty buf then kbind (virtio_disk_rw i True s) (set_buf i (b_dirty_update (\<lambda>_. False))) else Inr s) (\<lambda>s.
     kbind (spin_lock (bcache_lock s)) (\<lambda>l.
     kbind (kget (bufs s) i) (\<lambda>buf.
       if b_refcnt buf \<noteq> 0 then Inr (s\<lparr>bcache_lock := spin_unlock l\<rparr>)
       else case b_last buf of
              None \<Rightarrow> Inl NullDeref
            | Some p \<Rightarrow>
                kbind (set_buf p (b_next_update (\<lambda>_. b_next buf)) s) (\<lambda>s.
                kbind (set_buf (bhead s) (b_last_update (\<lambda>_. Some i)) s) (\<lambda>s.
                kbind (set_buf i (\<lambda>b. b\<lparr>b_next := Some (bhead s), b_last := None\<rparr>) s) (\<lambda>s.
                  Inr (s\<lparr>bcache_lock := spin_unlock l\<rparr>))))))))"

definition bpin :: "nat \<Rightarrow> iostate \<Rightarrow> nat res" where
  "bpin i s = kbind (kget (bufs s) i) (\<lambda>b. Inr (b_refcnt b))"

definition bunpin :: "nat \<Rightarrow> iostate \<Rightarrow> nat res" where
  "bunpin i s = kbind (kget (bufs s) i) (\<lambda>b. Inr (b_refcnt b))"

text \<open>How the file system uses them: read a block and let it go; read, change, mark dirty and let go.\<close>

definition bdata :: "nat \<Rightarrow> iostate \<Rightarrow> block res" where
  "bdata i s = kbind (kget (bufs s) i) (\<lambda>b. Inr (b_data b))"

definition rd_blk :: "u32 \<Rightarrow> u32 \<Rightarrow> iostate \<Rightarrow> (block \<times> iostate) res" where
  "rd_blk dev k s = kbind (bread dev k s) (\<lambda>(i, s). kbind (bdata i s) (\<lambda>d. kbind (brelse i s) (\<lambda>s. Inr (d, s))))"

definition upd_blk :: "u32 \<Rightarrow> u32 \<Rightarrow> (block \<Rightarrow> block) \<Rightarrow> iostate \<Rightarrow> iostate res" where
  "upd_blk dev k f s =
     kbind (bread dev k s) (\<lambda>(i, s). kbind (set_buf i (\<lambda>b. b\<lparr>b_data := f (b_data b)\<rparr>) s) (\<lambda>s. kbind (bwrite i s) (brelse i)))"

section \<open>Invariant\<close>

text \<open>
  Between operations on device \<open>d\<close>: the queue is idle, no buffer is dirty, and every valid buffer the scan
  of \<^verbatim>\<open>bget\<close> can find belongs to \<open>d\<close>, is the only one for its block and holds what is on the medium;
  the others do not belong to \<open>d\<close> (they have the device number 0 of the static initialisation).
\<close>

definition coherent :: "u32 \<Rightarrow> iostate \<Rightarrow> bool" where
  "coherent d s \<longleftrightarrow>
     (\<forall>i<BUFFER_NUM - 1. b_valid (bufs s ! i) \<longrightarrow> b_dev (bufs s ! i) = d \<and> b_refcnt (bufs s ! i) \<noteq> 0 \<and>
        media s (ucast (b_block_no (bufs s ! i))) = Some (b_data (bufs s ! i))) \<and>
     (\<forall>i<BUFFER_NUM - 1. \<not> b_valid (bufs s ! i) \<longrightarrow> b_dev (bufs s ! i) \<noteq> d) \<and>
     (\<forall>i<BUFFER_NUM - 1. \<forall>j<BUFFER_NUM - 1. b_valid (bufs s ! i) \<longrightarrow> b_valid (bufs s ! j) \<longrightarrow>
        b_block_no (bufs s ! i) = b_block_no (bufs s ! j) \<longrightarrow> i = j)"

definition binv :: "u32 \<Rightarrow> iostate \<Rightarrow> bool" where
  "binv d s \<longleftrightarrow> vidle s \<and> bcache_lock s = 0 \<and> length (bufs s) = BUFFER_NUM \<and>
     (\<forall>i<BUFFER_NUM. \<not> b_dirty (bufs s ! i)) \<and> coherent d s"

definition bfree :: "iostate \<Rightarrow> nat" where
  "bfree s = length (filter (\<lambda>b. b_refcnt b = 0) (bufs s))"

lemma down_index_Some: "down_index P n = Some i \<Longrightarrow> i < n \<and> P i"
  by (induction n) (auto split: if_splits)

lemma down_index_None: "down_index P n = None \<longleftrightarrow> (\<forall>i<n. \<not> P i)"
  by (induction n) (auto simp: less_Suc_eq)

lemma filter_update:
  "i < length xs \<Longrightarrow> length (filter P (xs[i := x])) = length (filter P xs) - (if P (xs ! i) then 1 else 0) + (if P x then 1 else 0)"
proof (induction xs arbitrary: i)
  case (Cons y ys)
  show ?case
  proof (cases i)
    case (Suc j)
    then have "j < length ys" using Cons.prems by simp
    moreover have "length (filter P ys) \<noteq> 0" if "P (ys ! j)"
      using that \<open>j < length ys\<close> by (auto simp: filter_empty_conv dest: nth_mem)
    ultimately show ?thesis using Cons.IH [of j] Suc by auto
  qed simp
qed simp

lemma bfree_zero: "bfree s = 0 \<longleftrightarrow> (\<forall>i<length (bufs s). b_refcnt (bufs s ! i) \<noteq> 0)"
  by (auto simp: bfree_def filter_empty_conv all_set_conv_all_nth)

lemma ucast64_inj: "(ucast (x :: u32) :: u64) = ucast y \<longleftrightarrow> x = y"
  by (metis narrow_widen(4))

text \<open>Replacing one buffer, perhaps together with its block on the medium.\<close>

lemma binv_update:
  assumes s: "binv d s" and i: "i < BUFFER_NUM"
    and t: "vidle t" "bcache_lock t = 0" "bufs t = (bufs s)[i := B]" "\<not> b_dirty B"
    and B: "b_valid B" "b_dev B = d" "b_refcnt B \<noteq> 0" "media t (ucast (b_block_no B)) = Some (b_data B)"
    and others: "\<And>j. j < BUFFER_NUM - 1 \<Longrightarrow> j \<noteq> i \<Longrightarrow> b_valid (bufs s ! j) \<Longrightarrow>
      b_block_no (bufs s ! j) \<noteq> b_block_no B \<and> media t (ucast (b_block_no (bufs s ! j))) = media s (ucast (b_block_no (bufs s ! j)))"
  shows "binv d t"
proof -
  have len: "length (bufs s) = BUFFER_NUM" and lt: "BUFFER_NUM - 1 < BUFFER_NUM" using s by (simp_all add: binv_def BUFFER_NUM_def)
  have eq: "bufs t ! j = (if j = i then B else bufs s ! j)" if "j < BUFFER_NUM" for j
    using that t(3) len i by (simp add: nth_list_update)
  have "coherent d t"
    unfolding coherent_def
  proof (intro conjI allI impI)
    fix j assume j: "j < BUFFER_NUM - 1" and v: "b_valid (bufs t ! j)"
    have e: "bufs t ! j = (if j = i then B else bufs s ! j)" using eq j lt by simp
    show "b_dev (bufs t ! j) = d" "b_refcnt (bufs t ! j) \<noteq> 0"
      "media t (ucast (b_block_no (bufs t ! j))) = Some (b_data (bufs t ! j))"
      using e v B s others [of j] j by (auto simp: binv_def coherent_def split: if_splits)
  next
    fix j assume j: "j < BUFFER_NUM - 1" "\<not> b_valid (bufs t ! j)"
    then show "b_dev (bufs t ! j) \<noteq> d" using eq [of j] lt B(1) s by (auto simp: binv_def coherent_def split: if_splits)
  next
    fix j k assume jk: "j < BUFFER_NUM - 1" "k < BUFFER_NUM - 1" "b_valid (bufs t ! j)" "b_valid (bufs t ! k)"
      "b_block_no (bufs t ! j) = b_block_no (bufs t ! k)"
    then show "j = k" using eq [of j] eq [of k] lt s others [of j] others [of k]
      by (auto simp: binv_def coherent_def split: if_splits)
  qed
  moreover have "\<not> b_dirty (bufs t ! j)" if "j < BUFFER_NUM" for j
    using that eq [of j] t(4) s by (auto simp: binv_def)
  ultimately show ?thesis using t len by (simp add: binv_def)
qed

text \<open>What \<^verbatim>\<open>bread\<close> returns.\<close>

definition held :: "u32 \<Rightarrow> u32 \<Rightarrow> block \<Rightarrow> nat \<Rightarrow> iostate \<Rightarrow> bool" where
  "held d k blk i t \<longleftrightarrow> binv d t \<and> i < BUFFER_NUM \<and> b_valid (bufs t ! i) \<and> b_dev (bufs t ! i) = d \<and> b_block_no (bufs t ! i) = k \<and>
     b_data (bufs t ! i) = blk \<and> b_refcnt (bufs t ! i) \<noteq> 0 \<and> media t (ucast k) = Some blk \<and>
     (\<forall>j<BUFFER_NUM - 1. j \<noteq> i \<longrightarrow> b_valid (bufs t ! j) \<longrightarrow> b_block_no (bufs t ! j) \<noteq> k)"

lemma bread_hit:
  assumes s: "binv d s" and f: "first_index (\<lambda>i. b_dev (bufs s ! i) = d \<and> b_block_no (bufs s ! i) = k) 0 (BUFFER_NUM - 1) = Some i"
  shows "\<exists>t blk. bread d k s = Inr (i, t) \<and> held d k blk i t \<and> media t = media s \<and> bfree t = bfree s"
proof -
  have i: "i < BUFFER_NUM - 1" "b_dev (bufs s ! i) = d" "b_block_no (bufs s ! i) = k" using first_index_Some [OF f] by auto
  then have v: "b_valid (bufs s ! i)" "b_refcnt (bufs s ! i) \<noteq> 0" "media s (ucast k) = Some (b_data (bufs s ! i))"
    using s by (auto simp: binv_def coherent_def)
  have len: "length (bufs s) = BUFFER_NUM" and il: "i < BUFFER_NUM" using s i by (simp_all add: binv_def)
  let ?B = "(bufs s ! i)\<lparr>b_refcnt := b_refcnt (bufs s ! i) + 1\<rparr>"
  let ?t = "s\<lparr>bufs := (bufs s)[i := ?B], bcache_lock := 0\<rparr>"
  have oth: "b_block_no (bufs s ! j) \<noteq> k" if "j < BUFFER_NUM - 1" "j \<noteq> i" "b_valid (bufs s ! j)" for j
    using that i s v(1) by (auto simp: binv_def coherent_def)
  have "binv d ?t"
    by (rule binv_update [OF s il, where B = ?B]) (use s i v oth il in \<open>auto simp: binv_def vidle_def\<close>)
  then have "held d k (b_data (bufs s ! i)) i ?t"
    using i v il len oth by (auto simp: held_def nth_list_update)
  moreover have "bread d k s = Inr (i, ?t)"
    using f s v(1) il len by (simp add: bread_def bget_def binv_def)
  moreover have "bfree ?t = bfree s" using il len v(2) by (simp add: bfree_def filter_update)
  ultimately show ?thesis by auto
qed

lemma bread_miss:
  assumes s: "binv d s" and f: "first_index (\<lambda>i. b_dev (bufs s ! i) = d \<and> b_block_no (bufs s ! i) = k) 0 (BUFFER_NUM - 1) = None"
    and m: "media s (ucast k) = Some blk"
  shows "if bfree s = 0 then bread d k s = Inl (Panic ''no free buffer to get'')
    else \<exists>i t. bread d k s = Inr (i, t) \<and> held d k blk i t \<and> media t = media s \<and> bfree s = bfree t + 1 \<and>
      (\<forall>j. j \<noteq> i \<longrightarrow> bufs t ! j = bufs s ! j)"
proof -
  have len: "length (bufs s) = BUFFER_NUM" and l: "bcache_lock s = 0" using s by (simp_all add: binv_def)
  show ?thesis
  proof (cases "down_index (\<lambda>i. b_refcnt (bufs s ! i) = 0) BUFFER_NUM")
    case None
    then have "bfree s = 0" by (simp add: bfree_zero down_index_None len)
    then show ?thesis using None f l by (simp add: bread_def bget_def)
  next
    case (Some i)
    then have i: "i < BUFFER_NUM" "b_refcnt (bufs s ! i) = 0" using down_index_Some by blast+
    let ?A = "(bufs s ! i)\<lparr>b_dev := d, b_block_no := k, b_valid := False, b_refcnt := b_refcnt (bufs s ! i) + 1\<rparr>"
    let ?u = "s\<lparr>bufs := (bufs s)[i := ?A], bcache_lock := 0\<rparr>"
    have u: "vidle ?u" "bufs ?u ! i = ?A" "i < length (bufs ?u)" using s i len by (simp_all add: binv_def vidle_def)
    obtain w where w: "virtio_disk_rw i False ?u = Inr w" "rw_effect i False ?u w"
      using virtio_disk_rw_idle [OF u(1,3), of False] u(2) m by auto
    define B where "B = ?A\<lparr>b_data := blk, b_disk := False, b_valid := True, b_dirty := False\<rparr>"
    have wb: "bufs w = (bufs s)[i := ?A\<lparr>b_data := blk, b_disk := False\<rparr>]" "media w = media s" "vidle w" "bcache_lock w = 0"
      using w(2) u(2) m i len by (simp_all add: rw_effect_def served_buf_def served_media_def)
    let ?t = "w\<lparr>bufs := (bufs s)[i := B]\<rparr>"
    have oth: "b_block_no (bufs s ! j) \<noteq> k" if "j < BUFFER_NUM - 1" "b_valid (bufs s ! j)" for j
      using that s f by (auto simp: binv_def coherent_def first_index_None)
    have "binv d ?t"
      by (rule binv_update [OF s i(1), where B = B]) (use wb m oth in \<open>auto simp: B_def vidle_def\<close>)
    then have "held d k blk i ?t"
      using i len oth m wb by (auto simp: held_def B_def nth_list_update)
    moreover have "bread d k s = Inr (i, ?t)"
      using f Some l w(1) wb(1) i len by (simp add: bread_def bget_def set_buf_def B_def)
    moreover have "bfree s = bfree ?t + 1"
    proof -
      have "bfree s \<noteq> 0" using i len by (auto simp: bfree_zero)
      then show ?thesis using i len by (simp add: bfree_def filter_update B_def)
    qed
    ultimately show ?thesis using wb(2) by (intro if_not_P [THEN iffD2, rotated]) auto
  qed
qed

lemma bread_cases:
  assumes s: "binv d s" and m: "media s (ucast k) = Some blk"
  shows "(bfree s = 0 \<and> bread d k s = Inl (Panic ''no free buffer to get'')) \<or>
    (\<exists>i t. bread d k s = Inr (i, t) \<and> held d k blk i t \<and> media t = media s \<and> bfree t \<le> bfree s \<and> bfree s \<le> bfree t + 1)"
proof (cases "first_index (\<lambda>i. b_dev (bufs s ! i) = d \<and> b_block_no (bufs s ! i) = k) 0 (BUFFER_NUM - 1)")
  case (Some i)
  obtain t b where t: "bread d k s = Inr (i, t)" "held d k b i t" "media t = media s" "bfree t = bfree s"
    using bread_hit [OF s Some] by blast
  moreover have "b = blk" using t(2,3) m by (simp add: held_def)
  ultimately show ?thesis by auto
next
  case None
  show ?thesis using bread_miss [OF s None m] by (auto split: if_splits)
qed

lemma brelse_clean: "held d k blk i t \<Longrightarrow> brelse i t = Inr t"
  by (simp add: brelse_def held_def binv_def)

lemma bdata_held: "held d k blk i t \<Longrightarrow> bdata i t = Inr blk"
  by (simp add: bdata_def held_def binv_def)

lemma upd_held:
  assumes t: "held d k blk i t"
  shows "\<exists>u. kbind (set_buf i (\<lambda>b. b\<lparr>b_data := f (b_data b)\<rparr>) t) (\<lambda>s. kbind (bwrite i s) (brelse i)) = Inr u \<and> binv d u \<and>
    media u = (media t)(ucast k \<mapsto> f blk) \<and> bfree u = bfree t"
proof -
  have len: "length (bufs t) = BUFFER_NUM" and i: "i < BUFFER_NUM" and v: "vidle t" and b: "binv d t" and l: "bcache_lock t = 0"
    using t by (simp_all add: held_def binv_def)
  let ?A = "(bufs t ! i)\<lparr>b_data := f blk, b_dirty := True\<rparr>"
  let ?w = "t\<lparr>bufs := (bufs t)[i := ?A]\<rparr>"
  have w: "vidle ?w" "i < length (bufs ?w)" "bufs ?w ! i = ?A" using v len i by (simp_all add: vidle_def)
  obtain x where x: "virtio_disk_rw i True ?w = Inr x" "rw_effect i True ?w x"
    using virtio_disk_rw_idle [OF w(1,2), of True] w(3) t by (auto simp: held_def)
  define B where "B = ?A\<lparr>b_disk := False, b_dirty := False\<rparr>"
  have xb: "bufs x = (bufs t)[i := ?A\<lparr>b_disk := False\<rparr>]" "media x = (media t)(ucast k \<mapsto> f blk)" "vidle x" "bcache_lock x = 0"
    using x(2) w(3) t i len l by (simp_all add: rw_effect_def served_buf_def served_media_def held_def)
  let ?u = "x\<lparr>bufs := (bufs t)[i := B]\<rparr>"
  have "kbind (set_buf i (\<lambda>b. b\<lparr>b_data := f (b_data b)\<rparr>) t) (\<lambda>s. kbind (bwrite i s) (brelse i)) = brelse i ?w"
    using i len t by (simp add: set_buf_def bwrite_def held_def)
  also have "\<dots> = Inr (?u\<lparr>bcache_lock := 0\<rparr>)"
    using x(1) xb i len t by (simp add: brelse_def set_buf_def B_def held_def)
  also have "?u\<lparr>bcache_lock := 0\<rparr> = ?u" using xb(4) by simp
  finally have r: "kbind (set_buf i (\<lambda>b. b\<lparr>b_data := f (b_data b)\<rparr>) t) (\<lambda>s. kbind (bwrite i s) (brelse i)) = Inr ?u" .
  have "binv d ?u"
  proof (rule binv_update [OF b i, where B = B])
    fix j assume "j < BUFFER_NUM - 1" "j \<noteq> i" "b_valid (bufs t ! j)"
    then have "b_block_no (bufs t ! j) \<noteq> k" using t by (simp add: held_def)
    then show "b_block_no (bufs t ! j) \<noteq> b_block_no B \<and>
        media ?u (ucast (b_block_no (bufs t ! j))) = media t (ucast (b_block_no (bufs t ! j)))"
      using t xb(2) by (simp add: B_def held_def ucast64_inj)
  qed (use xb t in \<open>simp_all add: B_def held_def vidle_def\<close>)
  moreover have "bfree ?u = bfree t" using i len t by (simp add: bfree_def filter_update B_def held_def)
  ultimately show ?thesis using r xb(2) by auto
qed

lemma rd_blk_cases:
  assumes "binv d s" and "media s (ucast k) = Some blk"
  shows "(bfree s = 0 \<and> rd_blk d k s = Inl (Panic ''no free buffer to get'')) \<or>
    (\<exists>t. rd_blk d k s = Inr (blk, t) \<and> binv d t \<and> media t = media s \<and> bfree t \<le> bfree s \<and> bfree s \<le> bfree t + 1)"
  using bread_cases [OF assms]
  by (auto simp: rd_blk_def bdata_held brelse_clean held_def [where t = t for t])

lemma upd_blk_cases:
  assumes "binv d s" and "media s (ucast k) = Some blk"
  shows "(bfree s = 0 \<and> upd_blk d k f s = Inl (Panic ''no free buffer to get'')) \<or>
    (\<exists>t. upd_blk d k f s = Inr t \<and> binv d t \<and> media t = (media s)(ucast k \<mapsto> f blk) \<and> bfree t \<le> bfree s \<and> bfree s \<le> bfree t + 1)"
proof -
  from bread_cases [OF assms] show ?thesis
  proof (elim disjE exE conjE)
    assume "bfree s = 0" "bread d k s = Inl (Panic ''no free buffer to get'')"
    then show ?thesis by (simp add: upd_blk_def)
  next
    fix i t assume t: "bread d k s = Inr (i, t)" "held d k blk i t" "media t = media s" "bfree t \<le> bfree s" "bfree s \<le> bfree t + 1"
    show ?thesis using t upd_held [OF t(2), of f] by (auto simp: upd_blk_def)
  qed
qed

section \<open>Interface: a store of blocks\<close>

text \<open>
  What the file system relies on: \<open>view\<close> is the contents of the store, \<open>room\<close> the number of blocks that can
  still be brought in, \<open>full\<close> the error when there is none.
\<close>

locale block_store =
  fixes rd :: "'k \<Rightarrow> 's \<Rightarrow> ('b \<times> 's) res" and upd :: "'k \<Rightarrow> ('b \<Rightarrow> 'b) \<Rightarrow> 's \<Rightarrow> 's res"
    and view :: "'s \<Rightarrow> 'k \<Rightarrow> 'b option" and inv :: "'s \<Rightarrow> bool" and room :: "'s \<Rightarrow> nat" and full :: kerror
  assumes rd_law: "inv s \<Longrightarrow> view s k = Some b \<Longrightarrow>
      (room s = 0 \<and> rd k s = Inl full) \<or>
      (\<exists>t. rd k s = Inr (b, t) \<and> inv t \<and> view t = view s \<and> room t \<le> room s \<and> room s \<le> room t + 1)"
    and upd_law: "inv s \<Longrightarrow> view s k = Some b \<Longrightarrow>
      (room s = 0 \<and> upd k f s = Inl full) \<or>
      (\<exists>t. upd k f s = Inr t \<and> inv t \<and> view t = (view s)(k \<mapsto> f b) \<and> room t \<le> room s \<and> room s \<le> room t + 1)"
begin

lemma rd_Inr:
  assumes "inv s" and "view s k = Some b" and "rd k s = Inr (b', t)"
  shows "b' = b \<and> inv t \<and> view t = view s"
  using rd_law [OF assms(1,2)] assms(3) by auto

lemma upd_Inr:
  assumes "inv s" and "view s k = Some b" and "upd k f s = Inr t"
  shows "inv t \<and> view t = (view s)(k \<mapsto> f b)"
  using upd_law [OF assms(1,2), of f] assms(3) by auto

lemma rd_room:
  assumes "inv s" and "view s k = Some b" and "0 < room s"
  obtains t where "rd k s = Inr (b, t)" "inv t" "view t = view s" "room s \<le> room t + 1"
  using rd_law [OF assms(1,2)] assms(3) by auto

lemma upd_room:
  assumes "inv s" and "view s k = Some b" and "0 < room s"
  obtains t where "upd k f s = Inr t" "inv t" "view t = (view s)(k \<mapsto> f b)" "room s \<le> room t + 1"
  using upd_law [OF assms(1,2), of f] assms(3) by auto

lemma upd_rd:
  assumes "inv s" and "view s k = Some b" and "upd k f s = Inr t" and "rd k' t = Inr (b', u)" and "view s k' = Some c"
  shows "b' = (if k' = k then f b else c)"
proof -
  have t: "inv t" "view t = (view s)(k \<mapsto> f b)" using upd_Inr [OF assms(1-3)] by auto
  then have "view t k' = Some (if k' = k then f b else c)" using assms(5) by auto
  then show ?thesis using rd_Inr [OF t(1) _ assms(4)] by blast
qed

end

definition sectors :: "iostate \<Rightarrow> u32 \<Rightarrow> block option" where
  "sectors s k = media s (ucast k)"

lemma sectors_update: "(\<lambda>j. ((media s)(ucast (k :: u32) \<mapsto> b)) (ucast j)) = (sectors s)(k \<mapsto> b)"
  by (auto simp: sectors_def ucast64_inj fun_eq_iff)

interpretation bcache: block_store "rd_blk d" "upd_blk d" sectors "binv d" bfree "Panic ''no free buffer to get''"
proof
  fix s k b f assume s: "binv d s" "sectors s k = Some b"
  then have m: "media s (ucast k) = Some b" by (simp add: sectors_def)
  show "(bfree s = 0 \<and> rd_blk d k s = Inl (Panic ''no free buffer to get'')) \<or>
      (\<exists>t. rd_blk d k s = Inr (b, t) \<and> binv d t \<and> sectors t = sectors s \<and> bfree t \<le> bfree s \<and> bfree s \<le> bfree t + 1)"
    using rd_blk_cases [OF s(1) m] by (auto simp: sectors_def [abs_def])
  show "(bfree s = 0 \<and> upd_blk d k f s = Inl (Panic ''no free buffer to get'')) \<or>
      (\<exists>t. upd_blk d k f s = Inr t \<and> binv d t \<and> sectors t = (sectors s)(k \<mapsto> f b) \<and> bfree t \<le> bfree s \<and> bfree s \<le> bfree t + 1)"
    using upd_blk_cases [OF s(1) m, of f] sectors_update [of s k "f b"] by (auto simp: sectors_def [abs_def])
qed

text \<open>
  C13. Coherence of the cache: after a block was updated through the cache, reading any block through the cache returns
  the update for that block and the contents of the medium for every other one, also when the first
  buffer used was the last of the table, which later scans do not find.
\<close>

theorem buffer_coherence:
  assumes "binv d s" and "sectors s k = Some b" and "sectors s k' = Some c"
    and "upd_blk d k f s = Inr t" and "rd_blk d k' t = Inr (b', u)"
  shows "b' = (if k' = k then f b else c) \<and> binv d u \<and> sectors u = (sectors s)(k \<mapsto> f b)"
proof -
  have t: "binv d t" "sectors t = (sectors s)(k \<mapsto> f b)" using bcache.upd_Inr [OF assms(1,2,4)] by auto
  then obtain e where "sectors t k' = Some e" using assms(3) by (cases "k' = k") auto
  then show ?thesis using bcache.upd_rd [OF assms(1,2,4,5,3)] bcache.rd_Inr [OF t(1) _ assms(5)] t(2) by auto
qed

section \<open>Buffers are never given back\<close>

fun read_seq :: "u32 \<Rightarrow> u32 list \<Rightarrow> iostate \<Rightarrow> iostate res" where
  "read_seq d [] s = Inr s"
| "read_seq d (k # ks) s = kbind (rd_blk d k s) (\<lambda>(_, s). read_seq d ks s)"

definition uncached :: "u32 \<Rightarrow> u32 \<Rightarrow> iostate \<Rightarrow> bool" where
  "uncached d k s \<longleftrightarrow> first_index (\<lambda>i. b_dev (bufs s ! i) = d \<and> b_block_no (bufs s ! i) = k) 0 (BUFFER_NUM - 1) = None"

lemma read_seq_exhausts:
  "binv d s \<Longrightarrow> distinct ks \<Longrightarrow> (\<forall>k\<in>set ks. uncached d k s \<and> sectors s k \<noteq> None) \<Longrightarrow> bfree s < length ks \<Longrightarrow>
   read_seq d ks s = Inl (Panic ''no free buffer to get'')"
proof (induction ks arbitrary: s)
  case (Cons k ks)
  obtain b where b: "media s (ucast k) = Some b" using Cons.prems(3) by (auto simp: sectors_def)
  have u: "first_index (\<lambda>i. b_dev (bufs s ! i) = d \<and> b_block_no (bufs s ! i) = k) 0 (BUFFER_NUM - 1) = None"
    using Cons.prems(3) by (simp add: uncached_def)
  show ?case
  proof (cases "bfree s = 0")
    case True
    then show ?thesis using bread_miss [OF Cons.prems(1) u b] by (simp add: rd_blk_def)
  next
    case False
    then obtain i t where t: "bread d k s = Inr (i, t)" "held d k b i t" "media t = media s" "bfree s = bfree t + 1"
      "\<forall>j. j \<noteq> i \<longrightarrow> bufs t ! j = bufs s ! j"
      using bread_miss [OF Cons.prems(1) u b] by auto
    have "uncached d k' t \<and> sectors t k' \<noteq> None" if k': "k' \<in> set ks" for k'
    proof -
      have ne: "k' \<noteq> k" and un: "uncached d k' s" using Cons.prems(2,3) k' by auto
      have "\<not> (b_dev (bufs t ! j) = d \<and> b_block_no (bufs t ! j) = k')" if "j < BUFFER_NUM - 1" for j
        using that t(2,5) ne un by (cases "j = i") (auto simp: uncached_def first_index_None held_def)
      then show ?thesis using Cons.prems(3) k' t(3) by (simp add: uncached_def first_index_None sectors_def)
    qed
    moreover have "binv d t" using t(2) by (simp add: held_def)
    moreover have "rd_blk d k s = Inr (b, t)" using t(1,2) by (simp add: rd_blk_def bdata_held brelse_clean)
    ultimately show ?thesis using Cons.IH [of t] Cons.prems(2,4) t(4) by simp
  qed
qed simp

text \<open>The static initial state: thirty zero buffers on an idle queue, linked by \<open>Init_buffer\<close>.\<close>

definition boot_io :: "(u64 \<Rightarrow> block option) \<Rightarrow> iostate" where
  "boot_io m = Init_buffer (idle_disk (replicate BUFFER_NUM buf0) m)"

definition unlinked :: "buffer \<Rightarrow> buffer" where
  "unlinked b = b\<lparr>b_next := None, b_last := None\<rparr>"

lemma unlinked_sel:
  "b_valid (unlinked b) = b_valid b" "b_dev (unlinked b) = b_dev b" "b_dirty (unlinked b) = b_dirty b"
  "b_refcnt (unlinked b) = b_refcnt b"
  by (simp_all add: unlinked_def)

lemma map_unlinked_update: "unlinked x = unlinked (bs ! i) \<Longrightarrow> map unlinked (bs[i := x]) = map unlinked bs"
  by (cases "i < length bs") (simp_all add: map_update list_update_same_conv list_update_beyond)

lemma link_bufs_unlinked: "map unlinked (link_bufs n bs) = map unlinked bs"
proof (induction n arbitrary: bs)
  case (Suc n)
  let ?i = "BUFFER_NUM - Suc n"
  let ?b1 = "bs[?i - 1 := (bs ! (?i - 1))\<lparr>b_next := Some ?i\<rparr>]"
  have 1: "map unlinked ?b1 = map unlinked bs" by (rule map_unlinked_update) (simp add: unlinked_def)
  have "map unlinked (bs[?i - 1 := x, ?i := (bs ! ?i)\<lparr>b_last := la, b_next := nx\<rparr>]) = map unlinked (bs[?i - 1 := x])"
    if "unlinked x = unlinked (bs ! (?i - 1))" for x la nx
  proof (rule map_unlinked_update)
    have "unlinked ((bs ! ?i)\<lparr>b_last := la, b_next := nx\<rparr>) = unlinked (bs ! ?i)" by (simp add: unlinked_def)
    also have "\<dots> = unlinked (bs[?i - 1 := x] ! ?i)"
      using that by (cases "?i - 1 = ?i"; cases "?i < length bs") (simp_all add: list_update_beyond)
    finally show "unlinked ((bs ! ?i)\<lparr>b_last := la, b_next := nx\<rparr>) = unlinked (bs[?i - 1 := x] ! ?i)" .
  qed
  then have "map unlinked (bs[?i - 1 := (bs ! (?i - 1))\<lparr>b_next := Some ?i\<rparr>, ?i := (bs ! ?i)\<lparr>b_last := Some (?i - 1), b_next := None\<rparr>])
      = map unlinked bs"
    using 1 by (simp add: unlinked_def)
  then show ?case using Suc.IH by (simp add: Let_def)
qed simp

lemma boot_io_bufs: "map unlinked (bufs (boot_io m)) = replicate BUFFER_NUM buf0"
proof -
  have "unlinked buf0 = buf0" "buf0\<lparr>b_last := None\<rparr> = buf0" by (simp_all add: unlinked_def buf0_def)
  moreover have "(replicate 30 buf0)[0 := buf0] = replicate 30 buf0" by (simp add: list_update_same_conv)
  ultimately show ?thesis
    by (simp add: boot_io_def Init_buffer_def idle_disk_def BUFFER_NUM_def link_bufs_unlinked)
qed

lemma boot_io_buf:
  assumes "j < BUFFER_NUM"
  shows "\<not> b_valid (bufs (boot_io m) ! j)" "b_dev (bufs (boot_io m) ! j) = 0" "\<not> b_dirty (bufs (boot_io m) ! j)"
    "b_refcnt (bufs (boot_io m) ! j) = 0"
proof -
  have "unlinked (bufs (boot_io m) ! j) = buf0"
    using assms arg_cong [OF boot_io_bufs, of length] arg_cong [OF boot_io_bufs, of "\<lambda>xs. xs ! j"] by simp
  then show "\<not> b_valid (bufs (boot_io m) ! j)" "b_dev (bufs (boot_io m) ! j) = 0" "\<not> b_dirty (bufs (boot_io m) ! j)"
    "b_refcnt (bufs (boot_io m) ! j) = 0"
    using unlinked_sel [of "bufs (boot_io m) ! j"] by (simp_all add: buf0_def)
qed

lemma boot_io_length: "length (bufs (boot_io m)) = BUFFER_NUM"
  using arg_cong [OF boot_io_bufs, of length] by simp

lemma boot_io_sectors: "sectors (boot_io m) k = m (ucast k)"
  by (simp add: boot_io_def Init_buffer_def sectors_def idle_disk_def)

lemma boot_io_binv: "d \<noteq> 0 \<Longrightarrow> binv d (boot_io m)"
proof -
  assume "d \<noteq> 0"
  moreover have "vidle (boot_io m)" "bcache_lock (boot_io m) = 0"
    using idle_disk_vidle by (simp_all add: boot_io_def Init_buffer_def vidle_def idle_disk_def)
  ultimately show ?thesis by (simp add: binv_def coherent_def boot_io_length boot_io_buf)
qed

lemma boot_io_free: "bfree (boot_io m) = BUFFER_NUM"
proof -
  have "filter (\<lambda>b. b_refcnt b = 0) (bufs (boot_io m)) = bufs (boot_io m)"
    by (auto simp: filter_id_conv in_set_conv_nth boot_io_length boot_io_buf)
  then show ?thesis by (simp add: bfree_def boot_io_length)
qed

text \<open>
  C33. No buffer is ever released: \<open>brelse\<close> does not lower the reference count, so from the boot state on the
  kernel can bring in thirty blocks; reading more than thirty different blocks ends in the panic of \<open>bget\<close>
  although every one of them was let go with \<open>brelse\<close>.
\<close>

theorem buffer_leak:
  assumes "d \<noteq> 0" and "distinct ks" and "length ks > BUFFER_NUM" and "\<And>k. k \<in> set ks \<Longrightarrow> m (ucast k) \<noteq> None"
  shows "read_seq d ks (boot_io m) = Inl (Panic ''no free buffer to get'')"
proof (rule read_seq_exhausts)
  show "binv d (boot_io m)" by (rule boot_io_binv [OF assms(1)])
  show "distinct ks" by (rule assms)
  show "bfree (boot_io m) < length ks" using assms(3) by (simp add: boot_io_free)
  show "\<forall>k\<in>set ks. uncached d k (boot_io m) \<and> sectors (boot_io m) k \<noteq> None"
    using assms(1,4) by (simp add: uncached_def first_index_None boot_io_sectors boot_io_buf)
qed

theorem buffer_leak_witness:
  "read_seq 1 (map of_nat [0..<31]) (boot_io (\<lambda>k. Some (replicate 512 0))) = Inl (Panic ''no free buffer to get'')"
proof (rule buffer_leak)
  show "distinct (map (of_nat :: nat \<Rightarrow> u32) [0..<31])"
  proof -
    have "inj_on (of_nat :: nat \<Rightarrow> u32) (set [0..<31])"
      by (rule inj_on_subset [OF inj_on_word_of_nat]) auto
    then show ?thesis by (simp only: distinct_map distinct_upt simp_thms)
  qed
qed (simp_all add: BUFFER_NUM_def)

theorem buffer_coherence_witness:
  "\<exists>t u. upd_blk 1 5 (\<lambda>b. b[0 := 7]) (boot_io (\<lambda>k. Some [0, 0])) = Inr t \<and> rd_blk 1 5 t = Inr ([7, 0], u) \<and>
     sectors u 5 = Some [7, 0]"
proof -
  let ?s = "boot_io (\<lambda>k. Some [0, 0])"
  have s: "binv 1 ?s" "sectors ?s 5 = Some [0, 0]" by (simp_all add: boot_io_binv boot_io_sectors)
  have r: "0 < bfree ?s" by (simp add: boot_io_free BUFFER_NUM_def)
  obtain t where t: "upd_blk 1 5 (\<lambda>b. b[0 := 7]) ?s = Inr t" "binv 1 t" "sectors t = (sectors ?s)(5 \<mapsto> [0, 0][0 := 7])" "bfree ?s \<le> bfree t + 1"
    by (rule bcache.upd_room [OF s r])
  then have "0 < bfree t" using boot_io_free [of "\<lambda>k. Some [0, 0]"] by (simp add: BUFFER_NUM_def)
  moreover have "sectors t 5 = Some [7, 0]" using t(3) by simp
  ultimately obtain u where u: "rd_blk 1 5 t = Inr ([7, 0], u)"
    by (auto elim: bcache.rd_room [OF t(2)])
  have "sectors u = (sectors ?s)(5 \<mapsto> [0, 0][0 := 7])"
    using buffer_coherence [OF s s(2) t(1) u] by (elim conjE)
  then have "sectors u 5 = Some [7, 0]" by (simp only: fun_upd_same list_update_code)
  with t(1) u show ?thesis by (intro exI [of _ t] exI [of _ u] conjI)
qed

end
