(* ===== verification/Fat.thy ===== *)
theory Fat
  imports Buffer Kstring
begin

text \<open>
  The FAT layer: the geometry macros of \<^verbatim>\<open>src/include/fs/fat32_disk.h\<close>, the super block of
  \<^verbatim>\<open>src/include/fs/fs.h\<close>, the parsers of \<^verbatim>\<open>src/fs/fat32_disk.c\<close> and the cluster chain functions of
  \<^verbatim>\<open>src/fs/fat32_inode.c\<close>, over the block cache. A loop that follows a cyclic chain does not return; it is
  a partial function whose missing value \<open>run_opt\<close> turns into the error \<open>Hang\<close>.
\<close>

section \<open>Little-endian fields\<close>

definition le16 :: "block \<Rightarrow> nat \<Rightarrow> u16" where
  "le16 b i = ucast (b ! i) OR push_bit 8 (ucast (b ! (i + 1)))"

definition le32 :: "block \<Rightarrow> nat \<Rightarrow> u32" where
  "le32 b i = ucast (b ! i) OR push_bit 8 (ucast (b ! (i + 1))) OR push_bit 16 (ucast (b ! (i + 2))) OR
     push_bit 24 (ucast (b ! (i + 3)))"

definition put16 :: "nat \<Rightarrow> u16 \<Rightarrow> block \<Rightarrow> block" where
  "put16 i v b = b[i := ucast v, i + 1 := ucast (drop_bit 8 v)]"

definition put32 :: "nat \<Rightarrow> u32 \<Rightarrow> block \<Rightarrow> block" where
  "put32 i v b = b[i := ucast v, i + 1 := ucast (drop_bit 8 v), i + 2 := ucast (drop_bit 16 v), i + 3 := ucast (drop_bit 24 v)]"

definition rd32 :: "block \<Rightarrow> nat \<Rightarrow> u32 res" where
  "rd32 b i = (if i + 4 \<le> length b then Inr (le32 b i) else Inl OutOfBounds)"

section \<open>The boot record and the super block\<close>

record fat_bpb =
  Jmpboot :: "u8 list"
  OEMName :: "u8 list"
  BytsPerSec :: u16
  SecPerClus :: u8
  RsvdSecCnt :: u16
  NumFATs :: u8
  RootEntCnt :: u16
  TotSec16 :: u16
  Media :: u8
  FATSz16 :: u16
  SecPerTrk :: u16
  NumHeads :: u16
  HiddSec :: u32
  TotSec32 :: u32
  FATSz32 :: u32
  ExtFlags :: u16
  FSVer :: u16
  RootClus :: u32
  FSInfo :: u16
  BkBootSec :: u16

text \<open>The packed layout of \<^verbatim>\<open>fat_bpb_t\<close>; the fields after \<^verbatim>\<open>BkBootSec\<close> are not read anywhere.\<close>

definition bpb_of :: "block \<Rightarrow> fat_bpb" where
  "bpb_of b = \<lparr>Jmpboot = take 3 b, OEMName = take 8 (drop 3 b), BytsPerSec = le16 b 11, SecPerClus = b ! 13,
     RsvdSecCnt = le16 b 14, NumFATs = b ! 16, RootEntCnt = le16 b 17, TotSec16 = le16 b 19, Media = b ! 21,
     FATSz16 = le16 b 22, SecPerTrk = le16 b 24, NumHeads = le16 b 26, HiddSec = le32 b 28, TotSec32 = le32 b 32,
     FATSz32 = le32 b 36, ExtFlags = le16 b 40, FSVer = le16 b 42, RootClus = le32 b 44, FSInfo = le16 b 48, BkBootSec = le16 b 50\<rparr>"

record superblock =
  s_dev :: u8
  s_blocksize :: u32
  sectors_per_block :: u32
  cluster_size :: u32
  n_sectors :: u32
  sector_size :: u32
  fatbase :: u32
  n_fats :: u32
  n_sectors_fat :: u32
  root_cluster_s :: u32
  free_count :: u32
  nxt_free :: u32

definition fat32_boot_sector_parser :: "superblock \<Rightarrow> fat_bpb \<Rightarrow> superblock" where
  "fat32_boot_sector_parser sb bpb =
     (let sb1 = sb\<lparr>sector_size := ucast (BytsPerSec bpb), n_sectors := TotSec32 bpb, sectors_per_block := ucast (SecPerClus bpb),
            fatbase := ucast (RsvdSecCnt bpb), n_fats := ucast (NumFATs bpb), n_sectors_fat := FATSz32 bpb, root_cluster_s := RootClus bpb\<rparr>
      in sb1\<lparr>cluster_size := sector_size sb1 * sectors_per_block sb1, s_blocksize := sector_size sb1 * sectors_per_block sb1\<rparr>)"

record fsinfo =
  Free_Count :: u32
  Nxt_Free :: u32

definition fsinfo_of :: "block \<Rightarrow> fsinfo" where
  "fsinfo_of b = \<lparr>Free_Count = le32 b 488, Nxt_Free = le32 b 492\<rparr>"

definition put_fsinfo :: "fsinfo \<Rightarrow> block \<Rightarrow> block" where
  "put_fsinfo f b = put32 492 (Nxt_Free f) (put32 488 (Free_Count f) b)"

definition fat32_fsinfo_parser :: "superblock \<Rightarrow> fsinfo \<Rightarrow> superblock" where
  "fat32_fsinfo_parser sb f = sb\<lparr>free_count := Free_Count f, nxt_free := Nxt_Free f\<rparr>"

section \<open>Geometry\<close>

definition SECTOR_BPB :: u32 where "SECTOR_BPB = 0"
definition SECTOR_FSINFO :: u32 where "SECTOR_FSINFO = 1"
definition SECTOR_FSINFO_BACKUP :: u32 where "SECTOR_FSINFO_BACKUP = 7"
definition ROOTDEV :: u32 where "ROOTDEV = 1"

definition RootDirSectors :: "superblock \<Rightarrow> u32" where
  "RootDirSectors sb = (0 * 32 + (sector_size sb - 1)) div sector_size sb"

definition FirstDataSector :: "superblock \<Rightarrow> u32" where
  "FirstDataSector sb = fatbase sb + n_fats sb * n_sectors_fat sb + RootDirSectors sb"

definition FirstSectorofCluster :: "superblock \<Rightarrow> u32 \<Rightarrow> u32" where
  "FirstSectorofCluster sb n = (n - 2) * sectors_per_block sb + FirstDataSector sb"

definition DataSec :: "superblock \<Rightarrow> u32" where
  "DataSec sb = n_sectors sb - (fatbase sb + n_fats sb * n_sectors_fat sb + RootDirSectors sb)"

definition CountofClusters :: "superblock \<Rightarrow> u32" where
  "CountofClusters sb = DataSec sb div sectors_per_block sb"

definition FAT_CLUSTER_MAX :: "superblock \<Rightarrow> u32" where
  "FAT_CLUSTER_MAX sb = CountofClusters sb + 1"

definition ThisFATEntSecNum :: "superblock \<Rightarrow> u32 \<Rightarrow> u32" where
  "ThisFATEntSecNum sb n = fatbase sb + (n * 4) div sector_size sb"

definition ThisFATEntOffset :: "superblock \<Rightarrow> u32 \<Rightarrow> u32" where
  "ThisFATEntOffset sb n = (n * 4) mod sector_size sb"

definition FAT_PER_SECTOR :: "superblock \<Rightarrow> u32" where
  "FAT_PER_SECTOR sb = sector_size sb div 4"

definition FAT_VALID_MASK :: u32 where "FAT_VALID_MASK = 0x0FFFFFFF"
definition EOC :: u32 where "EOC = 0xFFFFFFFF"

definition ISEOF :: "u32 \<Rightarrow> bool" where
  "ISEOF c \<longleftrightarrow> c \<ge> 0x0FFFFFF8"

definition LOGISTIC_C_NUM :: "superblock \<Rightarrow> u32 \<Rightarrow> u32" where
  "LOGISTIC_C_NUM sb off = off div (sectors_per_block sb * sector_size sb)"

definition LOGISTIC_C_OFFSET :: "superblock \<Rightarrow> u32 \<Rightarrow> u32" where
  "LOGISTIC_C_OFFSET sb off = off mod (sectors_per_block sb * sector_size sb)"

definition LOGISTIC_S_NUM :: "superblock \<Rightarrow> u32 \<Rightarrow> u32" where
  "LOGISTIC_S_NUM sb off = LOGISTIC_C_OFFSET sb off div sector_size sb"

definition LOGISTIC_S_OFFSET :: "superblock \<Rightarrow> u32 \<Rightarrow> u32" where
  "LOGISTIC_S_OFFSET sb off = LOGISTIC_C_OFFSET sb off mod sector_size sb"

section \<open>The state of the file system\<close>

text \<open>
  An inode: \<^verbatim>\<open>struct inode\<close> with its \<^verbatim>\<open>fat32_inode_info\<close>. Pointers to inodes are indices of \<open>inodes\<close>: the
  fifty entries of \<^verbatim>\<open>inode_table\<close> and the root, which is allocated separately, at index 50. The
  pointers \<^verbatim>\<open>i_op\<close>, \<^verbatim>\<open>i_sb\<close> and \<^verbatim>\<open>i_mount\<close> have one possible target each and are left out.
\<close>

record inode =
  i_dev :: u8
  i_ino :: u32
  i_mode :: u16
  ref :: int
  valid :: bool
  i_nlink :: u16
  i_uid :: u32
  i_gid :: u32
  i_rdev :: u64
  i_size :: u32
  i_type :: u16
  i_atime :: int
  i_mtime :: int
  i_ctime :: int
  i_blksize :: u64
  i_blocks :: u64
  iparent :: "nat option"
  fs_type :: nat
  fname :: "u8 list"
  Attr :: u8
  CrtTimeTenth :: u8
  CrtTime :: u16
  CrtDate :: u16
  LstAccDate :: u16
  cluster_start :: u32
  WrtTime :: u16
  WrtDate :: u16
  FileSize :: u32
  cluster_end :: u32
  cluster_cnt :: u64
  parent_off :: u32

record fsstate =
  io :: iostate
  sb :: superblock
  inodes :: "inode list"
  itable_lock :: u32

definition run_opt :: "'a res option \<Rightarrow> 'a res" where
  "run_opt r = (case r of None \<Rightarrow> Inl Hang | Some x \<Rightarrow> x)"

definition fs_rd :: "u32 \<Rightarrow> u32 \<Rightarrow> fsstate \<Rightarrow> (block \<times> fsstate) res" where
  "fs_rd dev k s = kbind (rd_blk dev k (io s)) (\<lambda>(b, i). Inr (b, s\<lparr>io := i\<rparr>))"

definition fs_upd :: "u32 \<Rightarrow> u32 \<Rightarrow> (block \<Rightarrow> block) \<Rightarrow> fsstate \<Rightarrow> fsstate res" where
  "fs_upd dev k f s = kbind (upd_blk dev k f (io s)) (\<lambda>i. Inr (s\<lparr>io := i\<rparr>))"

abbreviation sdev :: "fsstate \<Rightarrow> u32" where "sdev s \<equiv> ucast (s_dev (sb s))"

section \<open>The file allocation table\<close>

definition fat32_next_cluster :: "u32 \<Rightarrow> fsstate \<Rightarrow> (u32 \<times> fsstate) res" where
  "fat32_next_cluster c s =
     kbind (kassert (c \<ge> 2 \<and> c < FAT_CLUSTER_MAX (sb s))) (\<lambda>_.
     kbind (fs_rd (sdev s) (ThisFATEntSecNum (sb s) c) s) (\<lambda>(b, t).
     kbind (rd32 b (unat (ThisFATEntOffset (sb s) c))) (\<lambda>v. Inr (v AND FAT_VALID_MASK, t))))"

text \<open>\<^verbatim>\<open>SetFAT32ClusEntryVal\<close>: the upper four bits of an entry stay.\<close>

definition set_entry :: "superblock \<Rightarrow> u32 \<Rightarrow> u32 \<Rightarrow> block \<Rightarrow> block" where
  "set_entry q c v b =
     (let i = unat (ThisFATEntOffset q c) in put32 i ((le32 b i AND 0xF0000000) OR (v AND FAT_VALID_MASK)) b)"

definition fat32_fat_set :: "u32 \<Rightarrow> u32 \<Rightarrow> fsstate \<Rightarrow> fsstate res" where
  "fat32_fat_set c v s = fs_upd (sdev s) (ThisFATEntSecNum (sb s) c) (set_entry (sb s) c v) s"

text \<open>
  \<^verbatim>\<open>fat32_fat_travel\<close>: \<open>n = 0\<close> walks to the end and yields the number of clusters and the last of them;
  otherwise the \<open>n\<close>-th cluster, or the last one before the end of a shorter chain.
\<close>

partial_function (option) travel_loop :: "u32 \<Rightarrow> u32 \<Rightarrow> nat \<Rightarrow> u32 \<Rightarrow> fsstate \<Rightarrow> (u32 \<times> nat \<times> u32 \<times> fsstate) res option" where
  "travel_loop num it cnt prev s =
     (if ISEOF it then Some (Inr (it, cnt, prev, s))
      else if unat num > Suc cnt \<or> num = 0
      then (case fat32_next_cluster it s of
              Inl e \<Rightarrow> Some (Inl e)
            | Inr r \<Rightarrow> travel_loop num (fst r) (Suc cnt) it (snd r))
      else Some (Inr (it, Suc cnt, prev, s)))"

definition set_inode :: "nat \<Rightarrow> (inode \<Rightarrow> inode) \<Rightarrow> fsstate \<Rightarrow> fsstate res" where
  "set_inode p f s = kbind (kget (inodes s) p) (\<lambda>ip. Inr (s\<lparr>inodes := (inodes s)[p := f ip]\<rparr>))"

definition fat32_fat_travel :: "nat \<Rightarrow> u32 \<Rightarrow> fsstate \<Rightarrow> (u32 \<times> fsstate) res" where
  "fat32_fat_travel p num s =
     kbind (kget (inodes s) p) (\<lambda>ip.
     kbind (run_opt (travel_loop num (cluster_start ip) 0 0 s)) (\<lambda>(it, cnt, prev, s).
       if num = 0 then kbind (set_inode p (cluster_end_update (\<lambda>_. prev)) s) (\<lambda>s. Inr (of_nat cnt, s))
       else if unat num > cnt then Inr (prev, s) else Inr (it, s)))"

section \<open>Allocation\<close>

text \<open>
  One sector of the scan in \<^verbatim>\<open>fat32_fat_alloc\<close>: the entries \<open>i\<close>, \<open>i + 1\<close>, \<open>\<dots>\<close> of the sector are inspected while
  the cluster number \<open>c\<close>, which started at 3, is counted along.
\<close>

datatype scan_result = ScanFound nat | ScanEnd | ScanNext nat

function scan_sector :: "superblock \<Rightarrow> block \<Rightarrow> nat \<Rightarrow> nat \<Rightarrow> scan_result res" where
  "scan_sector q b i c =
     (if i < unat (FAT_PER_SECTOR q)
      then kbind (rd32 b (4 * i)) (\<lambda>v.
             if v = 0 then Inr (ScanFound c)
             else if Suc c > unat (FAT_CLUSTER_MAX q) then Inr ScanEnd
             else scan_sector q b (Suc i) (Suc c))
      else Inr (ScanNext c))"
  by pat_completeness auto
termination by (relation "measure (\<lambda>(q, b, i, c). unat (FAT_PER_SECTOR q) - i)") auto

declare scan_sector.simps [simp del]

partial_function (option) fat_alloc_loop :: "nat \<Rightarrow> u32 \<Rightarrow> fsstate \<Rightarrow> (u32 \<times> fsstate) res option" where
  "fat_alloc_loop c sec s =
     (if c < unat (FAT_CLUSTER_MAX (sb s))
      then (case fs_rd (sdev s) sec s of
              Inl e \<Rightarrow> Some (Inl e)
            | Inr r \<Rightarrow>
              (case scan_sector (sb s) (fst r) 0 c of
                 Inl e \<Rightarrow> Some (Inl e)
               | Inr (ScanFound c') \<Rightarrow> Some (kbind (fat32_fat_set (of_nat c') EOC (snd r)) (\<lambda>s. Inr (of_nat c', s)))
               | Inr ScanEnd \<Rightarrow> Some (Inr (0, snd r))
               | Inr (ScanNext c') \<Rightarrow> fat_alloc_loop c' (sec + 1) (snd r)))
      else Some (Inr (0, s)))"

definition fat32_fat_alloc :: "fsstate \<Rightarrow> (u32 \<times> fsstate) res" where
  "fat32_fat_alloc s = run_opt (fat_alloc_loop 3 (fatbase (sb s)) s)"

definition zero_block :: "block \<Rightarrow> block" where
  "zero_block b = replicate 512 0"

fun zero_sectors :: "nat \<Rightarrow> u32 \<Rightarrow> fsstate \<Rightarrow> fsstate res" where
  "zero_sectors 0 k s = Inr s"
| "zero_sectors (Suc n) k s = kbind (fs_upd (sdev s) k zero_block s) (zero_sectors n (k + 1))"

definition fat32_zero_cluster :: "u32 \<Rightarrow> fsstate \<Rightarrow> fsstate res" where
  "fat32_zero_cluster c s = zero_sectors (unat (sectors_per_block (sb s))) (FirstSectorofCluster (sb s) c) s"

definition save_fsinfo :: "u32 \<Rightarrow> u32 \<Rightarrow> fsstate \<Rightarrow> fsstate res" where
  "save_fsinfo dev k s = fs_upd dev k (put_fsinfo \<lparr>Free_Count = free_count (sb s), Nxt_Free = nxt_free (sb s)\<rparr>) s"

definition fat32_cluster_alloc :: "u32 \<Rightarrow> fsstate \<Rightarrow> (u32 \<times> fsstate) res" where
  "fat32_cluster_alloc dev s =
     (if free_count (sb s) = 0 then Inl (Panic ''no disk space!!!'')
      else
        let free_num = nxt_free (sb s);
            s = s\<lparr>sb := (sb s)\<lparr>free_count := free_count (sb s) - 1\<rparr>\<rparr>
        in
        kbind (fs_rd dev (FirstSectorofCluster (sb s) free_num) s) (\<lambda>(b, s).
        kbind (if b ! 0 = 0 \<and> free_num < FAT_CLUSTER_MAX (sb s) - 1
               then kbind (fat32_fat_set free_num EOC s) (\<lambda>s. Inr (s\<lparr>sb := (sb s)\<lparr>nxt_free := nxt_free (sb s) + 1\<rparr>\<rparr>))
               else kbind (fat32_fat_alloc s) (\<lambda>(fat_next, s).
                      if fat_next = 0 then Inl (Panic ''no more space'')
                      else Inr (s\<lparr>sb := (sb s)\<lparr>nxt_free := fat_next + 1\<rparr>\<rparr>))) (\<lambda>s.
        kbind (save_fsinfo dev SECTOR_FSINFO s) (\<lambda>s.
        kbind (save_fsinfo dev SECTOR_FSINFO_BACKUP s) (\<lambda>s.
        kbind (fat32_zero_cluster free_num s) (\<lambda>s. Inr (free_num, s)))))))"

section \<open>Fields, read and written\<close>

lemma length_put32 [simp]: "length (put32 i v b) = length b" "length (put16 i w b) = length b"
  by (simp_all add: put32_def put16_def)

lemma le32_put32: "i + 4 \<le> length b \<Longrightarrow> le32 (put32 i v b) i = v"
proof -
  assume "i + 4 \<le> length b"
  then have "le32 (put32 i v b) i = ucast (ucast v :: u8) OR push_bit 8 (ucast (ucast (drop_bit 8 v) :: u8)) OR
      push_bit 16 (ucast (ucast (drop_bit 16 v) :: u8)) OR push_bit 24 (ucast (ucast (drop_bit 24 v) :: u8))"
    by (simp add: le32_def put32_def)
  also have "\<dots> = v"
  proof (rule bit_word_eqI)
    fix n assume "n < LENGTH(32)"
    then show "bit (ucast (ucast v :: u8) OR push_bit 8 (ucast (ucast (drop_bit 8 v) :: u8)) OR
      push_bit 16 (ucast (ucast (drop_bit 16 v) :: u8)) OR push_bit 24 (ucast (ucast (drop_bit 24 v) :: u8)) :: u32) n = bit v n"
      by (cases "n < 8"; cases "n < 16"; cases "n < 24") (auto simp: bit_simps)
  qed
  finally show ?thesis .
qed

lemma le16_put16: "i + 2 \<le> length b \<Longrightarrow> le16 (put16 i v b) i = v"
proof -
  assume "i + 2 \<le> length b"
  then have "le16 (put16 i v b) i = ucast (ucast v :: u8) OR push_bit 8 (ucast (ucast (drop_bit 8 v) :: u8))"
    by (simp add: le16_def put16_def)
  also have "\<dots> = v" by (rule bit_word_eqI) (auto simp: bit_simps)
  finally show ?thesis .
qed

lemma nth_put32: "j < i \<or> i + 4 \<le> j \<Longrightarrow> put32 i v b ! j = b ! j"
  by (auto simp: put32_def nth_list_update_neq)

lemma le32_put32_other: "j + 4 \<le> i \<or> i + 4 \<le> j \<Longrightarrow> le32 (put32 i v b) j = le32 b j"
  by (auto simp: le32_def nth_put32)

section \<open>Geometry without wrap-around\<close>

text \<open>
  A volume the code can address: 512-byte sectors, room for the info sectors below the table, a table with
  an entry for every cluster, and everything inside the volume. \<open>clusters q\<close> is the number of data clusters.
\<close>

definition data_start :: "superblock \<Rightarrow> nat" where
  "data_start q = unat (fatbase q) + unat (n_fats q) * unat (n_sectors_fat q)"

definition clusters :: "superblock \<Rightarrow> nat" where
  "clusters q = (unat (n_sectors q) - data_start q) div unat (sectors_per_block q)"

definition geom_ok :: "superblock \<Rightarrow> bool" where
  "geom_ok q \<longleftrightarrow> sector_size q = 512 \<and> 0 < unat (sectors_per_block q) \<and> unat (sectors_per_block q) < 256 \<and>
     8 \<le> unat (fatbase q) \<and> 1 \<le> unat (n_fats q) \<and> data_start q \<le> unat (n_sectors q) \<and>
     clusters q < 268435440 \<and> (clusters q + 2) * 4 \<le> unat (n_sectors_fat q) * 512 \<and>
     cluster_size q = sectors_per_block q * 512"

lemma unat_add_small: "unat (x :: u32) + unat y < 2 ^ 32 \<Longrightarrow> unat (x + y) = unat x + unat y"
  by (simp add: unat_add_lem [THEN iffD1])

lemma unat_mult_small: "unat (x :: u32) * unat y < 2 ^ 32 \<Longrightarrow> unat (x * y) = unat x * unat y"
  by (simp add: unat_mult_lem [THEN iffD1])

lemma unat_of_nat_len: "n < 2 ^ 32 \<Longrightarrow> unat (of_nat n :: u32) = n"
  by (simp add: unat_of_nat)

lemma n_sectors_bound: "unat (n_sectors q) < 2 ^ 32"
  using unat_bound [of "n_sectors q"] by simp

lemma unat_FirstDataSector: "geom_ok q \<Longrightarrow> unat (FirstDataSector q) = data_start q"
proof -
  assume g: "geom_ok q"
  have r: "RootDirSectors q = 0" using g by (simp add: RootDirSectors_def geom_ok_def)
  have b: "data_start q < 2 ^ 32" using g n_sectors_bound [of q] by (simp add: geom_ok_def)
  then have "unat (n_fats q * n_sectors_fat q) = unat (n_fats q) * unat (n_sectors_fat q)"
    by (intro unat_mult_small) (simp add: data_start_def)
  then show ?thesis using b r unat_add_small [of "fatbase q" "n_fats q * n_sectors_fat q"]
    by (simp add: FirstDataSector_def data_start_def)
qed

lemma unat_CountofClusters: "geom_ok q \<Longrightarrow> unat (CountofClusters q) = clusters q"
proof -
  assume g: "geom_ok q"
  have "DataSec q = n_sectors q - FirstDataSector q" by (simp add: DataSec_def FirstDataSector_def)
  moreover have "unat (n_sectors q - FirstDataSector q) = unat (n_sectors q) - data_start q"
    using g unat_FirstDataSector [OF g] by (subst unat_sub) (auto simp: word_le_nat_alt geom_ok_def)
  ultimately show ?thesis by (simp add: CountofClusters_def clusters_def unat_div)
qed

lemma unat_FAT_CLUSTER_MAX: "geom_ok q \<Longrightarrow> unat (FAT_CLUSTER_MAX q) = clusters q + 1"
  using unat_CountofClusters [of q] unat_add_small [of "CountofClusters q" 1]
  by (simp add: FAT_CLUSTER_MAX_def geom_ok_def)

text \<open>The clusters the volume has.\<close>

definition cluster_ok :: "superblock \<Rightarrow> u32 \<Rightarrow> bool" where
  "cluster_ok q c \<longleftrightarrow> 2 \<le> unat c \<and> unat c < clusters q + 2"

lemma cluster_span:
  assumes g: "geom_ok q" and c: "cluster_ok q c"
  shows "unat (FirstSectorofCluster q c) = (unat c - 2) * unat (sectors_per_block q) + data_start q"
    and "(unat c - 2) * unat (sectors_per_block q) + data_start q + unat (sectors_per_block q) \<le> unat (n_sectors q)"
proof -
  let ?p = "unat (sectors_per_block q)" and ?d = "data_start q"
  have "unat c - 2 + 1 \<le> clusters q" using c unfolding cluster_ok_def by linarith
  then have "(unat c - 2 + 1) * ?p \<le> clusters q * ?p" by (rule mult_le_mono1)
  also have "\<dots> \<le> unat (n_sectors q) - ?d" by (simp add: clusters_def)
  finally have "(unat c - 2) * ?p + ?p \<le> unat (n_sectors q) - ?d" by (simp only: add_mult_distrib mult_1)
  moreover have "?d \<le> unat (n_sectors q)" using g by (simp add: geom_ok_def)
  ultimately have b: "(unat c - 2) * ?p + ?p + ?d \<le> unat (n_sectors q)" by linarith
  then show "(unat c - 2) * ?p + ?d + ?p \<le> unat (n_sectors q)" by linarith
  have c2: "unat (c - 2) = unat c - 2" using c by (subst unat_sub) (auto simp: word_le_nat_alt cluster_ok_def)
  have s: "(unat c - 2) * ?p + ?d < 2 ^ 32" using b n_sectors_bound [of q] by linarith
  then have "unat ((c - 2) * sectors_per_block q) = (unat c - 2) * ?p"
    unfolding c2 [symmetric] by (intro unat_mult_small) linarith
  then show "unat (FirstSectorofCluster q c) = (unat c - 2) * ?p + ?d"
    using s unat_FirstDataSector [OF g] unat_add_small [of "(c - 2) * sectors_per_block q" "FirstDataSector q"]
    by (simp add: FirstSectorofCluster_def)
qed

lemma fat_place:
  assumes g: "geom_ok q" and c: "unat c < clusters q + 2"
  shows "unat (ThisFATEntSecNum q c) = unat (fatbase q) + unat c div 128"
    and "unat (ThisFATEntOffset q c) = 4 * (unat c mod 128)"
    and "unat (fatbase q) + unat c div 128 < unat (fatbase q) + unat (n_sectors_fat q)"
    and "unat (fatbase q) + unat (n_sectors_fat q) \<le> data_start q"
proof -
  have "unat c < 268435442" using c g by (simp add: geom_ok_def)
  then have c4: "unat (c * 4) = unat c * 4" using unat_mult_small [of c 4] by simp
  have ss: "unat (sector_size q) = 512" using g by (simp add: geom_ok_def)
  have "unat c * 4 < unat (n_sectors_fat q) * 512" using c g by (simp add: geom_ok_def)
  then have "unat c div 128 < unat (n_sectors_fat q)" by (simp add: less_mult_imp_div_less)
  then show lt: "unat (fatbase q) + unat c div 128 < unat (fatbase q) + unat (n_sectors_fat q)" by simp
  have "1 * unat (n_sectors_fat q) \<le> unat (n_fats q) * unat (n_sectors_fat q)"
    using g by (intro mult_le_mono1) (simp add: geom_ok_def)
  then show ds: "unat (fatbase q) + unat (n_sectors_fat q) \<le> data_start q" by (simp add: data_start_def)
  have "unat c * 4 div 512 = unat c div 128" by simp
  then have d: "unat ((c * 4) div sector_size q) = unat c div 128" using c4 ss by (simp add: unat_div)
  have "unat (fatbase q) + unat c div 128 < 2 ^ 32"
    using lt ds g n_sectors_bound [of q] by (simp add: geom_ok_def)
  then show "unat (ThisFATEntSecNum q c) = unat (fatbase q) + unat c div 128"
    using d unat_add_small [of "fatbase q" "(c * 4) div sector_size q"] by (simp add: ThisFATEntSecNum_def)
  have "unat c * 4 mod 512 = 4 * (unat c mod 128)" using mult_mod_right [of 4 "unat c" 128] by (simp add: mult.commute)
  then show "unat (ThisFATEntOffset q c) = 4 * (unat c mod 128)"
    using c4 ss by (simp add: ThisFATEntOffset_def unat_mod)
qed

section \<open>Outcomes\<close>

text \<open>
  Every operation either succeeds or runs out of buffers: \<open>okf n b r Q\<close> says that \<open>r\<close> is a success with \<open>Q\<close>, or
  the panic of \<^verbatim>\<open>bget\<close>, which needs fewer than \<open>n\<close> free buffers at the start (\<open>b\<close> is their number).
\<close>

definition okf :: "nat \<Rightarrow> nat \<Rightarrow> 'a res \<Rightarrow> ('a \<Rightarrow> bool) \<Rightarrow> bool" where
  "okf n b r Q \<longleftrightarrow> (\<exists>x. r = Inr x \<and> Q x) \<or> (r = Inl (Panic ''no free buffer to get'') \<and> b < n)"

lemma okf_Inr [simp]: "okf n b (Inr x) Q \<longleftrightarrow> Q x"
  by (simp add: okf_def)

lemma okf_bind:
  assumes "okf n b r Q" and "\<And>x. Q x \<Longrightarrow> \<exists>b'. b \<le> b' + n \<and> okf m b' (f x) R"
  shows "okf (n + m) b (kbind r f) R"
  using assms by (fastforce simp: okf_def)

lemma okf_mono: "okf n b r Q \<Longrightarrow> n \<le> m \<Longrightarrow> (\<And>x. Q x \<Longrightarrow> R x) \<Longrightarrow> okf m b r R"
  by (auto simp: okf_def)

lemma okf_room: "okf n b r Q \<Longrightarrow> n \<le> b \<Longrightarrow> \<exists>x. r = Inr x \<and> Q x"
  by (auto simp: okf_def)

text \<open>A mounted volume, and what a reading operation leaves of it.\<close>

definition fsok :: "fsstate \<Rightarrow> bool" where
  "fsok s \<longleftrightarrow> binv (sdev s) (io s) \<and> geom_ok (sb s) \<and>
     (\<forall>k. unat k < unat (n_sectors (sb s)) \<longrightarrow> (\<exists>b. sectors (io s) k = Some b \<and> length b = 512))"

definition reads :: "nat \<Rightarrow> fsstate \<Rightarrow> fsstate \<Rightarrow> bool" where
  "reads n s t \<longleftrightarrow> sb t = sb s \<and> inodes t = inodes s \<and> itable_lock t = itable_lock s \<and>
     binv (sdev s) (io t) \<and> sectors (io t) = sectors (io s) \<and> bfree (io s) \<le> bfree (io t) + n"

abbreviation room :: "fsstate \<Rightarrow> nat" where "room s \<equiv> bfree (io s)"

lemma reads_fields: "reads n s t \<Longrightarrow> sb t = sb s \<and> inodes t = inodes s \<and> itable_lock t = itable_lock s"
  by (simp add: reads_def)

lemma reads_fsok: "reads n s t \<Longrightarrow> fsok s \<Longrightarrow> fsok t"
  by (simp add: fsok_def reads_def)

lemma reads_refl: "fsok s \<Longrightarrow> reads 0 s s"
  by (simp add: reads_def fsok_def)

lemma reads_trans: "reads n s t \<Longrightarrow> reads m t u \<Longrightarrow> reads (n + m) s u"
  by (auto simp: reads_def)

lemma fs_rd_okf:
  assumes "fsok s" and "sectors (io s) k = Some b"
  shows "okf 1 (room s) (fs_rd (sdev s) k s) (\<lambda>(x, t). x = b \<and> reads 1 s t)"
proof -
  have "binv (sdev s) (io s)" using assms(1) by (simp add: fsok_def)
  from bcache.rd_law [OF this assms(2)] show ?thesis
    by (auto simp: fs_rd_def okf_def reads_def)
qed

lemma fsok_sector:
  assumes "fsok s" and "unat k < unat (n_sectors (sb s))"
  obtains b where "sectors (io s) k = Some b" and "length b = 512"
  using assms by (auto simp: fsok_def)

section \<open>The table as a function\<close>

definition fat_of :: "fsstate \<Rightarrow> u32 \<Rightarrow> u32" where
  "fat_of s c = le32 (the (sectors (io s) (ThisFATEntSecNum (sb s) c))) (unat (ThisFATEntOffset (sb s) c)) AND FAT_VALID_MASK"

lemma fat_sector:
  assumes s: "fsok s" and c: "unat c < clusters (sb s) + 2"
  obtains b where "sectors (io s) (ThisFATEntSecNum (sb s) c) = Some b" and "length b = 512"
    and "unat (ThisFATEntOffset (sb s) c) + 4 \<le> 512"
proof -
  have g: "geom_ok (sb s)" using s by (simp add: fsok_def)
  note f = fat_place [OF g c]
  have "unat (ThisFATEntSecNum (sb s) c) < unat (n_sectors (sb s))" using f g by (simp add: geom_ok_def)
  then obtain b where "sectors (io s) (ThisFATEntSecNum (sb s) c) = Some b" "length b = 512" by (rule fsok_sector [OF s])
  moreover have "4 * (unat c mod 128) + 4 \<le> 512"
  proof -
    have "unat c mod 128 < 128" by simp
    then show ?thesis by linarith
  qed
  ultimately show ?thesis using that f(2) by simp
qed

lemma reads_fat: "reads n s t \<Longrightarrow> fat_of t = fat_of s"
  by (simp add: fat_of_def reads_def fun_eq_iff)

lemma next_cluster_okf:
  assumes s: "fsok s" and c: "2 \<le> c" "c < FAT_CLUSTER_MAX (sb s)"
  shows "okf 1 (room s) (fat32_next_cluster c s) (\<lambda>(v, t). v = fat_of s c \<and> reads 1 s t)"
proof -
  have g: "geom_ok (sb s)" using s by (simp add: fsok_def)
  have cl: "unat c < clusters (sb s) + 2" using c(2) unat_FAT_CLUSTER_MAX [OF g] by (simp add: word_less_nat_alt)
  obtain b where b: "sectors (io s) (ThisFATEntSecNum (sb s) c) = Some b" "length b = 512" "unat (ThisFATEntOffset (sb s) c) + 4 \<le> 512"
    by (rule fat_sector [OF s cl])
  have "okf (1 + 0) (room s) (kbind (fs_rd (sdev s) (ThisFATEntSecNum (sb s) c) s) (\<lambda>(b, t).
     kbind (rd32 b (unat (ThisFATEntOffset (sb s) c))) (\<lambda>v. Inr (v AND FAT_VALID_MASK, t)))) (\<lambda>(v, t). v = fat_of s c \<and> reads 1 s t)"
    by (rule okf_bind [OF fs_rd_okf [OF s b(1)]]) (use b in \<open>auto simp: rd32_def fat_of_def reads_def\<close>)
  then show ?thesis using c by (simp add: fat32_next_cluster_def)
qed

section \<open>Chains\<close>

text \<open>\<open>fat_chain f m c cs\<close>: following the table \<open>f\<close> from \<open>c\<close> gives the clusters \<open>cs\<close>, all below \<open>m\<close>, then an end mark.\<close>

fun fat_chain :: "(u32 \<Rightarrow> u32) \<Rightarrow> u32 \<Rightarrow> u32 \<Rightarrow> u32 list \<Rightarrow> bool" where
  "fat_chain f m c [] = ISEOF c"
| "fat_chain f m c (x # xs) = (x = c \<and> 2 \<le> c \<and> c < m \<and> fat_chain f m (f c) xs)"

lemma below_max_not_EOF: "geom_ok q \<Longrightarrow> c < FAT_CLUSTER_MAX q \<Longrightarrow> \<not> ISEOF c"
  using unat_FAT_CLUSTER_MAX [of q] by (simp add: ISEOF_def word_less_nat_alt word_le_nat_alt geom_ok_def)

lemma travel_end_okf:
  "fsok s \<Longrightarrow> fat_chain (fat_of s) (FAT_CLUSTER_MAX (sb s)) it cs \<Longrightarrow>
   okf (length cs) (room s) (run_opt (travel_loop 0 it cnt prev s))
     (\<lambda>(e, n, p, t). n = cnt + length cs \<and> p = last (prev # cs) \<and> ISEOF e \<and> reads (length cs) s t)"
proof (induction cs arbitrary: it cnt prev s)
  case Nil
  then show ?case by (subst travel_loop.simps) (simp add: run_opt_def reads_refl)
next
  case (Cons c cs)
  have c: "it = c" "2 \<le> c" "c < FAT_CLUSTER_MAX (sb s)" "fat_chain (fat_of s) (FAT_CLUSTER_MAX (sb s)) (fat_of s c) cs"
    using Cons.prems(2) by auto
  have ne: "\<not> ISEOF c" using below_max_not_EOF c(3) Cons.prems(1) by (auto simp: fsok_def)
  have "run_opt (travel_loop 0 it cnt prev s) = kbind (fat32_next_cluster c s) (\<lambda>r. run_opt (travel_loop 0 (fst r) (Suc cnt) c (snd r)))"
    using ne c(1) by (subst travel_loop.simps) (simp add: run_opt_def kbind_def split: sum.splits)
  also have "okf (1 + length cs) (room s) \<dots>
     (\<lambda>(e, n, p, t). n = cnt + length (c # cs) \<and> p = last (prev # c # cs) \<and> ISEOF e \<and> reads (length (c # cs)) s t)"
  proof (rule okf_bind [OF next_cluster_okf [OF Cons.prems(1) c(2,3)]])
    fix r assume "case r of (v, t) \<Rightarrow> v = fat_of s c \<and> reads 1 s t"
    then obtain t where r: "r = (fat_of s c, t)" and t: "reads 1 s t" by (cases r) auto
    have ch: "fat_chain (fat_of t) (FAT_CLUSTER_MAX (sb t)) (fat_of s c) cs"
      using c(4) reads_fat [OF t] reads_fields [OF t] by simp
    have "okf (length cs) (room t) (run_opt (travel_loop 0 (fat_of s c) (Suc cnt) c t))
       (\<lambda>(e, n, p, u). n = Suc cnt + length cs \<and> p = last (c # cs) \<and> ISEOF e \<and> reads (length cs) t u)"
      by (rule Cons.IH [OF reads_fsok [OF t Cons.prems(1)] ch])
    then have "okf (length cs) (room t) (run_opt (travel_loop 0 (fat_of s c) (Suc cnt) c t))
       (\<lambda>(e, n, p, u). n = cnt + length (c # cs) \<and> p = last (prev # c # cs) \<and> ISEOF e \<and> reads (length (c # cs)) s u)"
      by (rule okf_mono) (use reads_trans [OF t] in auto)
    then show "\<exists>b'. room s \<le> b' + 1 \<and> okf (length cs) b' (run_opt (travel_loop 0 (fst r) (Suc cnt) c (snd r)))
       (\<lambda>(e, n, p, u). n = cnt + length (c # cs) \<and> p = last (prev # c # cs) \<and> ISEOF e \<and> reads (length (c # cs)) s u)"
      using r t by (intro exI [of _ "room t"]) (simp add: reads_def)
  qed
  finally show ?case by simp
qed

lemma travel_to_okf:
  "fsok s \<Longrightarrow> fat_chain (fat_of s) (FAT_CLUSTER_MAX (sb s)) it cs \<Longrightarrow> cnt < unat num \<Longrightarrow>
   okf (length cs) (room s) (run_opt (travel_loop num it cnt prev s))
     (\<lambda>(e, n, p, t). reads (length cs) s t \<and>
        (if unat num - cnt \<le> length cs then n = unat num \<and> e = cs ! (unat num - cnt - 1)
         else n < unat num \<and> p = last (prev # cs)))"
proof (induction cs arbitrary: it cnt prev s)
  case Nil
  then show ?case by (subst travel_loop.simps) (simp add: run_opt_def reads_refl)
next
  case (Cons c cs)
  have c: "it = c" "2 \<le> c" "c < FAT_CLUSTER_MAX (sb s)" "fat_chain (fat_of s) (FAT_CLUSTER_MAX (sb s)) (fat_of s c) cs"
    using Cons.prems(2) by auto
  have ne: "\<not> ISEOF c" using below_max_not_EOF c(3) Cons.prems(1) by (auto simp: fsok_def)
  have nz: "num \<noteq> 0" using Cons.prems(3) by auto
  show ?case
  proof (cases "Suc cnt < unat num")
    case False
    then have "unat num = Suc cnt" using Cons.prems(3) by simp
    then show ?thesis using ne nz c(1) reads_refl [OF Cons.prems(1)]
      by (subst travel_loop.simps) (auto simp: run_opt_def reads_def)
  next
    case True
    let ?Q = "\<lambda>(e, n, p, t). reads (length (c # cs)) s t \<and>
        (if unat num - cnt \<le> length (c # cs) then n = unat num \<and> e = (c # cs) ! (unat num - cnt - 1)
         else n < unat num \<and> p = last (prev # c # cs))"
    have "run_opt (travel_loop num it cnt prev s) = kbind (fat32_next_cluster c s) (\<lambda>r. run_opt (travel_loop num (fst r) (Suc cnt) c (snd r)))"
      using ne nz True c(1) by (subst travel_loop.simps) (simp add: run_opt_def kbind_def split: sum.splits)
    also have "okf (1 + length cs) (room s) \<dots> ?Q"
    proof (rule okf_bind [OF next_cluster_okf [OF Cons.prems(1) c(2,3)]])
      fix r assume "case r of (v, t) \<Rightarrow> v = fat_of s c \<and> reads 1 s t"
      then obtain t where r: "r = (fat_of s c, t)" and t: "reads 1 s t" by (cases r) auto
      have ch: "fat_chain (fat_of t) (FAT_CLUSTER_MAX (sb t)) (fat_of s c) cs"
        using c(4) reads_fat [OF t] reads_fields [OF t] by simp
      have "(c # cs) ! (unat num - cnt - 1) = cs ! (unat num - Suc cnt - 1)"
        using True by (cases "unat num - cnt - 1") auto
      then have "okf (length cs) (room t) (run_opt (travel_loop num (fat_of s c) (Suc cnt) c t)) ?Q"
        using True by (intro okf_mono [OF Cons.IH [OF reads_fsok [OF t Cons.prems(1)] ch True]])
          (auto dest: reads_trans [OF t])
      then show "\<exists>b'. room s \<le> b' + 1 \<and> okf (length cs) b' (run_opt (travel_loop num (fst r) (Suc cnt) c (snd r))) ?Q"
        using r t by (intro exI [of _ "room t"]) (simp add: reads_def)
    qed
    finally show ?thesis by simp
  qed
qed

lemma travel_okf:
  assumes s: "fsok s" and p: "p < length (inodes s)" and n: "num \<noteq> 0"
    and ch: "fat_chain (fat_of s) (FAT_CLUSTER_MAX (sb s)) (cluster_start (inodes s ! p)) cs"
  shows "okf (length cs) (room s) (fat32_fat_travel p num s)
    (\<lambda>(v, t). v = (if unat num \<le> length cs then cs ! (unat num - 1) else last (0 # cs)) \<and> reads (length cs) s t)"
proof -
  have "0 < unat num" using n by (simp add: unat_gt_0)
  from travel_to_okf [OF s ch this, of 0] show ?thesis
    using p n by (auto simp: fat32_fat_travel_def okf_def split: if_splits)
qed

lemma travel0_okf:
  assumes s: "fsok s" and p: "p < length (inodes s)"
    and ch: "fat_chain (fat_of s) (FAT_CLUSTER_MAX (sb s)) (cluster_start (inodes s ! p)) cs"
  shows "okf (length cs) (room s) (fat32_fat_travel p 0 s)
    (\<lambda>(v, t). v = of_nat (length cs) \<and> (\<exists>u. reads (length cs) s u \<and>
       t = u\<lparr>inodes := (inodes s)[p := (inodes s ! p)\<lparr>cluster_end := last (0 # cs)\<rparr>]\<rparr>))"
  using travel_end_okf [OF s ch, of 0 0] p
  by (fastforce simp: fat32_fat_travel_def set_inode_def okf_def reads_def)

text \<open>
  C22. \<open>fat32_fat_travel\<close> on an inode whose clusters form the chain \<open>cs\<close> returns, given buffers for the walk: with 0 the number of
  clusters, recording the last one in the inode; with \<open>num > 0\<close> the \<open>num\<close>-th cluster, or the last one
  if the chain is shorter. It changes nothing on the medium.
\<close>

theorem fat_travel_correct:
  assumes "fsok s" and "p < length (inodes s)" and "length cs \<le> room s"
    and "fat_chain (fat_of s) (FAT_CLUSTER_MAX (sb s)) (cluster_start (inodes s ! p)) cs"
  shows "(\<exists>t. fat32_fat_travel p 0 s = Inr (of_nat (length cs), t) \<and> cluster_end (inodes t ! p) = last (0 # cs) \<and>
      sectors (io t) = sectors (io s)) \<and>
    (\<forall>num. num \<noteq> 0 \<longrightarrow> (\<exists>t. fat32_fat_travel p num s =
        Inr (if unat num \<le> length cs then cs ! (unat num - 1) else last (0 # cs), t) \<and>
      inodes t = inodes s \<and> sectors (io t) = sectors (io s)))"
proof (intro conjI allI impI)
  show "\<exists>t. fat32_fat_travel p 0 s = Inr (of_nat (length cs), t) \<and> cluster_end (inodes t ! p) = last (0 # cs) \<and>
      sectors (io t) = sectors (io s)"
    using okf_room [OF travel0_okf [OF assms(1,2,4)] assms(3)] assms(2) by (auto simp: reads_def)
  fix num :: u32 assume "num \<noteq> 0"
  from okf_room [OF travel_okf [OF assms(1,2) this assms(4)] assms(3)]
  show "\<exists>t. fat32_fat_travel p num s =
        Inr (if unat num \<le> length cs then cs ! (unat num - 1) else last (0 # cs), t) \<and>
      inodes t = inodes s \<and> sectors (io t) = sectors (io s)"
    by (auto simp: reads_def)
qed

section \<open>Writing entries\<close>

definition wrote :: "nat \<Rightarrow> fsstate \<Rightarrow> (u32 \<Rightarrow> block option) \<Rightarrow> fsstate \<Rightarrow> bool" where
  "wrote n s m t \<longleftrightarrow> sb t = sb s \<and> inodes t = inodes s \<and> itable_lock t = itable_lock s \<and>
     binv (sdev s) (io t) \<and> sectors (io t) = m \<and> room s \<le> room t + n"

lemma fs_upd_okf:
  assumes "fsok s" and "sectors (io s) k = Some b"
  shows "okf 1 (room s) (fs_upd (sdev s) k f s) (wrote 1 s ((sectors (io s))(k \<mapsto> f b)))"
proof -
  have "binv (sdev s) (io s)" using assms(1) by (simp add: fsok_def)
  from bcache.upd_law [OF this assms(2), of f] show ?thesis
    by (auto simp: fs_upd_def okf_def wrote_def)
qed

lemma wrote_fsok:
  assumes "fsok s" and "wrote n s m t"
    and "\<And>k b. unat k < unat (n_sectors (sb s)) \<Longrightarrow> \<exists>b. m k = Some b \<and> length b = 512"
  shows "fsok t"
  using assms by (auto simp: fsok_def wrote_def)

lemma wrote_upd_fsok:
  assumes "fsok s" and "wrote n s ((sectors (io s))(k \<mapsto> b)) t" and "length b = 512"
  shows "fsok t"
  using assms(1,3) by (intro wrote_fsok [OF assms(1,2)]) (auto simp: fsok_def)

lemma length_set_entry [simp]: "length (set_entry q c v b) = length b"
  by (simp add: set_entry_def Let_def)

lemma fat_place_inj:
  assumes "geom_ok q" and "unat c < clusters q + 2" and "unat c' < clusters q + 2"
    and "ThisFATEntSecNum q c = ThisFATEntSecNum q c'" and "ThisFATEntOffset q c = ThisFATEntOffset q c'"
  shows "c = c'"
proof -
  have "unat c div 128 = unat c' div 128" "unat c mod 128 = unat c' mod 128"
    using fat_place(1,2) [OF assms(1,2)] fat_place(1,2) [OF assms(1,3)] assms(4,5) by auto
  then have "unat c = unat c'" by (metis div_mult_mod_eq)
  then show ?thesis by (simp add: word_unat_eq_iff)
qed

lemma masked_entry: "((x AND 0xF0000000) OR (v AND FAT_VALID_MASK)) AND FAT_VALID_MASK = v AND FAT_VALID_MASK" for x v :: u32
proof -
  have "(0xF0000000 :: u32) AND FAT_VALID_MASK = 0" by (simp add: FAT_VALID_MASK_def)
  then show ?thesis by (metis (no_types, lifting) and.assoc and.idem bit.conj_disj_distrib2 bit.conj_zero_right or.left_neutral)
qed

lemma fat_of_set:
  assumes s: "fsok s" and c: "unat c < clusters (sb s) + 2" "unat c' < clusters (sb s) + 2"
    and b: "sectors (io s) (ThisFATEntSecNum (sb s) c) = Some b"
    and t: "sb t = sb s" "sectors (io t) = (sectors (io s))(ThisFATEntSecNum (sb s) c \<mapsto> set_entry (sb s) c v b)"
  shows "fat_of t c' = (if c' = c then v AND FAT_VALID_MASK else fat_of s c')"
proof -
  have g: "geom_ok (sb s)" using s by (simp add: fsok_def)
  obtain b0 where "sectors (io s) (ThisFATEntSecNum (sb s) c) = Some b0" "length b0 = 512" "unat (ThisFATEntOffset (sb s) c) + 4 \<le> 512"
    by (rule fat_sector [OF s c(1)])
  then have len: "unat (ThisFATEntOffset (sb s) c) + 4 \<le> length b" using b by simp
  show ?thesis
  proof (cases "c' = c")
    case True
    then show ?thesis using t len by (simp add: fat_of_def set_entry_def Let_def le32_put32 masked_entry)
  next
    case False
    show ?thesis
    proof (cases "ThisFATEntSecNum (sb s) c' = ThisFATEntSecNum (sb s) c")
      case same: True
      then have "ThisFATEntOffset (sb s) c' \<noteq> ThisFATEntOffset (sb s) c" using fat_place_inj [OF g c(2,1)] False by blast
      then have "unat c' mod 128 \<noteq> unat c mod 128"
        using fat_place(2) [OF g c(1)] fat_place(2) [OF g c(2)] by (metis word_unat_eq_iff)
      then have "4 * (unat c' mod 128) + 4 \<le> 4 * (unat c mod 128) \<or> 4 * (unat c mod 128) + 4 \<le> 4 * (unat c' mod 128)"
        by linarith
      then show ?thesis
        using t same False b fat_place(2) [OF g c(1)] fat_place(2) [OF g c(2)]
        by (simp add: fat_of_def set_entry_def Let_def le32_put32_other)
    qed (use t False in \<open>simp add: fat_of_def\<close>)
  qed
qed

lemma fat_set_okf:
  assumes s: "fsok s" and c: "unat c < clusters (sb s) + 2"
  obtains b where "sectors (io s) (ThisFATEntSecNum (sb s) c) = Some b" and "length b = 512"
    and "okf 1 (room s) (fat32_fat_set c v s)
      (wrote 1 s ((sectors (io s))(ThisFATEntSecNum (sb s) c \<mapsto> set_entry (sb s) c v b)))"
proof -
  obtain b where b: "sectors (io s) (ThisFATEntSecNum (sb s) c) = Some b" "length b = 512" by (rule fat_sector [OF s c])
  show ?thesis using that [OF b] fs_upd_okf [OF s b(1)] by (simp add: fat32_fat_set_def)
qed

text \<open>
  Setting a table entry: \<open>fat32_fat_set\<close> stores the low 28 bits of the value in the entry of its cluster,
  keeps every other entry, and changes no sector of the data region.
\<close>

lemma fat_set_correct:
  assumes s: "fsok s" and c: "cluster_ok (sb s) c" "cluster_ok (sb s) c'" and r: "fat32_fat_set c v s = Inr t"
  shows "fsok t \<and> fat_of t c' = (if c' = c then v AND FAT_VALID_MASK else fat_of s c') \<and>
    (\<forall>k. data_start (sb s) \<le> unat k \<longrightarrow> sectors (io t) k = sectors (io s) k)"
proof -
  have cl: "unat c < clusters (sb s) + 2" "unat c' < clusters (sb s) + 2" using c by (simp_all add: cluster_ok_def)
  have g: "geom_ok (sb s)" using s by (simp add: fsok_def)
  obtain b where b: "sectors (io s) (ThisFATEntSecNum (sb s) c) = Some b" "length b = 512"
    "okf 1 (room s) (fat32_fat_set c v s) (wrote 1 s ((sectors (io s))(ThisFATEntSecNum (sb s) c \<mapsto> set_entry (sb s) c v b)))"
    by (rule fat_set_okf [OF s cl(1)])
  then have w: "wrote 1 s ((sectors (io s))(ThisFATEntSecNum (sb s) c \<mapsto> set_entry (sb s) c v b)) t" using r by simp
  then have t: "sb t = sb s" "sectors (io t) = (sectors (io s))(ThisFATEntSecNum (sb s) c \<mapsto> set_entry (sb s) c v b)"
    by (simp_all add: wrote_def)
  have "fsok t" by (rule wrote_upd_fsok [OF s w]) (simp add: b(2))
  moreover have "unat (ThisFATEntSecNum (sb s) c) < data_start (sb s)" using fat_place [OF g cl(1)] by simp
  ultimately show ?thesis using fat_of_set [OF s cl b(1) t] t(2) by auto
qed

section \<open>Allocating an entry\<close>

definition raw_fat :: "fsstate \<Rightarrow> nat \<Rightarrow> u32" where
  "raw_fat s j = le32 (the (sectors (io s) (fatbase (sb s) + of_nat (j div 128)))) (4 * (j mod 128))"

fun scan_ok :: "superblock \<Rightarrow> block \<Rightarrow> nat \<Rightarrow> nat \<Rightarrow> scan_result \<Rightarrow> bool" where
  "scan_ok q b i c (ScanFound c') = (\<exists>j. i \<le> j \<and> j < 128 \<and> le32 b (4 * j) = 0 \<and> (\<forall>l\<in>{i..<j}. le32 b (4 * l) \<noteq> 0) \<and>
        c' + i = c + j \<and> c' \<le> unat (FAT_CLUSTER_MAX q))"
| "scan_ok q b i c ScanEnd = ((\<forall>l\<in>{i..<128}. c + l \<le> unat (FAT_CLUSTER_MAX q) + i \<longrightarrow> le32 b (4 * l) \<noteq> 0) \<and>
     unat (FAT_CLUSTER_MAX q) + i < c + 128)"
| "scan_ok q b i c (ScanNext c') = ((\<forall>l\<in>{i..<128}. le32 b (4 * l) \<noteq> 0) \<and> c' + i = c + 128 \<and> c' \<le> unat (FAT_CLUSTER_MAX q))"

lemma scan_ok_step: "scan_ok q b (Suc i) (Suc c) r \<Longrightarrow> le32 b (4 * i) \<noteq> 0 \<Longrightarrow> scan_ok q b i c r"
proof (cases r)
  case (ScanFound c')
  assume "scan_ok q b (Suc i) (Suc c) r" and nz: "le32 b (4 * i) \<noteq> 0"
  then obtain j where j: "Suc i \<le> j" "j < 128" "le32 b (4 * j) = 0" "\<forall>l\<in>{Suc i..<j}. le32 b (4 * l) \<noteq> 0"
    "c' + Suc i = Suc c + j" "c' \<le> unat (FAT_CLUSTER_MAX q)" using ScanFound by auto
  have "{i..<j} = insert i {Suc i..<j}" using j(1) by auto
  then show ?thesis using j nz ScanFound by (auto intro!: exI [of _ j])
next
  case (ScanNext c')
  assume a: "scan_ok q b (Suc i) (Suc c) r" and nz: "le32 b (4 * i) \<noteq> 0"
  have "{i..<128} \<subseteq> insert i {Suc i..<128}" by auto
  then show ?thesis using a nz ScanNext by auto
next
  case ScanEnd
  assume a: "scan_ok q b (Suc i) (Suc c) r" and nz: "le32 b (4 * i) \<noteq> 0"
  have "le32 b (4 * l) \<noteq> 0" if "l \<in> {i..<128}" "c + l \<le> unat (FAT_CLUSTER_MAX q) + i" for l
    using that a nz ScanEnd by (cases "l = i") auto
  then show ?thesis using a ScanEnd by simp
qed

lemma scan_sector_spec:
  assumes "length b = 512" and "FAT_PER_SECTOR q = 128" and "i \<le> 128" and "c \<le> unat (FAT_CLUSTER_MAX q)"
  shows "\<exists>r. scan_sector q b i c = Inr r \<and> scan_ok q b i c r"
  using assms
proof (induction q b i c rule: scan_sector.induct)
  case (1 q b i c)
  show ?case
  proof (cases "i < 128")
    case False
    then show ?thesis using 1 by (subst scan_sector.simps) auto
  next
    case True
    then have rd: "rd32 b (4 * i) = Inr (le32 b (4 * i))" using 1 by (simp add: rd32_def)
    show ?thesis
    proof (cases "le32 b (4 * i) = 0 \<or> unat (FAT_CLUSTER_MAX q) < Suc c")
      case stop: True
      have "l = i" if "i \<le> l" "c + l \<le> unat (FAT_CLUSTER_MAX q) + i" "unat (FAT_CLUSTER_MAX q) < Suc c" for l
        using that by linarith
      then have "scan_ok q b i c ScanEnd" if nz: "le32 b (4 * i) \<noteq> 0"
        using nz stop True unfolding scan_ok.simps by (intro conjI ballI impI) (metis atLeastLessThan_iff, linarith)
      then show ?thesis using stop True 1 rd by (subst scan_sector.simps) (cases "le32 b (4 * i) = 0", auto)
    next
      case go: False
      then have "scan_sector q b i c = scan_sector q b (Suc i) (Suc c)"
        using True 1 rd by (subst scan_sector.simps) simp
      moreover have "\<exists>r. scan_sector q b (Suc i) (Suc c) = Inr r \<and> scan_ok q b (Suc i) (Suc c) r"
        using 1 True go rd by (intro "1.IH") auto
      ultimately show ?thesis using scan_ok_step go by metis
    qed
  qed
qed

lemma FAT_PER_SECTOR_128: "geom_ok q \<Longrightarrow> FAT_PER_SECTOR q = 128"
  by (simp add: FAT_PER_SECTOR_def geom_ok_def)

text \<open>What \<open>fat32_fat_alloc\<close> does when the scan of the raw entries stops at entry \<open>j\<close>.\<close>

definition alloc_outcome :: "fsstate \<Rightarrow> nat \<Rightarrow> u32 \<times> fsstate \<Rightarrow> bool" where
  "alloc_outcome s n r \<longleftrightarrow> (fst r = 0 \<and> reads n s (snd r) \<and> (\<forall>j. j + 3 \<le> clusters (sb s) \<longrightarrow> raw_fat s j \<noteq> 0)) \<or>
     (\<exists>j b. raw_fat s j = 0 \<and> (\<forall>i<j. raw_fat s i \<noteq> 0) \<and> unat (fst r) = j + 3 \<and> j + 3 \<le> clusters (sb s) + 1 \<and>
        sectors (io s) (ThisFATEntSecNum (sb s) (fst r)) = Some b \<and> length b = 512 \<and>
        wrote (n + 1) s ((sectors (io s))(ThisFATEntSecNum (sb s) (fst r) \<mapsto> set_entry (sb s) (fst r) EOC b)) (snd r))"

lemma reads_raw: "reads n s t \<Longrightarrow> raw_fat t j = raw_fat s j"
  by (simp add: reads_def raw_fat_def)

lemma reads_wrote: "reads n s t \<Longrightarrow> wrote m t ((sectors (io t))(k \<mapsto> b)) u \<Longrightarrow> wrote (n + m) s ((sectors (io s))(k \<mapsto> b)) u"
  by (auto simp: reads_def wrote_def)

lemma fat_sector_k:
  assumes s: "fsok s" and k: "128 * k < clusters (sb s) + 2"
  obtains b where "sectors (io s) (fatbase (sb s) + of_nat k) = Some b" and "length b = 512"
proof -
  have g: "geom_ok (sb s)" using s by (simp add: fsok_def)
  have "k < 2 ^ 32" using k g by (simp add: geom_ok_def)
  then have uk: "unat (of_nat k :: u32) = k" by (rule unat_of_nat_len)
  have "128 * k < 2 ^ 32" using k g by (simp add: geom_ok_def)
  then have "unat (of_nat (128 * k) :: u32) = 128 * k" by (rule unat_of_nat_len)
  with fat_place [OF g, of "of_nat (128 * k)"] k have "unat (fatbase (sb s)) + k < unat (n_sectors (sb s))"
    using g by (simp add: geom_ok_def)
  then have "unat (fatbase (sb s) + of_nat k) < unat (n_sectors (sb s))"
    using uk n_sectors_bound [of "sb s"] unat_add_small [of "fatbase (sb s)" "of_nat k"] by simp
  then show ?thesis using that by (rule fsok_sector [OF s])
qed

lemma wrote_mono: "wrote n s m t \<Longrightarrow> n \<le> n' \<Longrightarrow> wrote n' s m t"
  by (auto simp: wrote_def)

lemma reads_mono: "reads n s t \<Longrightarrow> n \<le> n' \<Longrightarrow> reads n' s t"
  by (auto simp: reads_def)

lemma alloc_outcome_mono: "alloc_outcome s n r \<Longrightarrow> n \<le> n' \<Longrightarrow> alloc_outcome s n' r"
  unfolding alloc_outcome_def by (meson reads_mono wrote_mono add_le_mono1)

lemma alloc_outcome_reads:
  assumes t: "reads 1 s t" and r: "alloc_outcome t n r"
  shows "alloc_outcome s (Suc n) r"
proof (cases "fst r = 0 \<and> reads n t (snd r) \<and> (\<forall>j. j + 3 \<le> clusters (sb t) \<longrightarrow> raw_fat t j \<noteq> 0)")
  case True
  then show ?thesis using reads_trans [OF t, of n] reads_fields [OF t] reads_raw [OF t] by (simp add: alloc_outcome_def)
next
  case False
  then obtain j b where jb: "raw_fat t j = 0" "\<forall>i<j. raw_fat t i \<noteq> 0" "unat (fst r) = j + 3" "j + 3 \<le> clusters (sb t) + 1"
    "sectors (io t) (ThisFATEntSecNum (sb t) (fst r)) = Some b" "length b = 512"
    "wrote (n + 1) t ((sectors (io t))(ThisFATEntSecNum (sb t) (fst r) \<mapsto> set_entry (sb t) (fst r) EOC b)) (snd r)"
    using r unfolding alloc_outcome_def by blast
  have q: "sb t = sb s" "sectors (io t) = sectors (io s)" using t by (simp_all add: reads_def)
  have "wrote (1 + (n + 1)) s ((sectors (io s))(ThisFATEntSecNum (sb s) (fst r) \<mapsto> set_entry (sb s) (fst r) EOC b)) (snd r)"
    using reads_wrote [OF t jb(7)] by (simp only: q)
  then show ?thesis using jb(1-6) unfolding alloc_outcome_def q by (intro disjI2 exI [of _ j] exI [of _ b]) (simp add: reads_raw [OF t])
qed

lemma alloc_found_okf:
  assumes s: "fsok s" and j: "raw_fat s j = 0" "\<forall>i<j. raw_fat s i \<noteq> 0" "j + 3 \<le> clusters (sb s) + 1"
  shows "okf 1 (room s) (kbind (fat32_fat_set (of_nat (j + 3)) EOC s) (\<lambda>t. Inr (of_nat (j + 3), t))) (alloc_outcome s 0)"
proof -
  let ?c = "of_nat (j + 3) :: u32"
  have g: "geom_ok (sb s)" using s by (simp add: fsok_def)
  have "j + 3 < 2 ^ 32" using j(3) g by (simp add: geom_ok_def)
  then have uc: "unat ?c = j + 3" by (rule unat_of_nat_len)
  then have "unat ?c < clusters (sb s) + 2" using j(3) by linarith
  then obtain b where b: "sectors (io s) (ThisFATEntSecNum (sb s) ?c) = Some b" "length b = 512"
    "okf 1 (room s) (fat32_fat_set ?c EOC s)
       (wrote 1 s ((sectors (io s))(ThisFATEntSecNum (sb s) ?c \<mapsto> set_entry (sb s) ?c EOC b)))"
    by (rule fat_set_okf [OF s])
  have "alloc_outcome s 0 (?c, u)"
    if "wrote 1 s ((sectors (io s))(ThisFATEntSecNum (sb s) ?c \<mapsto> set_entry (sb s) ?c EOC b)) u" for u
    unfolding alloc_outcome_def fst_conv snd_conv
    by (intro disjI2 exI [of _ j] exI [of _ b] conjI) (use that j uc b in simp_all)
  then show ?thesis using b(3) unfolding okf_def by auto
qed

lemma fat_alloc_turn:
  assumes "c < unat (FAT_CLUSTER_MAX (sb s))" and "scan_sector (sb s) b 0 c = Inr r"
    and "\<And>x. fs_rd (sdev s) k s = Inr x \<Longrightarrow> fst x = b"
  shows "run_opt (fat_alloc_loop c k s) = kbind (fs_rd (sdev s) k s) (\<lambda>x. case r of
      ScanFound c' \<Rightarrow> kbind (fat32_fat_set (of_nat c') EOC (snd x)) (\<lambda>s. Inr (of_nat c', s))
    | ScanEnd \<Rightarrow> Inr (0, snd x)
    | ScanNext c' \<Rightarrow> run_opt (fat_alloc_loop c' (k + 1) (snd x)))"
proof (cases "fs_rd (sdev s) k s")
  case (Inr x)
  then show ?thesis using assms(1,2) assms(3) [of x]
    by (subst fat_alloc_loop.simps) (simp add: run_opt_def split: scan_result.splits)
qed (use assms(1) in \<open>subst fat_alloc_loop.simps, simp add: run_opt_def\<close>)

lemma fat_alloc_loop_okf:
  "fsok s \<Longrightarrow> (\<And>i. i < 128 * k \<Longrightarrow> raw_fat s i \<noteq> 0) \<Longrightarrow> clusters (sb s) + 1 \<le> 3 + 128 * (k + n) \<Longrightarrow> 3 + 128 * k \<le> clusters (sb s) + 1 \<Longrightarrow>
   okf (n + 1) (room s) (run_opt (fat_alloc_loop (3 + 128 * k) (fatbase (sb s) + of_nat k) s)) (alloc_outcome s n)"
proof (induction n arbitrary: k s)
  case 0
  have "geom_ok (sb s)" using 0 by (simp add: fsok_def)
  then have "unat (FAT_CLUSTER_MAX (sb s)) = clusters (sb s) + 1" by (rule unat_FAT_CLUSTER_MAX)
  then show ?case using 0 reads_refl [of s]
    by (subst fat_alloc_loop.simps) (simp add: run_opt_def alloc_outcome_def)
next
  case (Suc n)
  let ?k = "fatbase (sb s) + of_nat k"
  have g: "geom_ok (sb s)" using Suc by (simp add: fsok_def)
  note mx = unat_FAT_CLUSTER_MAX [OF g]
  show ?case
  proof (cases "3 + 128 * k < clusters (sb s) + 1")
    case False
    then show ?thesis using Suc.prems(2,4) reads_mono [OF reads_refl [OF Suc.prems(1)]] mx
      by (subst fat_alloc_loop.simps) (simp add: run_opt_def alloc_outcome_def)
  next
    case True
    have k: "128 * k < clusters (sb s) + 2" using True by simp
    obtain b where b: "sectors (io s) ?k = Some b" "length b = 512" by (rule fat_sector_k [OF Suc.prems(1) k])
    have raw: "raw_fat s (128 * k + l) = le32 b (4 * l)" if "l < 128" for l
      using that b by (simp add: raw_fat_def)
    have below: "raw_fat s i \<noteq> 0" if "i < 128 * k + j" "\<forall>l<j. le32 b (4 * l) \<noteq> 0" "j \<le> 128" for i j
      using that Suc.prems(2) [of i] raw [of "i - 128 * k"] by (cases "i < 128 * k") auto
    obtain r where r: "scan_sector (sb s) b 0 (3 + 128 * k) = Inr r" and sp: "scan_ok (sb s) b 0 (3 + 128 * k) r"
      using scan_sector_spec [OF b(2) FAT_PER_SECTOR_128 [OF g], of 0 "3 + 128 * k"] True mx by auto
    note rd = fs_rd_okf [OF Suc.prems(1) b(1)]
    have "okf (1 + (n + 1)) (room s) (run_opt (fat_alloc_loop (3 + 128 * k) ?k s)) (alloc_outcome s (Suc n))"
    proof (subst fat_alloc_turn [OF _ r], goal_cases)
      case 3
      show ?case
      proof (rule okf_bind [OF rd])
        fix x assume "case x of (y, t) \<Rightarrow> y = b \<and> reads 1 s t"
        then obtain t where x: "x = (b, t)" and t: "reads 1 s t" by (cases x) auto
        have tok: "fsok t" by (rule reads_fsok [OF t Suc.prems(1)])
        have q: "sb t = sb s" "\<And>j. raw_fat t j = raw_fat s j" using reads_fields [OF t] reads_raw [OF t] by auto
        have "okf (n + 1) (room t) (case r of
              ScanFound c' \<Rightarrow> kbind (fat32_fat_set (of_nat c') EOC t) (\<lambda>s. Inr (of_nat c', s))
            | ScanEnd \<Rightarrow> Inr (0, t)
            | ScanNext c' \<Rightarrow> run_opt (fat_alloc_loop c' (?k + 1) t)) (alloc_outcome s (Suc n))"
        proof (cases r)
          case (ScanFound c)
          then obtain j where j: "j < 128" "le32 b (4 * j) = 0" "\<forall>l<j. le32 b (4 * l) \<noteq> 0" "c = 128 * k + j + 3" "c \<le> clusters (sb s) + 1"
            using sp mx by (auto simp: atLeast0LessThan)
          have z: "raw_fat t (128 * k + j) = 0" "\<forall>i<128 * k + j. raw_fat t i \<noteq> 0" "128 * k + j + 3 \<le> clusters (sb t) + 1"
            using q raw [OF j(1)] j below [of _ j] by auto
          show ?thesis using okf_mono [OF alloc_found_okf [OF tok z], of "n + 1" "alloc_outcome s (Suc n)"]
              alloc_outcome_mono [OF alloc_outcome_reads [OF t], of 0 _ "Suc n"] ScanFound j(4) by simp
        next
          case ScanEnd
          have "raw_fat s i \<noteq> 0" if i: "i + 3 \<le> clusters (sb s)" for i
          proof (cases "i < 128 * k")
            case False
            then obtain l where l: "i = 128 * k + l" by (auto dest: le_Suc_ex simp: not_less)
            have "l < 128" using i l sp ScanEnd mx by simp
            then show ?thesis using i l sp ScanEnd mx raw [of l] by auto
          qed (rule Suc.prems(2))
          then show ?thesis using ScanEnd reads_mono [OF t, of "Suc n"] by (simp add: alloc_outcome_def)
        next
          case (ScanNext c)
          then have c: "\<forall>l<128. le32 b (4 * l) \<noteq> 0" "c = 3 + 128 * (k + 1)" "c \<le> clusters (sb s) + 1" using sp mx by auto
          have "okf (n + 1) (room t) (run_opt (fat_alloc_loop (3 + 128 * (k + 1)) (fatbase (sb t) + of_nat (k + 1)) t)) (alloc_outcome t n)"
            using below [of _ 128] Suc.prems(3) c q by (intro Suc.IH [OF tok]) auto
          then have "okf (n + 1) (room t) (run_opt (fat_alloc_loop c (?k + 1) t)) (alloc_outcome t n)"
            using c(2) q(1) by (simp add: ac_simps)
          then have "okf (n + 1) (room t) (run_opt (fat_alloc_loop c (?k + 1) t)) (alloc_outcome s (Suc n))"
            by (rule okf_mono) (simp_all add: alloc_outcome_reads [OF t])
          then show ?thesis by (simp only: ScanNext scan_result.case)
        qed
        then show "\<exists>b'. room s \<le> b' + 1 \<and> okf (n + 1) b' (case r of
              ScanFound c' \<Rightarrow> kbind (fat32_fat_set (of_nat c') EOC (snd x)) (\<lambda>s. Inr (of_nat c', s))
            | ScanEnd \<Rightarrow> Inr (0, snd x)
            | ScanNext c' \<Rightarrow> run_opt (fat_alloc_loop c' (?k + 1) (snd x))) (alloc_outcome s (Suc n))"
          using t unfolding x snd_conv by (intro exI [of _ "room t"]) (simp add: reads_def)
      qed
    qed (use True mx rd in \<open>auto simp: okf_def\<close>)
    then show ?thesis by simp
  qed
qed

lemma alloc_outcome_fsok:
  assumes "fsok s" and "alloc_outcome s n (v, t)"
  shows "fsok t" and "sb t = sb s" and "inodes t = inodes s" and "room s \<le> room t + n + 1"
proof -
  consider "reads n s t" | b where "length b = 512"
      "wrote (n + 1) s ((sectors (io s))(ThisFATEntSecNum (sb s) v \<mapsto> set_entry (sb s) v EOC b)) t"
    using assms(2) unfolding alloc_outcome_def fst_conv snd_conv by blast
  then have "fsok t \<and> sb t = sb s \<and> inodes t = inodes s \<and> room s \<le> room t + n + 1"
  proof cases
    case 1
    then show ?thesis using reads_fsok [OF 1 assms(1)] by (simp add: reads_def)
  next
    case 2
    then show ?thesis using wrote_upd_fsok [OF assms(1) 2(2)] by (simp add: wrote_def)
  qed
  then show "fsok t" "sb t = sb s" "inodes t = inodes s" "room s \<le> room t + n + 1" by simp_all
qed

lemma fat_alloc_okf:
  assumes s: "fsok s" and c: "2 \<le> clusters (sb s)"
  shows "okf (clusters (sb s) div 128 + 2) (room s) (fat32_fat_alloc s) (alloc_outcome s (clusters (sb s) div 128 + 1))"
proof -
  have "clusters (sb s) + 1 \<le> 3 + 128 * (0 + (clusters (sb s) div 128 + 1))" by presburger
  then show ?thesis using fat_alloc_loop_okf [OF s, of 0] c by (simp add: fat32_fat_alloc_def)
qed

text \<open>
  \<open>fat32_fat_alloc\<close> looks for the first free entry but counts its clusters from 3 while it reads the entries
  from 0: when the first zero entry is entry \<open>j\<close>, the cluster it hands out and marks as the end of a chain is
  \<open>j + 3\<close>, whatever that entry held, and entry \<open>j\<close> stays free. With room for the walk it always returns; the result 0 means
  that nothing was written and no entry up to the third last is zero.
\<close>

lemma fat_alloc_shifted:
  assumes s: "fsok s" and r: "clusters (sb s) div 128 + 2 \<le> room s" and c: "2 \<le> clusters (sb s)"
  shows "\<exists>v t. fat32_fat_alloc s = Inr (v, t) \<and> fsok t \<and>
    (if v = 0 then sectors (io t) = sectors (io s) \<and> (\<forall>j. j + 3 \<le> clusters (sb s) \<longrightarrow> raw_fat s j \<noteq> 0)
     else \<exists>j. raw_fat s j = 0 \<and> (\<forall>i<j. raw_fat s i \<noteq> 0) \<and> unat v = j + 3 \<and>
       (\<forall>c'. cluster_ok (sb s) c' \<longrightarrow> fat_of t c' = (if c' = v then EOC AND FAT_VALID_MASK else fat_of s c')))"
proof -
  obtain v t where a: "fat32_fat_alloc s = Inr (v, t)" "alloc_outcome s (clusters (sb s) div 128 + 1) (v, t)"
    using okf_room [OF fat_alloc_okf [OF s c] r] by auto
  show ?thesis
  proof (cases "v = 0")
    case True
    then have t: "reads (clusters (sb s) div 128 + 1) s t" "\<forall>j. j + 3 \<le> clusters (sb s) \<longrightarrow> raw_fat s j \<noteq> 0" using a(2) by (auto simp: alloc_outcome_def)
    have "fsok t" "sectors (io t) = sectors (io s)" using reads_fsok [OF t(1) s] t(1) by (simp_all add: reads_def)
    then show ?thesis using a(1) True t(2) by simp
  next
    case False
    then obtain j b where j: "raw_fat s j = 0" "\<forall>i<j. raw_fat s i \<noteq> 0" "unat v = j + 3" "j + 3 \<le> clusters (sb s) + 1"
      "sectors (io s) (ThisFATEntSecNum (sb s) v) = Some b" "length b = 512"
      "wrote (clusters (sb s) div 128 + 1 + 1) s ((sectors (io s))(ThisFATEntSecNum (sb s) v \<mapsto> set_entry (sb s) v EOC b)) t"
      using a(2) unfolding alloc_outcome_def by auto
    have "unat v < clusters (sb s) + 2" using j(3,4) by simp
    from fat_of_set [OF s this _ j(5), of _ t EOC] j(7)
    have "\<forall>c'. cluster_ok (sb s) c' \<longrightarrow> fat_of t c' = (if c' = v then EOC AND FAT_VALID_MASK else fat_of s c')"
      by (auto simp: wrote_def cluster_ok_def)
    moreover have "fsok t" by (rule wrote_upd_fsok [OF s j(7)]) (simp add: j(6))
    ultimately show ?thesis using a(1) False j(1-3) by auto
  qed
qed

section \<open>Clearing a cluster\<close>

lemma wrote_trans: "wrote n s m t \<Longrightarrow> wrote n' t m' u \<Longrightarrow> wrote (n + n') s m' u"
  by (auto simp: wrote_def)

definition zeroed :: "nat \<Rightarrow> nat \<Rightarrow> (u32 \<Rightarrow> block option) \<Rightarrow> u32 \<Rightarrow> block option" where
  "zeroed a n m j = (if a \<le> unat j \<and> unat j < a + n then Some (replicate 512 0) else m j)"

lemma zeroed_Suc:
  assumes "unat k = a"
  shows "zeroed (Suc a) n (m(k \<mapsto> replicate 512 0)) = zeroed a (Suc n) m"
proof
  fix j :: u32
  show "zeroed (Suc a) n (m(k \<mapsto> replicate 512 0)) j = zeroed a (Suc n) m j"
    using assms word_unat_eq_iff [of j k] by (cases "unat j = a") (auto simp: zeroed_def)
qed

lemma zero_sectors_okf:
  "fsok s \<Longrightarrow> unat k + n \<le> unat (n_sectors (sb s)) \<Longrightarrow>
   okf n (room s) (zero_sectors n k s) (wrote n s (zeroed (unat k) n (sectors (io s))))"
proof (induction n arbitrary: k s)
  case 0
  have "zeroed (unat k) 0 m = m" for m by (auto simp: zeroed_def fun_eq_iff)
  then show ?case using 0 by (simp add: wrote_def fsok_def)
next
  case (Suc n)
  have lt: "unat k < unat (n_sectors (sb s))" using Suc.prems(2) by simp
  obtain b where b: "sectors (io s) k = Some b" "length b = 512" by (rule fsok_sector [OF Suc.prems(1) lt])
  have z: "zero_block b = replicate 512 0" by (simp add: zero_block_def)
  have "okf (1 + n) (room s) (kbind (fs_upd (sdev s) k zero_block s) (zero_sectors n (k + 1)))
    (wrote (1 + n) s (zeroed (unat k) (Suc n) (sectors (io s))))"
  proof (rule okf_bind [OF fs_upd_okf [OF Suc.prems(1) b(1), of zero_block]])
    fix t assume t: "wrote 1 s ((sectors (io s))(k \<mapsto> zero_block b)) t"
    have tok: "fsok t" using wrote_upd_fsok [OF Suc.prems(1) t] z by simp
    have k1: "unat (k + 1) = Suc (unat k)"
      using unat_add_small [of k 1] lt n_sectors_bound [of "sb s"] by simp
    have st: "sectors (io t) = (sectors (io s))(k \<mapsto> replicate 512 0)" "sb t = sb s" using t z by (simp_all add: wrote_def)
    have "okf n (room t) (zero_sectors n (k + 1) t) (wrote n t (zeroed (unat (k + 1)) n (sectors (io t))))"
      using Suc.prems(2) k1 st by (intro Suc.IH [OF tok]) simp
    then have "okf n (room t) (zero_sectors n (k + 1) t) (wrote (1 + n) s (zeroed (unat k) (Suc n) (sectors (io s))))"
      unfolding st k1 zeroed_Suc [OF refl] by (rule okf_mono) (use wrote_trans [OF t] in auto)
    then show "\<exists>b'. room s \<le> b' + 1 \<and> okf n b' (zero_sectors n (k + 1) t) (wrote (1 + n) s (zeroed (unat k) (Suc n) (sectors (io s))))"
      using t by (intro exI [of _ "room t"]) (simp add: wrote_def)
  qed
  then show ?case by simp
qed

section \<open>Allocating a cluster\<close>

text \<open>The geometry does not depend on the two counters of the super block.\<close>

lemma count_updates [simp]:
  "geom_ok (q\<lparr>free_count := n\<rparr>) = geom_ok q" "geom_ok (q\<lparr>nxt_free := m\<rparr>) = geom_ok q"
  "data_start (q\<lparr>free_count := n\<rparr>) = data_start q" "data_start (q\<lparr>nxt_free := m\<rparr>) = data_start q"
  "clusters (q\<lparr>free_count := n\<rparr>) = clusters q" "clusters (q\<lparr>nxt_free := m\<rparr>) = clusters q"
  "FAT_CLUSTER_MAX (q\<lparr>free_count := n\<rparr>) = FAT_CLUSTER_MAX q" "FAT_CLUSTER_MAX (q\<lparr>nxt_free := m\<rparr>) = FAT_CLUSTER_MAX q"
  "FirstSectorofCluster (q\<lparr>free_count := n\<rparr>) = FirstSectorofCluster q" "FirstSectorofCluster (q\<lparr>nxt_free := m\<rparr>) = FirstSectorofCluster q"
  "ThisFATEntSecNum (q\<lparr>free_count := n\<rparr>) = ThisFATEntSecNum q" "ThisFATEntSecNum (q\<lparr>nxt_free := m\<rparr>) = ThisFATEntSecNum q"
  "ThisFATEntOffset (q\<lparr>free_count := n\<rparr>) = ThisFATEntOffset q" "ThisFATEntOffset (q\<lparr>nxt_free := m\<rparr>) = ThisFATEntOffset q"
  "cluster_ok (q\<lparr>free_count := n\<rparr>) = cluster_ok q" "cluster_ok (q\<lparr>nxt_free := m\<rparr>) = cluster_ok q"
  by (simp_all add: fun_eq_iff geom_ok_def data_start_def clusters_def FAT_CLUSTER_MAX_def CountofClusters_def DataSec_def
      RootDirSectors_def FirstSectorofCluster_def FirstDataSector_def ThisFATEntSecNum_def ThisFATEntOffset_def cluster_ok_def)

lemma set_entry_counts [simp]: "set_entry (q\<lparr>free_count := n\<rparr>) = set_entry q" "set_entry (q\<lparr>nxt_free := m\<rparr>) = set_entry q"
  by (simp_all add: fun_eq_iff set_entry_def)

lemma fsok_counts [simp]:
  "fsok (s\<lparr>sb := (sb s)\<lparr>free_count := n\<rparr>\<rparr>) = fsok s" "fsok (s\<lparr>sb := (sb s)\<lparr>nxt_free := m\<rparr>\<rparr>) = fsok s"
  by (simp_all add: fsok_def)

lemma fsinfo_put: "length b = 512 \<Longrightarrow> fsinfo_of (put_fsinfo f b) = f" "length (put_fsinfo f b) = length b"
  by (simp_all add: fsinfo_of_def put_fsinfo_def le32_put32 le32_put32_other)

definition counts_of :: "superblock \<Rightarrow> fsinfo" where
  "counts_of q = \<lparr>Free_Count = free_count q, Nxt_Free = nxt_free q\<rparr>"

text \<open>What the common end of \<open>fat32_cluster_alloc\<close> does: both info sectors get the counters and the cluster is cleared.\<close>

definition cleared :: "u32 \<Rightarrow> fsstate \<Rightarrow> fsstate \<Rightarrow> bool" where
  "cleared c s t \<longleftrightarrow> fsok t \<and> sb t = sb s \<and> inodes t = inodes s \<and>
     (\<forall>k. 8 \<le> unat k \<longrightarrow> sectors (io t) k =
        zeroed (unat (FirstSectorofCluster (sb s) c)) (unat (sectors_per_block (sb s))) (sectors (io s)) k) \<and>
     fsinfo_of (the (sectors (io t) SECTOR_FSINFO)) = counts_of (sb s) \<and>
     fsinfo_of (the (sectors (io t) SECTOR_FSINFO_BACKUP)) = counts_of (sb s)"

lemma save_fsinfo_okf:
  assumes s: "fsok s" and k: "unat k < 8"
  obtains b where "length b = 512" "sectors (io s) k = Some b"
    "okf 1 (room s) (save_fsinfo (sdev s) k s) (wrote 1 s ((sectors (io s))(k \<mapsto> put_fsinfo (counts_of (sb s)) b)))"
proof -
  have "data_start (sb s) \<le> unat (n_sectors (sb s))" "8 \<le> data_start (sb s)" using s by (auto simp: fsok_def geom_ok_def data_start_def)
  then have "unat k < unat (n_sectors (sb s))" using k by linarith
  then obtain b where "sectors (io s) k = Some b" "length b = 512" by (rule fsok_sector [OF s])
  then show ?thesis using that fs_upd_okf [OF s] by (simp add: save_fsinfo_def counts_of_def)
qed

lemma zeroed_fsok:
  assumes "fsok s" and "wrote n s (zeroed a m (sectors (io s))) t"
  shows "fsok t"
  using assms(1) by (intro wrote_fsok [OF assms]) (auto simp: fsok_def zeroed_def)

lemma alloc_tail_okf:
  assumes s: "fsok s" and c: "cluster_ok (sb s) c"
  shows "okf (1 + (1 + unat (sectors_per_block (sb s)))) (room s)
    (kbind (save_fsinfo (sdev s) SECTOR_FSINFO s) (\<lambda>t. kbind (save_fsinfo (sdev s) SECTOR_FSINFO_BACKUP t) (fat32_zero_cluster c)))
    (cleared c s)"
proof -
  let ?p = "unat (sectors_per_block (sb s))" and ?a = "unat (FirstSectorofCluster (sb s) c)"
  have g: "geom_ok (sb s)" using s by (simp add: fsok_def)
  note span = cluster_span [OF g c]
  have a: "8 \<le> ?a" "?a + ?p \<le> unat (n_sectors (sb s))" using span g by (auto simp: geom_ok_def data_start_def)
  obtain b1 where b1: "length b1 = 512" "sectors (io s) SECTOR_FSINFO = Some b1"
    "okf 1 (room s) (save_fsinfo (sdev s) SECTOR_FSINFO s) (wrote 1 s ((sectors (io s))(SECTOR_FSINFO \<mapsto> put_fsinfo (counts_of (sb s)) b1)))"
    by (rule save_fsinfo_okf [OF s, of SECTOR_FSINFO]) (simp add: SECTOR_FSINFO_def)
  show ?thesis
  proof (rule okf_bind [OF b1(3)])
    fix t assume w1: "wrote 1 s ((sectors (io s))(SECTOR_FSINFO \<mapsto> put_fsinfo (counts_of (sb s)) b1)) t"
    have t: "sb t = sb s" "inodes t = inodes s" "fsok t" using w1 wrote_upd_fsok [OF s w1] b1(1) by (simp_all add: wrote_def fsinfo_put)
    obtain b7 where b7: "length b7 = 512" "sectors (io t) SECTOR_FSINFO_BACKUP = Some b7"
      "okf 1 (room t) (save_fsinfo (sdev t) SECTOR_FSINFO_BACKUP t) (wrote 1 t ((sectors (io t))(SECTOR_FSINFO_BACKUP \<mapsto> put_fsinfo (counts_of (sb t)) b7)))"
      by (rule save_fsinfo_okf [OF t(3), of SECTOR_FSINFO_BACKUP]) (simp add: SECTOR_FSINFO_BACKUP_def)
    have "okf (1 + ?p) (room t) (kbind (save_fsinfo (sdev t) SECTOR_FSINFO_BACKUP t) (fat32_zero_cluster c)) (cleared c s)"
    proof (rule okf_bind [OF b7(3)])
      fix u assume w7: "wrote 1 t ((sectors (io t))(SECTOR_FSINFO_BACKUP \<mapsto> put_fsinfo (counts_of (sb t)) b7)) u"
      have u: "sb u = sb s" "inodes u = inodes s" "fsok u" using w7 wrote_upd_fsok [OF t(3) w7] b7(1) t by (simp_all add: wrote_def fsinfo_put)
      have "okf ?p (room u) (fat32_zero_cluster c u) (wrote ?p u (zeroed ?a ?p (sectors (io u))))"
        using zero_sectors_okf [OF u(3), of "FirstSectorofCluster (sb s) c" ?p] a u(1) by (simp add: fat32_zero_cluster_def)
      moreover have "cleared c s v" if v: "wrote ?p u (zeroed ?a ?p (sectors (io u))) v" for v
      proof -
        have "sectors (io u) = (sectors (io s))(SECTOR_FSINFO \<mapsto> put_fsinfo (counts_of (sb s)) b1,
            SECTOR_FSINFO_BACKUP \<mapsto> put_fsinfo (counts_of (sb s)) b7)" using w1 w7 t by (simp add: wrote_def)
        then show ?thesis using v u a zeroed_fsok [OF u(3) v] b1(1) b7(1)
          by (auto simp: cleared_def wrote_def zeroed_def fsinfo_put SECTOR_FSINFO_def SECTOR_FSINFO_BACKUP_def)
      qed
      ultimately have "okf ?p (room u) (fat32_zero_cluster c u) (cleared c s)" by (rule okf_mono [OF _ order_refl])
      then show "\<exists>b'. room t \<le> b' + 1 \<and> okf ?p b' (fat32_zero_cluster c u) (cleared c s)"
        using w7 by (intro exI [of _ "room u"]) (simp add: wrote_def)
    qed
    then show "\<exists>b'. room s \<le> b' + 1 \<and> okf (1 + ?p) b' (kbind (save_fsinfo (sdev s) SECTOR_FSINFO_BACKUP t) (fat32_zero_cluster c)) (cleared c s)"
      using w1 t(1) by (intro exI [of _ "room t"]) (simp add: wrote_def)
  qed
qed

definition in_cluster :: "superblock \<Rightarrow> u32 \<Rightarrow> u32 \<Rightarrow> bool" where
  "in_cluster q c k \<longleftrightarrow> unat (FirstSectorofCluster q c) \<le> unat k \<and> unat k < unat (FirstSectorofCluster q c) + unat (sectors_per_block q)"

lemma cleared_fat:
  assumes "cleared c s t" and "geom_ok (sb s)" and "cluster_ok (sb s) c" and "unat c' < clusters (sb s) + 2"
  shows "fat_of t c' = fat_of s c'"
proof -
  note f = fat_place [OF assms(2,4)]
  have "8 \<le> unat (ThisFATEntSecNum (sb s) c')" "unat (ThisFATEntSecNum (sb s) c') < data_start (sb s)" using f assms(2) by (auto simp: geom_ok_def)
  then have "sectors (io t) (ThisFATEntSecNum (sb s) c') = sectors (io s) (ThisFATEntSecNum (sb s) c')"
    using assms(1) cluster_span(1) [OF assms(2,3)] by (auto simp: cleared_def zeroed_def)
  then show ?thesis using assms(1) by (simp add: fat_of_def cleared_def)
qed

lemma cleared_data:
  assumes "cleared c s t" and "geom_ok (sb s)" and "data_start (sb s) \<le> unat k"
  shows "sectors (io t) k = (if in_cluster (sb s) c k then Some (replicate 512 0) else sectors (io s) k)"
proof -
  have "8 \<le> unat k" using assms(2,3) by (auto simp: geom_ok_def data_start_def)
  then show ?thesis using assms(1) by (auto simp: cleared_def zeroed_def in_cluster_def)
qed

text \<open>
  C23. \<open>fat32_cluster_alloc\<close> when the hint \<open>nxt_free\<close> names a cluster whose first byte is 0: it returns that cluster, clears all its
  sectors and no other data sector, marks it as the end of a chain and keeps every other table entry, and
  lowers the free count and advances the hint, in the super block and in both info sectors.
\<close>

theorem cluster_alloc_correct:
  assumes s: "fsok s" and c: "cluster_ok (sb s) (nxt_free (sb s))" "nxt_free (sb s) < FAT_CLUSTER_MAX (sb s) - 1"
    and f: "free_count (sb s) \<noteq> 0" and r: "unat (sectors_per_block (sb s)) + 4 \<le> room s"
    and b: "sectors (io s) (FirstSectorofCluster (sb s) (nxt_free (sb s))) = Some b" "b ! 0 = 0"
  shows "\<exists>t. fat32_cluster_alloc (sdev s) s = Inr (nxt_free (sb s), t) \<and> fsok t \<and>
    free_count (sb t) = free_count (sb s) - 1 \<and> nxt_free (sb t) = nxt_free (sb s) + 1 \<and>
    fsinfo_of (the (sectors (io t) SECTOR_FSINFO)) = counts_of (sb t) \<and>
    fsinfo_of (the (sectors (io t) SECTOR_FSINFO_BACKUP)) = counts_of (sb t) \<and>
    (\<forall>c'. cluster_ok (sb s) c' \<longrightarrow> fat_of t c' = (if c' = nxt_free (sb s) then EOC AND FAT_VALID_MASK else fat_of s c')) \<and>
    (\<forall>k. data_start (sb s) \<le> unat k \<longrightarrow>
       sectors (io t) k = (if in_cluster (sb s) (nxt_free (sb s)) k then Some (replicate 512 0) else sectors (io s) k))"
proof -
  let ?c = "nxt_free (sb s)" and ?s0 = "s\<lparr>sb := (sb s)\<lparr>free_count := free_count (sb s) - 1\<rparr>\<rparr>"
  have g: "geom_ok (sb s)" using s by (simp add: fsok_def)
  have s0: "fsok ?s0" "sectors (io ?s0) (FirstSectorofCluster (sb ?s0) ?c) = Some b" using s b by simp_all
  obtain s1 where s1: "fs_rd (sdev s) (FirstSectorofCluster (sb s) ?c) ?s0 = Inr (b, s1)" "reads 1 ?s0 s1"
    using okf_room [OF fs_rd_okf [OF s0]] r by auto
  have q1: "sb s1 = (sb s)\<lparr>free_count := free_count (sb s) - 1\<rparr>" "sectors (io s1) = sectors (io s)" "room s \<le> room s1 + 1"
    using s1(2) by (simp_all add: reads_def)
  have ok1: "fsok s1" by (rule reads_fsok [OF s1(2) s0(1)])
  have cl: "unat ?c < clusters (sb s) + 2" using c(1) by (simp add: cluster_ok_def)
  obtain b2 where b2: "sectors (io s1) (ThisFATEntSecNum (sb s1) ?c) = Some b2" "length b2 = 512"
    "okf 1 (room s1) (fat32_fat_set ?c EOC s1) (wrote 1 s1 ((sectors (io s1))(ThisFATEntSecNum (sb s1) ?c \<mapsto> set_entry (sb s1) ?c EOC b2)))"
    by (rule fat_set_okf [OF ok1, of ?c]) (use cl q1 in simp)
  obtain s2 where s2: "fat32_fat_set ?c EOC s1 = Inr s2"
    and w2: "wrote 1 s1 ((sectors (io s1))(ThisFATEntSecNum (sb s1) ?c \<mapsto> set_entry (sb s1) ?c EOC b2)) s2"
    using okf_room [OF b2(3)] r q1(3) by auto
  let ?s3 = "s2\<lparr>sb := (sb s2)\<lparr>nxt_free := nxt_free (sb s2) + 1\<rparr>\<rparr>"
  have q2: "sb s2 = sb s1" "sectors (io s2) = (sectors (io s1))(ThisFATEntSecNum (sb s1) ?c \<mapsto> set_entry (sb s1) ?c EOC b2)" "room s1 \<le> room s2 + 1"
    using w2 by (simp_all add: wrote_def)
  have ok3: "fsok ?s3" using wrote_upd_fsok [OF ok1 w2] b2(2) by simp
  have c3: "cluster_ok (sb ?s3) ?c" using c(1) q1 q2 by simp
  obtain t where t: "kbind (save_fsinfo (sdev ?s3) SECTOR_FSINFO ?s3) (\<lambda>t. kbind (save_fsinfo (sdev ?s3) SECTOR_FSINFO_BACKUP t) (fat32_zero_cluster ?c)) = Inr t"
    "cleared ?c ?s3 t"
    using okf_room [OF alloc_tail_okf [OF ok3 c3]] r q1 q2 by auto
  have alloc: "fat32_cluster_alloc (sdev s) s = Inr (?c, t)"
    using f s1(1) b(2) c(2) s2 t(1) q1 q2
    by (auto simp: fat32_cluster_alloc_def Let_def kbind_eq_Inr)
  have ft: "fat_of t c' = (if c' = ?c then EOC AND FAT_VALID_MASK else fat_of s c')" if "cluster_ok (sb s) c'" for c'
  proof -
    have "unat c' < clusters (sb s) + 2" using that by (simp add: cluster_ok_def)
    then have "fat_of t c' = fat_of ?s3 c'" using cleared_fat [OF t(2) _ c3] g q1 q2 by simp
    also have "\<dots> = fat_of s2 c'" by (simp add: fat_of_def)
    also have "\<dots> = (if c' = ?c then EOC AND FAT_VALID_MASK else fat_of s1 c')"
      by (rule fat_of_set [OF ok1 _ _ b2(1) q2(1,2)]) (use cl \<open>unat c' < _\<close> q1 in simp_all)
    also have "fat_of s1 c' = fat_of s c'" by (simp add: fat_of_def q1)
    finally show ?thesis .
  qed
  have "unat (ThisFATEntSecNum (sb s) ?c) < data_start (sb s)" using fat_place [OF g cl] by simp
  then have dt: "sectors (io t) k = (if in_cluster (sb s) ?c k then Some (replicate 512 0) else sectors (io s) k)" if "data_start (sb s) \<le> unat k" for k
    using cleared_data [OF t(2), of k] that g q1 q2 by (auto simp: in_cluster_def)
  show ?thesis using alloc t(2) ft dt q1 q2 by (auto simp: cleared_def)
qed

text \<open>
  \<open>fat32_cluster_alloc\<close> when the cluster that the hint names holds data (its first byte is not 0): the search finds another
  entry, but the cluster returned and cleared is still the one the hint named. What it held is lost, and it is given out twice.
\<close>

lemma cluster_alloc_overwrites:
  assumes s: "fsok s" and c: "cluster_ok (sb s) (nxt_free (sb s))" and f: "free_count (sb s) \<noteq> 0"
    and r: "clusters (sb s) div 128 + unat (sectors_per_block (sb s)) + 5 \<le> room s"
    and b: "sectors (io s) (FirstSectorofCluster (sb s) (nxt_free (sb s))) = Some b" "b ! 0 \<noteq> 0"
    and j: "raw_fat s j = 0" "j + 3 \<le> clusters (sb s)"
  shows "\<exists>t. fat32_cluster_alloc (sdev s) s = Inr (nxt_free (sb s), t) \<and>
    (\<forall>k. in_cluster (sb s) (nxt_free (sb s)) k \<longrightarrow> sectors (io t) k = Some (replicate 512 0))"
proof -
  let ?c = "nxt_free (sb s)" and ?s0 = "s\<lparr>sb := (sb s)\<lparr>free_count := free_count (sb s) - 1\<rparr>\<rparr>"
  have g: "geom_ok (sb s)" using s by (simp add: fsok_def)
  have s0: "fsok ?s0" "sectors (io ?s0) (FirstSectorofCluster (sb ?s0) ?c) = Some b" using s b by simp_all
  obtain s1 where s1: "fs_rd (sdev s) (FirstSectorofCluster (sb s) ?c) ?s0 = Inr (b, s1)" "reads 1 ?s0 s1"
    using okf_room [OF fs_rd_okf [OF s0]] r by auto
  have q1: "sb s1 = (sb s)\<lparr>free_count := free_count (sb s) - 1\<rparr>" "room s \<le> room s1 + 1" "raw_fat s1 j = raw_fat s j"
    using s1(2) by (simp_all add: reads_def raw_fat_def)
  have ok1: "fsok s1" by (rule reads_fsok [OF s1(2) s0(1)])
  have c2: "2 \<le> clusters (sb s1)" "clusters (sb s1) div 128 + 2 \<le> room s1" using j(2) q1 r by auto
  obtain n s2 where s2: "fat32_fat_alloc s1 = Inr (n, s2)" "alloc_outcome s1 (clusters (sb s1) div 128 + 1) (n, s2)"
    using okf_room [OF fat_alloc_okf [OF ok1 c2(1)] c2(2)] by auto
  have nz: "n \<noteq> 0" using s2(2) j q1 by (auto simp: alloc_outcome_def)
  note s2q = alloc_outcome_fsok [OF ok1 s2(2)]
  let ?s3 = "s2\<lparr>sb := (sb s2)\<lparr>nxt_free := n + 1\<rparr>\<rparr>"
  have ok3: "fsok ?s3" using s2q(1) by simp
  have c3: "cluster_ok (sb ?s3) ?c" using s2q(2) c q1 by simp
  obtain t where t: "kbind (save_fsinfo (sdev ?s3) SECTOR_FSINFO ?s3) (\<lambda>t. kbind (save_fsinfo (sdev ?s3) SECTOR_FSINFO_BACKUP t) (fat32_zero_cluster ?c)) = Inr t"
    "cleared ?c ?s3 t"
    using okf_room [OF alloc_tail_okf [OF ok3 c3]] r q1 s2q by auto
  have "fat32_cluster_alloc (sdev s) s = Inr (?c, t)"
    using f s1(1) b(2) s2(1) nz t(1) q1 s2q by (auto simp: fat32_cluster_alloc_def Let_def kbind_eq_Inr)
  moreover have "sectors (io t) k = Some (replicate 512 0)" if "in_cluster (sb s) ?c k" for k
  proof -
    have "data_start (sb s) \<le> unat k" using that cluster_span(1) [OF g c] by (simp add: in_cluster_def)
    then show ?thesis using cleared_data [OF t(2), of k] g that s2q(2) q1 by (simp add: in_cluster_def)
  qed
  ultimately show ?thesis by blast
qed

section \<open>A small volume\<close>

text \<open>
  Twenty sectors: eight reserved ones, one sector of table, eleven clusters of one sector each. Cluster 2 is followed by
  cluster 3, which ends the chain; cluster 4 is free and the hint names it.
\<close>

definition demo_sb :: superblock where
  "demo_sb = \<lparr>s_dev = 1, s_blocksize = 512, sectors_per_block = 1, cluster_size = 512, n_sectors = 20, sector_size = 512,
     fatbase = 8, n_fats = 1, n_sectors_fat = 1, root_cluster_s = 2, free_count = 2, nxt_free = 4\<rparr>"

definition demo_fat :: block where
  "demo_fat = put32 0 0x0FFFFFF8 (put32 4 0x0FFFFFFF (put32 8 3 (put32 12 0x0FFFFFFF (replicate 512 0))))"

definition demo_media :: "u8 \<Rightarrow> u64 \<Rightarrow> block option" where
  "demo_media x k = Some (if k = 8 then demo_fat else if k = 11 then x # replicate 511 0 else replicate 512 0)"

definition inode0 :: inode where
  "inode0 = \<lparr>i_dev = 0, i_ino = 0, i_mode = 0, ref = 0, valid = False, i_nlink = 0, i_uid = 0, i_gid = 0, i_rdev = 0, i_size = 0,
     i_type = 0, i_atime = 0, i_mtime = 0, i_ctime = 0, i_blksize = 0, i_blocks = 0, iparent = None, fs_type = 0, fname = replicate 255 0,
     Attr = 0, CrtTimeTenth = 0, CrtTime = 0, CrtDate = 0, LstAccDate = 0, cluster_start = 0, WrtTime = 0, WrtDate = 0,
     FileSize = 0, cluster_end = 0, cluster_cnt = 0, parent_off = 0\<rparr>"

definition demo_fs :: "u8 \<Rightarrow> fsstate" where
  "demo_fs x = \<lparr>io = boot_io (demo_media x), sb = demo_sb, inodes = [inode0\<lparr>cluster_start := 2\<rparr>], itable_lock = 0\<rparr>"

lemma demo_fat_length: "length demo_fat = 512"
  by (simp add: demo_fat_def)

lemma demo_geom: "geom_ok demo_sb" "clusters demo_sb = 11" "data_start demo_sb = 9"
  by (simp_all add: geom_ok_def clusters_def data_start_def demo_sb_def)

lemma demo_sel [simp]: "sb (demo_fs x) = demo_sb" "inodes (demo_fs x) = [inode0\<lparr>cluster_start := 2\<rparr>]"
    "sectors (io (demo_fs x)) k = demo_media x (ucast k)" "s_dev demo_sb = 1" "bfree (io (demo_fs x)) = 30"
    "nxt_free demo_sb = 4" "free_count demo_sb = 2" "sectors_per_block demo_sb = 1" "fatbase demo_sb = 8"
  by (simp_all add: demo_fs_def demo_sb_def boot_io_sectors boot_io_free BUFFER_NUM_def)

lemma demo_fsok: "fsok (demo_fs x)"
proof -
  have "binv 1 (io (demo_fs x))" using boot_io_binv by (simp add: demo_fs_def)
  then show ?thesis using demo_geom demo_fat_length by (auto simp: fsok_def demo_media_def)
qed

lemma demo_max: "FAT_CLUSTER_MAX demo_sb = 12"
  by (simp add: FAT_CLUSTER_MAX_def CountofClusters_def DataSec_def RootDirSectors_def demo_sb_def)

lemma demo_raw: "le32 demo_fat 0 \<noteq> 0" "le32 demo_fat 4 \<noteq> 0" "le32 demo_fat 8 = 3" "le32 demo_fat 12 = 0x0FFFFFFF" "le32 demo_fat 16 = 0"
  by (simp_all add: demo_fat_def le32_put32 le32_put32_other) (simp add: le32_def)

lemma demo_entry: "fat_of (demo_fs x) 2 = 3" "fat_of (demo_fs x) 3 = 0x0FFFFFFF" "fat_of (demo_fs x) 4 = 0"
proof -
  have "ThisFATEntSecNum demo_sb 2 = 8" "ThisFATEntSecNum demo_sb 3 = 8" "ThisFATEntSecNum demo_sb 4 = 8"
    "ThisFATEntOffset demo_sb 2 = 8" "ThisFATEntOffset demo_sb 3 = 12" "ThisFATEntOffset demo_sb 4 = 16"
    by (simp_all add: ThisFATEntSecNum_def ThisFATEntOffset_def demo_sb_def)
  then show "fat_of (demo_fs x) 2 = 3" "fat_of (demo_fs x) 3 = 0x0FFFFFFF" "fat_of (demo_fs x) 4 = 0"
    by (simp_all add: fat_of_def demo_media_def FAT_VALID_MASK_def demo_raw)
qed

lemma demo_first: "FirstSectorofCluster demo_sb 4 = 11" "cluster_ok demo_sb 4"
  by (simp_all add: FirstSectorofCluster_def FirstDataSector_def RootDirSectors_def cluster_ok_def demo_geom) (simp add: demo_sb_def)

theorem fat_travel_correct_witness:
  "\<exists>t. fat32_fat_travel 0 7 (demo_fs 0) = Inr (3, t) \<and> sectors (io t) = sectors (io (demo_fs 0))"
proof -
  have "fat_chain (fat_of (demo_fs 0)) (FAT_CLUSTER_MAX (sb (demo_fs 0))) (cluster_start (inodes (demo_fs 0) ! 0)) [2, 3]"
    by (simp add: demo_entry demo_max ISEOF_def)
  from fat_travel_correct [OF demo_fsok _ _ this, THEN conjunct2, rule_format, of 7] show ?thesis by auto
qed

lemma fat_alloc_shifted_example:
  "raw_fat (demo_fs 0) 4 = 0 \<and> (\<exists>t. fat32_fat_alloc (demo_fs 0) = Inr (7, t) \<and> fat_of t 4 = 0)"
proof -
  have z: "raw_fat (demo_fs 0) 4 = 0" by (simp add: raw_fat_def demo_media_def demo_raw)
  have nz: "raw_fat (demo_fs 0) i \<noteq> 0" if "i < 4" for i
  proof -
    have "i = 0 \<or> i = 1 \<or> i = 2 \<or> i = 3" using that by auto
    then show ?thesis by (auto simp: raw_fat_def demo_media_def demo_raw)
  qed
  obtain v t where a: "fat32_fat_alloc (demo_fs 0) = Inr (v, t)"
    and d: "if v = 0 then sectors (io t) = sectors (io (demo_fs 0)) \<and> (\<forall>j. j + 3 \<le> clusters (sb (demo_fs 0)) \<longrightarrow> raw_fat (demo_fs 0) j \<noteq> 0)
     else \<exists>j. raw_fat (demo_fs 0) j = 0 \<and> (\<forall>i<j. raw_fat (demo_fs 0) i \<noteq> 0) \<and> unat v = j + 3 \<and>
       (\<forall>c'. cluster_ok (sb (demo_fs 0)) c' \<longrightarrow> fat_of t c' = (if c' = v then EOC AND FAT_VALID_MASK else fat_of (demo_fs 0) c'))"
    using fat_alloc_shifted [OF demo_fsok, of 0] by (auto simp: demo_geom)
  have "v \<noteq> 0" using d z demo_geom by (auto split: if_splits)
  then obtain j where j: "raw_fat (demo_fs 0) j = 0" "\<forall>i<j. raw_fat (demo_fs 0) i \<noteq> 0" "unat v = j + 3"
    "\<forall>c'. cluster_ok demo_sb c' \<longrightarrow> fat_of t c' = (if c' = v then EOC AND FAT_VALID_MASK else fat_of (demo_fs 0) c')"
    using d by auto
  have "j = 4" using j(1,2) z nz by (meson linorder_neqE_nat)
  then have "v = 7" using j(3) by (simp add: word_unat_eq_iff)
  then show ?thesis using a j(4) z demo_first demo_entry by auto
qed

theorem cluster_alloc_correct_witness:
  "\<exists>t. fat32_cluster_alloc 1 (demo_fs 0) = Inr (4, t) \<and> fat_of t 4 = EOC AND FAT_VALID_MASK \<and> sectors (io t) 11 = Some (replicate 512 0)"
proof -
  have "demo_media 0 11 = Some (replicate 512 0)" by (simp add: demo_media_def replicate_Suc [symmetric])
  with cluster_alloc_correct [OF demo_fsok, of 0 "replicate 512 0"] show ?thesis
    by (auto simp: demo_first demo_max demo_geom in_cluster_def)
qed

lemma cluster_alloc_overwrites_example:
  "\<exists>t. fat32_cluster_alloc 1 (demo_fs 7) = Inr (4, t) \<and> sectors (io (demo_fs 7)) 11 = Some (7 # replicate 511 0) \<and>
     sectors (io t) 11 = Some (replicate 512 0)"
proof -
  have m: "demo_media 7 11 = Some (7 # replicate 511 0)" by (simp add: demo_media_def)
  have "raw_fat (demo_fs 7) 4 = 0" by (simp add: raw_fat_def demo_media_def demo_raw)
  with cluster_alloc_overwrites [OF demo_fsok, of 7 "7 # replicate 511 0" 4] m show ?thesis
    by (auto simp: demo_first demo_geom in_cluster_def)
qed

end
