(* ===== verification/Dirent.thy ===== *)
theory Dirent
  imports Fat
begin

text \<open>
  Directory entries: the packed short and long entries of \<^verbatim>\<open>src/include/fs/fat32_disk.h\<close>, the entry stack of
  \<^verbatim>\<open>src/fs/fat32_stack.c\<close>, and the name functions of \<^verbatim>\<open>src/fs/fat32_inode.c\<close> that turn a long name into entries
  and entries back into a name.
\<close>

section \<open>Entries and their bytes\<close>

record dirent_s =
  DIR_Name :: "u8 list"
  DIR_Attr :: u8
  DIR_Dev :: u8
  DIR_CrtTimeTenth :: u8
  DIR_CrtTime :: u16
  DIR_CrtDate :: u16
  DIR_LstAccDate :: u16
  DIR_FstClusHI :: u16
  DIR_WrtTime :: u16
  DIR_WrtDate :: u16
  DIR_FstClusLO :: u16
  DIR_FileSize :: u32

record dirent_l =
  LDIR_Ord :: u8
  LDIR_Name1 :: "u16 list"
  LDIR_Attr :: u8
  LDIR_Type :: u8
  LDIR_Chksum :: u8
  LDIR_Name2 :: "u16 list"
  LDIR_Nlinks :: u16
  LDIR_Name3 :: "u16 list"

definition FAT_SFN_LENGTH :: nat where "FAT_SFN_LENGTH = 11"
definition FAT_LFN_LENGTH :: nat where "FAT_LFN_LENGTH = 13"
definition NAME_LONG_MAX :: nat where "NAME_LONG_MAX = 255"
definition PATH_LONG_MAX :: nat where "PATH_LONG_MAX = 260"
definition FCB_MAX_LENGTH :: nat where "FCB_MAX_LENGTH = 672"
definition FCB_SIZE :: nat where "FCB_SIZE = 32"

definition dirent_s_of :: "block \<Rightarrow> nat \<Rightarrow> dirent_s" where
  "dirent_s_of b i = \<lparr>DIR_Name = take 11 (drop i b), DIR_Attr = b ! (i + 11), DIR_Dev = b ! (i + 12), DIR_CrtTimeTenth = b ! (i + 13),
     DIR_CrtTime = le16 b (i + 14), DIR_CrtDate = le16 b (i + 16), DIR_LstAccDate = le16 b (i + 18), DIR_FstClusHI = le16 b (i + 20),
     DIR_WrtTime = le16 b (i + 22), DIR_WrtDate = le16 b (i + 24), DIR_FstClusLO = le16 b (i + 26), DIR_FileSize = le32 b (i + 28)\<rparr>"

definition dirent_l_of :: "block \<Rightarrow> nat \<Rightarrow> dirent_l" where
  "dirent_l_of b i = \<lparr>LDIR_Ord = b ! i, LDIR_Name1 = map (\<lambda>k. le16 b (i + 1 + 2 * k)) [0..<5], LDIR_Attr = b ! (i + 11),
     LDIR_Type = b ! (i + 12), LDIR_Chksum = b ! (i + 13), LDIR_Name2 = map (\<lambda>k. le16 b (i + 14 + 2 * k)) [0..<6],
     LDIR_Nlinks = le16 b (i + 26), LDIR_Name3 = map (\<lambda>k. le16 b (i + 28 + 2 * k)) [0..<2]\<rparr>"

definition bytes16 :: "u16 \<Rightarrow> u8 list" where
  "bytes16 v = [ucast v, ucast (drop_bit 8 v)]"

definition bytes32 :: "u32 \<Rightarrow> u8 list" where
  "bytes32 v = [ucast v, ucast (drop_bit 8 v), ucast (drop_bit 16 v), ucast (drop_bit 24 v)]"

definition bytes_of_s :: "dirent_s \<Rightarrow> u8 list" where
  "bytes_of_s d = DIR_Name d @ [DIR_Attr d, DIR_Dev d, DIR_CrtTimeTenth d] @ bytes16 (DIR_CrtTime d) @ bytes16 (DIR_CrtDate d) @
     bytes16 (DIR_LstAccDate d) @ bytes16 (DIR_FstClusHI d) @ bytes16 (DIR_WrtTime d) @ bytes16 (DIR_WrtDate d) @
     bytes16 (DIR_FstClusLO d) @ bytes32 (DIR_FileSize d)"

definition bytes_of_l :: "dirent_l \<Rightarrow> u8 list" where
  "bytes_of_l d = [LDIR_Ord d] @ concat (map bytes16 (LDIR_Name1 d)) @ [LDIR_Attr d, LDIR_Type d, LDIR_Chksum d] @
     concat (map bytes16 (LDIR_Name2 d)) @ bytes16 (LDIR_Nlinks d) @ concat (map bytes16 (LDIR_Name3 d))"

section \<open>Flags\<close>

definition NAME0_FREE_ONLY :: "u8 \<Rightarrow> bool" where "NAME0_FREE_ONLY x \<longleftrightarrow> x = 0xE5"
definition NAME0_FREE_ALL :: "u8 \<Rightarrow> bool" where "NAME0_FREE_ALL x \<longleftrightarrow> x = 0"
definition NAME0_FREE_BOOL :: "u8 \<Rightarrow> bool" where "NAME0_FREE_BOOL x \<longleftrightarrow> NAME0_FREE_ONLY x \<or> NAME0_FREE_ALL x"

definition ATTR_READ_ONLY :: u8 where "ATTR_READ_ONLY = 0x01"
definition ATTR_HIDDEN :: u8 where "ATTR_HIDDEN = 0x02"
definition ATTR_SYSTEM :: u8 where "ATTR_SYSTEM = 0x04"
definition ATTR_VOLUME_ID :: u8 where "ATTR_VOLUME_ID = 0x08"
definition ATTR_ARCHIVE :: u8 where "ATTR_ARCHIVE = 0x20"
definition ATTR_DIRECTORY :: u8 where "ATTR_DIRECTORY = 0x10"
definition ATTR_LONG_NAME :: u8 where
  "ATTR_LONG_NAME = ATTR_READ_ONLY OR ATTR_HIDDEN OR ATTR_SYSTEM OR ATTR_VOLUME_ID"

definition DIR_BOOL :: "u8 \<Rightarrow> bool" where "DIR_BOOL x \<longleftrightarrow> x AND ATTR_DIRECTORY \<noteq> 0"
definition DIR_SET :: "u8 \<Rightarrow> u8" where "DIR_SET x = (x AND 0) OR ATTR_DIRECTORY"
definition NONE_DIR_SET :: "u8 \<Rightarrow> u8" where "NONE_DIR_SET x = (x AND 0) OR ATTR_ARCHIVE"
definition READONLY_GET :: "u8 \<Rightarrow> u8" where "READONLY_GET x = x AND ATTR_READ_ONLY"

definition DIR_FIRST_CLUS :: "u16 \<Rightarrow> u16 \<Rightarrow> u32" where "DIR_FIRST_CLUS high low = push_bit 16 (ucast high) OR ucast low"
definition DIR_FIRST_HIGH :: "u32 \<Rightarrow> u16" where "DIR_FIRST_HIGH x = ucast (drop_bit 16 x)"
definition DIR_FIRST_LOW :: "u32 \<Rightarrow> u16" where "DIR_FIRST_LOW x = ucast (x AND 0xFFFF)"

definition LAST_LONG_ENTRY :: u8 where "LAST_LONG_ENTRY = 0x40"
definition LONG_NAME_BOOL :: "u8 \<Rightarrow> bool" where "LONG_NAME_BOOL x \<longleftrightarrow> x XOR ATTR_LONG_NAME = 0"
definition LAST_LONG_ENTRY_BOOL :: "u8 \<Rightarrow> bool" where "LAST_LONG_ENTRY_BOOL x \<longleftrightarrow> x AND LAST_LONG_ENTRY \<noteq> 0"
definition LAST_LONG_ENTRY_SET :: "u8 \<Rightarrow> u8" where "LAST_LONG_ENTRY_SET x = x OR LAST_LONG_ENTRY"
definition LONG_NAME_CHAR_MASK :: "u16 \<Rightarrow> u8" where "LONG_NAME_CHAR_MASK x = ucast (x AND 0xFF)"
definition LONG_NAME_CHAR_VALID :: "u16 \<Rightarrow> bool" where "LONG_NAME_CHAR_VALID x \<longleftrightarrow> x \<noteq> 0 \<and> x \<noteq> 0xFFFF"
definition LONG_NAME_CHAR_SET :: "u8 \<Rightarrow> u16" where "LONG_NAME_CHAR_SET x = ucast x AND 0x00FF"

section \<open>The entry stack\<close>

text \<open>
  \<^verbatim>\<open>Stack_t\<close> as the list of its elements, the top first. \<^verbatim>\<open>stack_init\<close> takes its 960 bytes from the kernel's
  allocator, whose failure is a panic of its own, and \<^verbatim>\<open>stack_free\<close> gives them back; neither touches the elements.
\<close>

type_synonym stack_t = "dirent_l list"

definition CAPACITY :: nat where "CAPACITY = 30"

definition stack_init :: stack_t where "stack_init = []"

definition stack_is_empty :: "stack_t \<Rightarrow> bool" where "stack_is_empty st \<longleftrightarrow> st = []"

definition stack_is_full :: "stack_t \<Rightarrow> bool" where "stack_is_full st \<longleftrightarrow> length st = CAPACITY"

definition stack_push :: "stack_t \<Rightarrow> dirent_l \<Rightarrow> stack_t res" where
  "stack_push st x = (if stack_is_full st then Inl (Panic ''Stack Overflow!'') else Inr (x # st))"

definition stack_pop :: "stack_t \<Rightarrow> (dirent_l \<times> stack_t) res" where
  "stack_pop st = (case st of [] \<Rightarrow> Inl (Panic ''Stack Underflow!'') | x # st' \<Rightarrow> Inr (x, st'))"

definition stack_peek :: "stack_t \<Rightarrow> dirent_l res" where
  "stack_peek st = (case st of [] \<Rightarrow> Inl (Panic ''Stack is empty!'') | x # st' \<Rightarrow> Inr x)"

section \<open>Names out of entries\<close>

definition ChkSum_step :: "u8 \<Rightarrow> u8 \<Rightarrow> u8" where
  "ChkSum_step c acc = (if acc AND 1 \<noteq> 0 then 0x80 else 0) + drop_bit 1 acc + c"

definition ChkSum :: "u8 list \<Rightarrow> u8" where
  "ChkSum name = fold ChkSum_step (take 11 name) 0"

text \<open>\<^verbatim>\<open>fat32_filter_longname\<close>: the bytes stored, the first terminator included; the result of the C function is their number.\<close>

fun filter_chars :: "u16 list \<Rightarrow> u8 list" where
  "filter_chars [] = []"
| "filter_chars (c # cs) = LONG_NAME_CHAR_MASK c # (if LONG_NAME_CHAR_VALID c then filter_chars cs else [])"

definition fat32_filter_longname :: "dirent_l \<Rightarrow> u8 list" where
  "fat32_filter_longname d = filter_chars (LDIR_Name1 d @ LDIR_Name2 d @ LDIR_Name3 d)"

text \<open>
  \<^verbatim>\<open>fat32_longname_popstack\<close>: the flag, the bytes stored into \<^verbatim>\<open>name_buf\<close> and the stack that is left. An early return leaves
  what was popped out and the rest on the stack.
\<close>

fun popstack_loop :: "u8 list \<Rightarrow> u8 \<Rightarrow> stack_t \<Rightarrow> u8 list \<Rightarrow> (bool \<times> u8 list \<times> stack_t) res" where
  "popstack_loop sname cnt [] name = Inl (Panic ''Stack Underflow!'')"
| "popstack_loop sname cnt (e # st) name =
     (if st \<noteq> [] \<and> cnt \<noteq> LDIR_Ord e then Inr (False, name, st)
      else if LDIR_Chksum e \<noteq> ChkSum sname then Inr (False, name, st)
      else
        let name' = name @ fat32_filter_longname e
        in if length name' > NAME_LONG_MAX then Inl OutOfBounds
           else if st \<noteq> [] then popstack_loop sname (cnt + 1) st name'
           else if length name' = NAME_LONG_MAX then Inl OutOfBounds
           else Inr (LAST_LONG_ENTRY_BOOL (LDIR_Ord e), name' @ [0], []))"

definition fat32_longname_popstack :: "stack_t \<Rightarrow> u8 list \<Rightarrow> (bool \<times> u8 list \<times> stack_t) res" where
  "fat32_longname_popstack st sname = (if stack_is_empty st then Inr (False, [], st) else popstack_loop sname 1 st [])"

definition fat32_short_name_parser :: "dirent_s \<Rightarrow> u8 list" where
  "fat32_short_name_parser d =
     (let n = DIR_Name d
      in filter (\<lambda>c. c \<noteq> 0x20) (take 8 n) @
         (if n ! 8 \<noteq> 0x20 then 0x2E # filter (\<lambda>c. c \<noteq> 0x20) (take 3 (drop 8 n)) else []) @ [0])"

section \<open>Entries out of a name\<close>

text \<open>
  The thirteen character slots of one long entry, filled from the bytes \<open>cs\<close> of the name (its terminator included): after the
  terminator the slots keep the \<^verbatim>\<open>0xFF\<close> bytes the entry was set to.
\<close>

fun long_slots :: "nat \<Rightarrow> u8 list \<Rightarrow> u16 list" where
  "long_slots 0 cs = []"
| "long_slots (Suc n) [] = 0xFFFF # long_slots n []"
| "long_slots (Suc n) (c # cs) =
     LONG_NAME_CHAR_SET c # (if LONG_NAME_CHAR_VALID (ucast c) then long_slots n cs else replicate n 0xFFFF)"

definition long_entry :: "u8 \<Rightarrow> nat \<Rightarrow> nat \<Rightarrow> u8 list \<Rightarrow> dirent_l" where
  "long_entry checksum ord_max i cs =
     (let slots = long_slots FAT_LFN_LENGTH cs
      in \<lparr>LDIR_Ord = (if i = ord_max then LAST_LONG_ENTRY_SET (of_nat i) else of_nat i), LDIR_Name1 = take 5 slots,
          LDIR_Attr = ATTR_LONG_NAME, LDIR_Type = 0, LDIR_Chksum = checksum, LDIR_Name2 = take 6 (drop 5 slots),
          LDIR_Nlinks = 0, LDIR_Name3 = drop 11 slots\<rparr>)"

fun long_loop :: "u8 \<Rightarrow> nat \<Rightarrow> nat \<Rightarrow> nat \<Rightarrow> u8 list \<Rightarrow> stack_t \<Rightarrow> stack_t res" where
  "long_loop checksum ord_max 0 i cs st = Inr st"
| "long_loop checksum ord_max (Suc n) i cs st =
     (if length cs = 1 then Inr st
      else kbind (stack_push st (long_entry checksum ord_max i cs)) (long_loop checksum ord_max n (Suc i) (drop FAT_LFN_LENGTH cs)))"

definition CEIL_DIVIDE :: "nat \<Rightarrow> nat \<Rightarrow> nat" where "CEIL_DIVIDE x y = (x + y - 1) div y"

definition long_entries :: "u8 \<Rightarrow> u8 list \<Rightarrow> stack_t res" where
  "long_entries checksum name =
     (let ord_max = CEIL_DIVIDE (length name) FAT_LFN_LENGTH in long_loop checksum ord_max ord_max 1 (name @ [0]) stack_init)"

text \<open>The entries are written to the directory in the order they are popped, the short entry after them.\<close>

definition fcb_bytes :: "stack_t \<Rightarrow> dirent_s \<Rightarrow> u8 list" where
  "fcb_bytes st d = concat (map bytes_of_l st) @ bytes_of_s d"

section \<open>Comparing names\<close>

text \<open>\<^verbatim>\<open>fat32_namecmp\<close> is \<^verbatim>\<open>strncmp\<close> on two C strings, here placed one after the other.\<close>

definition two_strings :: "u8 list \<Rightarrow> u8 list \<Rightarrow> bmem" where
  "two_strings s t i = (let m = s @ [0] @ t @ [0] in if i < length m then m ! i else 0)"

definition strings_cmp :: "u8 list \<Rightarrow> u8 list \<Rightarrow> nat \<Rightarrow> int" where
  "strings_cmp s t n = strncmp (two_strings s t) 0 (length s + 1) n"

definition fat32_namecmp :: "u8 list \<Rightarrow> u8 list \<Rightarrow> int" where
  "fat32_namecmp s t = strings_cmp s t PATH_LONG_MAX"

section \<open>Bytes and entries\<close>

lemma bytes16_le: "le16 (bytes16 v) 0 = v"
proof -
  have "put16 0 v [0, 0] = bytes16 v" by (simp add: put16_def bytes16_def)
  then show ?thesis using le16_put16 [of 0 "[0, 0]" v] by simp
qed

lemma bytes32_le: "le32 (bytes32 v) 0 = v"
proof -
  have "put32 0 v [0, 0, 0, 0] = bytes32 v" by (simp add: put32_def bytes32_def)
  then show ?thesis using le32_put32 [of 0 "[0, 0, 0, 0]" v] by simp
qed

lemma le16_bytes: "b ! i = ucast v \<Longrightarrow> b ! Suc i = ucast (drop_bit 8 v) \<Longrightarrow> le16 b i = v"
  using bytes16_le [of v] by (simp add: le16_def bytes16_def)

lemma le32_bytes:
  "b ! i = ucast v \<Longrightarrow> b ! (i + 1) = ucast (drop_bit 8 v) \<Longrightarrow> b ! (i + 2) = ucast (drop_bit 16 v) \<Longrightarrow> b ! (i + 3) = ucast (drop_bit 24 v) \<Longrightarrow>
   le32 b i = v"
  using bytes32_le [of v] by (simp add: le32_def bytes32_def)

definition wf_l :: "dirent_l \<Rightarrow> bool" where
  "wf_l d \<longleftrightarrow> length (LDIR_Name1 d) = 5 \<and> length (LDIR_Name2 d) = 6 \<and> length (LDIR_Name3 d) = 2"

lemma length_bytes_l: "wf_l d \<Longrightarrow> length (bytes_of_l d) = 32"
  by (auto simp: wf_l_def bytes_of_l_def bytes16_def length_concat comp_def sum_list_triv)

lemma list5: "length xs = 5 \<Longrightarrow> \<exists>a b c d e. xs = [a, b, c, d, e]"
  by (auto simp: numeral_eq_Suc length_Suc_conv)

lemma list6: "length xs = 6 \<Longrightarrow> \<exists>a b c d e f. xs = [a, b, c, d, e, f]"
  by (auto simp: numeral_eq_Suc length_Suc_conv)

lemma list2: "length xs = 2 \<Longrightarrow> \<exists>a b. xs = [a, b]"
  by (auto simp: numeral_eq_Suc length_Suc_conv)

lemma dirent_l_roundtrip: "wf_l d \<Longrightarrow> dirent_l_of (bytes_of_l d @ r) 0 = d"
proof -
  assume "wf_l d"
  then obtain a b c e f g h i j k l m n where n: "LDIR_Name1 d = [a, b, c, e, f]" "LDIR_Name2 d = [g, h, i, j, k, l]" "LDIR_Name3 d = [m, n]"
    using list5 list6 list2 unfolding wf_l_def by metis
  have u: "[0..<5] = [0, 1, 2, 3, 4]" "[0..<6] = [0, 1, 2, 3, 4, 5]" "[0..<2] = [0, 1]" by (simp_all add: upt_rec)
  show ?thesis
    by (rule dirent_l.equality)
      (simp_all add: dirent_l_of_def bytes_of_l_def n u bytes16_def le16_bytes del: upt.simps)
qed

lemma dirent_s_roundtrip: "length (DIR_Name d) = 11 \<Longrightarrow> dirent_s_of (bytes_of_s d @ r) 0 = d"
proof -
  assume l: "length (DIR_Name d) = 11"
  have n: "(DIR_Name d @ ys) ! (k + 11) = ys ! k" for ys k using l by (simp add: nth_append)
  show ?thesis
    by (rule dirent_s.equality)
      (simp_all add: dirent_s_of_def bytes_of_s_def l n [of _ 0, simplified] bytes16_def bytes32_def le16_bytes le32_bytes nth_append)
qed

lemma first_clus: "DIR_FIRST_CLUS (DIR_FIRST_HIGH c) (DIR_FIRST_LOW c) = c"
proof (rule bit_word_eqI)
  fix n assume "n < LENGTH(32)"
  have m: "(0xFFFF :: u32) = mask 16" by (simp add: mask_eq_exp_minus_1)
  show "bit (DIR_FIRST_CLUS (DIR_FIRST_HIGH c) (DIR_FIRST_LOW c)) n = bit c n"
    using \<open>n < LENGTH(32)\<close> unfolding DIR_FIRST_CLUS_def DIR_FIRST_HIGH_def DIR_FIRST_LOW_def m
    by (cases "n < 16") (auto simp: bit_simps)
qed

section \<open>A long name survives\<close>

lemma char_set_ucast: "LONG_NAME_CHAR_SET c = ucast c"
proof -
  have m: "(0x00FF :: u16) = mask 8" by (simp add: mask_eq_exp_minus_1)
  show ?thesis unfolding LONG_NAME_CHAR_SET_def m by (intro bit_word_eqI) (auto simp: bit_simps dest: bit_imp_le_length)
qed

lemma char_set:
  "LONG_NAME_CHAR_MASK (ucast c) = (c :: u8)" "LONG_NAME_CHAR_VALID (ucast c) \<longleftrightarrow> c \<noteq> 0"
proof -
  have m: "(0xFF :: u16) = mask 8" by (simp add: mask_eq_exp_minus_1)
  show "LONG_NAME_CHAR_MASK (ucast c) = c" unfolding LONG_NAME_CHAR_MASK_def m by (intro bit_word_eqI) (auto simp: bit_simps)
  have "unat (ucast c :: u16) = unat c" by (simp add: unat_ucast_up)
  moreover have "unat c < 256" using unat_bound [of c] by simp
  ultimately have "(ucast c :: u16) \<noteq> 0xFFFF" "(ucast c :: u16) = 0 \<longleftrightarrow> c = 0" by (auto simp: word_unat_eq_iff)
  then show "LONG_NAME_CHAR_VALID (ucast c) \<longleftrightarrow> c \<noteq> 0" by (simp add: LONG_NAME_CHAR_VALID_def)
qed

lemma long_slots_length [simp]: "length (long_slots n cs) = n"
  by (induction n cs rule: long_slots.induct) auto

lemma filter_slots: "0 \<notin> set xs \<Longrightarrow> xs \<noteq> [] \<Longrightarrow> filter_chars (long_slots n (xs @ [0])) = take n (xs @ [0])"
proof (induction n arbitrary: xs)
  case (Suc n)
  then obtain x ys where x: "xs = x # ys" by (cases xs) auto
  then have nz: "x \<noteq> 0" using Suc.prems by auto
  show ?case
  proof (cases "ys = []")
    case True
    then show ?thesis using x nz char_set [of 0] by (cases n) (auto simp: char_set char_set_ucast)
  next
    case False
    then show ?thesis using x nz Suc.IH [of ys] Suc.prems by (simp add: char_set char_set_ucast)
  qed
qed simp

text \<open>The entries of a name, first one first, as a recursion over the name.\<close>

function long_list :: "u8 \<Rightarrow> nat \<Rightarrow> nat \<Rightarrow> u8 list \<Rightarrow> dirent_l list" where
  "long_list checksum ord_max i xs =
     (if xs = [] then [] else long_entry checksum ord_max i (xs @ [0]) # long_list checksum ord_max (Suc i) (drop 13 xs))"
  by pat_completeness auto
termination by (relation "measure (\<lambda>(c, m, i, xs). length xs)") auto

declare long_list.simps [simp del]

lemma length_long_list: "length (long_list c m i xs) = CEIL_DIVIDE (length xs) 13"
proof (induction c m i xs rule: long_list.induct)
  case (1 c m i xs)
  show ?case
  proof (cases "xs = []")
    case False
    then have "CEIL_DIVIDE (length xs) 13 = Suc (CEIL_DIVIDE (length xs - 13) 13)"
      by (cases "length xs \<le> 13") (auto simp: CEIL_DIVIDE_def le_div_geq Suc_le_eq)
    then show ?thesis using 1 False by (subst long_list.simps) simp
  qed (simp add: long_list.simps CEIL_DIVIDE_def)
qed

lemma ceil_step: "xs \<noteq> [] \<Longrightarrow> CEIL_DIVIDE (length xs) 13 = Suc (CEIL_DIVIDE (length (drop 13 xs)) 13)"
  by (cases "length xs \<le> 13") (auto simp: CEIL_DIVIDE_def le_div_geq Suc_le_eq)

lemma long_loop_list:
  "length st + CEIL_DIVIDE (length xs) 13 \<le> CAPACITY \<Longrightarrow>
   long_loop c m (CEIL_DIVIDE (length xs) 13) i (xs @ [0]) st = Inr (rev (long_list c m i xs) @ st)"
proof (induction c m i xs arbitrary: st rule: long_list.induct)
  case (1 c m i xs)
  show ?case
  proof (cases "xs = []")
    case True
    then show ?thesis by (simp add: CEIL_DIVIDE_def long_list.simps)
  next
    case False
    let ?st = "long_entry c m i (xs @ [0]) # st" and ?k = "CEIL_DIVIDE (length (drop 13 xs)) 13"
    have k: "CEIL_DIVIDE (length xs) 13 = Suc ?k" by (rule ceil_step [OF False])
    have "length ?st + ?k \<le> CAPACITY" using "1.prems" k by simp
    then have IH: "long_loop c m ?k (Suc i) (drop 13 xs @ [0]) ?st = Inr (rev (long_list c m (Suc i) (drop 13 xs)) @ ?st)"
      by (rule "1.IH" [OF False])
    have "long_loop c m ?k (Suc i) (drop 13 (xs @ [0])) ?st = long_loop c m ?k (Suc i) (drop 13 xs @ [0]) ?st"
    proof (cases "13 \<le> length xs")
      case False
      then have "?k = 0" by (simp add: CEIL_DIVIDE_def)
      then show ?thesis by simp
    qed simp
    then have "long_loop c m (Suc ?k) i (xs @ [0]) st = Inr (rev (long_list c m (Suc i) (drop 13 xs)) @ ?st)"
      using False IH "1.prems" k by (simp add: stack_push_def stack_is_full_def FAT_LFN_LENGTH_def)
    then show ?thesis using False k by (subst long_list.simps) simp
  qed
qed

lemma filter_entry: "0 \<notin> set xs \<Longrightarrow> xs \<noteq> [] \<Longrightarrow> fat32_filter_longname (long_entry c m i (xs @ [0])) = take 13 (xs @ [0])"
proof -
  assume "0 \<notin> set xs" "xs \<noteq> []"
  moreover have "take 5 ys @ take 6 (drop 5 ys) @ drop 11 ys = ys" for ys :: "u16 list"
  proof -
    have "drop 11 ys = drop 6 (drop 5 ys)" by simp
    then show ?thesis by (simp only: append_take_drop_id)
  qed
  ultimately show ?thesis by (simp add: fat32_filter_longname_def long_entry_def Let_def filter_slots FAT_LFN_LENGTH_def)
qed

lemma wf_long_entry: "wf_l (long_entry c m i cs)"
  by (simp add: wf_l_def long_entry_def Let_def FAT_LFN_LENGTH_def)

lemma last_entry_flag: "LAST_LONG_ENTRY_BOOL (LAST_LONG_ENTRY_SET x)"
proof -
  have "bit ((x OR 0x40) AND (0x40 :: u8)) 6" by (simp add: bit_simps)
  then have "(x OR 0x40) AND (0x40 :: u8) \<noteq> 0" by (metis bit_0_eq bot_apply bot_bool_def)
  then show ?thesis by (simp add: LAST_LONG_ENTRY_BOOL_def LAST_LONG_ENTRY_SET_def LAST_LONG_ENTRY_def)
qed

lemma popstack_long:
  "0 \<notin> set xs \<Longrightarrow> xs \<noteq> [] \<Longrightarrow> length name + length xs < 254 \<Longrightarrow> i + CEIL_DIVIDE (length xs) 13 = Suc m \<Longrightarrow>
   \<exists>z. popstack_loop sn (of_nat i) (long_list (ChkSum sn) m i xs) name = Inr (True, name @ xs @ 0 # z, [])"
proof (induction "ChkSum sn" m i xs arbitrary: name rule: long_list.induct)
  case (1 m i xs)
  let ?e = "long_entry (ChkSum sn) m i (xs @ [0])" and ?r = "long_list (ChkSum sn) m (Suc i) (drop 13 xs)"
  have u: "long_list (ChkSum sn) m i xs = ?e # ?r" using "1.prems"(2) by (subst long_list.simps) simp
  have c: "LDIR_Chksum ?e = ChkSum sn" by (simp add: long_entry_def Let_def)
  note f = filter_entry [OF "1.prems"(1,2), of "ChkSum sn" m i]
  note k = ceil_step [OF "1.prems"(2)]
  show ?case
  proof (cases "drop 13 xs = []")
    case True
    then have "m = i" using "1.prems"(4) k by (simp add: CEIL_DIVIDE_def)
    then have last: "LAST_LONG_ENTRY_BOOL (LDIR_Ord ?e)" by (simp add: long_entry_def Let_def last_entry_flag)
    have "?r = []" using True by (subst long_list.simps) simp
    then show ?thesis using True c f last "1.prems"(3) unfolding u
      by (cases "length xs = 13") (auto simp: Let_def NAME_LONG_MAX_def)
  next
    case False
    then have ne: "?r \<noteq> []" by (subst long_list.simps) simp
    have "i \<noteq> m" using "1.prems"(4) k ceil_step [OF False] by simp
    then have o: "LDIR_Ord ?e = of_nat i" by (simp add: long_entry_def Let_def)
    have t: "take 13 (xs @ [0]) = take 13 xs" "length (take 13 xs) = 13" using False by auto
    obtain z where z: "popstack_loop sn (of_nat (Suc i)) ?r (name @ take 13 xs) = Inr (True, (name @ take 13 xs) @ drop 13 xs @ 0 # z, [])"
      using "1.hyps" [OF "1.prems"(2), of "name @ take 13 xs"] "1.prems" False k
      by (auto dest: in_set_dropD)
    have "popstack_loop sn (of_nat i) (?e # ?r) name = popstack_loop sn (of_nat (Suc i)) ?r (name @ take 13 xs)"
      using ne o c f t "1.prems"(3) False by (simp add: Let_def NAME_LONG_MAX_def add.commute)
    moreover have "(name @ take 13 xs) @ drop 13 xs @ 0 # z = name @ xs @ 0 # z"
      by (metis append_assoc append_take_drop_id)
    ultimately show ?thesis using z unfolding u by metis
  qed
qed

text \<open>
  C20. A long name survives the directory: for a name of 1 to 253 bytes, none of them zero, the long entries that
  \<open>fat32_fcb_init\<close> makes are decoded from their 32 bytes unchanged, and when they are pushed in the order in which
  they lie on disk, \<open>fat32_longname_popstack\<close> with the same short name accepts them and yields the name again.
\<close>

theorem longname_roundtrip:
  assumes "0 \<notin> set name" and "name \<noteq> []" and "length name < 254"
  shows "\<exists>st z. long_entries (ChkSum sn) name = Inr st \<and> length st = CEIL_DIVIDE (length name) FAT_LFN_LENGTH \<and>
    (\<forall>e\<in>set st. LONG_NAME_BOOL (LDIR_Attr e) \<and> dirent_l_of (bytes_of_l e) 0 = e) \<and>
    fat32_longname_popstack (rev st) sn = Inr (True, name @ 0 # z, [])"
proof -
  let ?m = "CEIL_DIVIDE (length name) 13"
  let ?es = "long_list (ChkSum sn) ?m 1 name"
  have "?m \<le> CAPACITY" using assms(3) by (simp add: CEIL_DIVIDE_def CAPACITY_def)
  then have l: "long_entries (ChkSum sn) name = Inr (rev ?es)"
    using long_loop_list [of "[]" name "ChkSum sn" ?m 1] by (simp add: long_entries_def Let_def stack_init_def FAT_LFN_LENGTH_def)
  obtain z where z: "popstack_loop sn 1 ?es [] = Inr (True, name @ 0 # z, [])"
    using popstack_long [of name "[]" 1 ?m sn] assms by auto
  have ne: "?es \<noteq> []" using assms(2) by (subst long_list.simps) simp
  have e: "LONG_NAME_BOOL (LDIR_Attr e) \<and> wf_l e" if "e \<in> set (long_list c m i xs)" for e c m i xs
    using that
  proof (induction c m i xs rule: long_list.induct)
    case (1 c m i xs)
    show ?case
    proof (cases "xs = []")
      case True
      then show ?thesis using "1.prems" by (simp add: long_list.simps)
    next
      case False
      have "e = long_entry c m i (xs @ [0]) \<or> e \<in> set (long_list c m (Suc i) (drop 13 xs))"
        using "1.prems" False by (subst (asm) long_list.simps) simp
      then show ?thesis using "1.IH" [OF False] wf_long_entry by (auto simp: long_entry_def Let_def LONG_NAME_BOOL_def)
    qed
  qed
  have "fat32_longname_popstack (rev (rev ?es)) sn = Inr (True, name @ 0 # z, [])"
    using z ne by (simp add: fat32_longname_popstack_def stack_is_empty_def)
  then show ?thesis using l e dirent_l_roundtrip [of _ "[]"] length_long_list [of "ChkSum sn" ?m 1 name]
    by (intro exI [of _ "rev ?es"] exI [of _ z]) (auto simp: FAT_LFN_LENGTH_def)
qed

theorem longname_roundtrip_witness:
  "\<exists>st z. long_entries (ChkSum (replicate 11 65)) (replicate 20 97) = Inr st \<and> length st = 2 \<and>
    fat32_longname_popstack (rev st) (replicate 11 65) = Inr (True, replicate 20 97 @ 0 # z, [])"
  using longname_roundtrip [of "replicate 20 97" "replicate 11 65"] by (auto simp: CEIL_DIVIDE_def FAT_LFN_LENGTH_def)

lemma strings_cmp_first: "0 < n \<Longrightarrow> strings_cmp s t n = 0 \<longleftrightarrow> (s @ [0]) ! 0 = (t @ [0]) ! 0"
proof -
  assume n: "0 < n"
  have "strncmp m a b k = 0 \<longleftrightarrow> m a = m b" if "0 < k" for m a b k
    using that
  proof (induction k)
    case (Suc k)
    have "int (unat (m a)) - int (unat (m b)) = 0 \<longleftrightarrow> unat (m a) = unat (m b)" by linarith
    then have "int (unat (m a)) - int (unat (m b)) = 0 \<longleftrightarrow> m a = m b" by (simp only: word_unat_eq_iff)
    then show ?case using Suc by (cases k) auto
  qed simp
  from this [OF n] show ?thesis by (simp add: strings_cmp_def two_strings_def nth_append)
qed

lemma namecmp_first: "fat32_namecmp s t = 0 \<longleftrightarrow> (s @ [0]) ! 0 = (t @ [0]) ! 0"
  unfolding fat32_namecmp_def by (rule strings_cmp_first) (simp add: PATH_LONG_MAX_def)

end
