(* ===== verification/Inode.thy ===== *)
theory Inode
  imports Dirent
begin

text \<open>
  The inode layer, \<^verbatim>\<open>src/fs/fat32_inode.c\<close>: mounting, the inode table, reading and writing through the cluster chain,
  loading and storing the short entry of a file, and the functions that walk a directory. A clean buffer is let go right
  after its last use: releasing it earlier than the code does changes nothing, because \<open>brelse\<close> of a clean buffer only
  takes and gives back the cache lock.
\<close>

section \<open>Constants and macros\<close>

definition NENTRY :: nat where "NENTRY = 50"
abbreviation ROOT :: nat where "ROOT \<equiv> 50"

definition T_DIR :: u16 where "T_DIR = 1"
definition T_FILE :: u16 where "T_FILE = 2"
definition T_DEVICE :: u16 where "T_DEVICE = 3"
definition IMODE_NONE :: u16 where "IMODE_NONE = 0"
definition FAT32 :: nat where "FAT32 = 1"

definition FCB_PER_BLOCK :: "superblock \<Rightarrow> u32" where "FCB_PER_BLOCK q = sector_size q div 32"

definition SECTOR_TO_FATINUM :: "superblock \<Rightarrow> u32 \<Rightarrow> u32 \<Rightarrow> u32" where
  "SECTOR_TO_FATINUM q s off = (s - FirstDataSector q) * FCB_PER_BLOCK q + off + 1"

definition INUM_TRANSFER :: "u32 \<Rightarrow> u32" where "INUM_TRANSFER ino = (if ino = 0 then 0 else ino - 1)"

definition FATINUM_TO_SECTOR :: "superblock \<Rightarrow> u32 \<Rightarrow> u32" where
  "FATINUM_TO_SECTOR q ino = INUM_TRANSFER ino div FCB_PER_BLOCK q + FirstDataSector q"

definition FATINUM_TO_OFFSET :: "superblock \<Rightarrow> u32 \<Rightarrow> u32" where
  "FATINUM_TO_OFFSET q ino = INUM_TRANSFER ino mod FCB_PER_BLOCK q"

definition DIRLENGTH :: "superblock \<Rightarrow> inode \<Rightarrow> u64" where
  "DIRLENGTH q ip = cluster_cnt ip * ucast (cluster_size q)"

definition cstring :: "u8 list \<Rightarrow> u8 list" where
  "cstring b = takeWhile (\<lambda>c. c \<noteq> 0) b"

section \<open>Mounting\<close>

definition inode_table_init :: "fsstate \<Rightarrow> fsstate" where
  "inode_table_init s = s\<lparr>inodes := replicate NENTRY inode0 @ drop NENTRY (inodes s)\<rparr>"

definition fat32_root_inode_init :: "fsstate \<Rightarrow> fsstate res" where
  "fat32_root_inode_init s =
     kbind (set_inode ROOT (\<lambda>ip. ip\<lparr>i_dev := s_dev (sb s), i_mode := IMODE_NONE, i_ino := 0, ref := 0, valid := True, i_nlink := 1,
        fs_type := FAT32, iparent := Some ROOT, cluster_start := 2, parent_off := 0, fname := [0x2F, 0] @ replicate (NAME_LONG_MAX - 2) 0,
        i_atime := 0, i_mtime := 0, i_ctime := 0\<rparr>) s) (\<lambda>s.
     kbind (fat32_fat_travel ROOT 0 s) (\<lambda>(n, s).
     kbind (set_inode ROOT (\<lambda>ip. ip\<lparr>cluster_cnt := ucast n\<rparr>) s) (\<lambda>s.
     kbind (set_inode ROOT (\<lambda>ip. ip\<lparr>i_size := ucast (DIRLENGTH (sb s) ip), FileSize := 0, i_type := T_DIR, Attr := DIR_SET (Attr ip)\<rparr>) s) (\<lambda>s.
     kbind (kget (inodes s) ROOT) (\<lambda>ip.
     kbind (kassert (cluster_start ip = 2)) (\<lambda>_. Inr s))))))"

definition fat32_fs_mount :: "u32 \<Rightarrow> fsstate \<Rightarrow> fsstate res" where
  "fat32_fs_mount dev s =
     (let s = s\<lparr>sb := (sb s)\<lparr>s_dev := ucast dev\<rparr>\<rparr>
      in kbind (fs_rd dev SECTOR_BPB s) (\<lambda>(b, s).
         let s = s\<lparr>sb := fat32_boot_sector_parser (sb s) (bpb_of b)\<rparr>
         in kbind (fs_rd dev SECTOR_FSINFO s) (\<lambda>(b, s).
            fat32_root_inode_init (s\<lparr>sb := fat32_fsinfo_parser (sb s) (fsinfo_of b)\<rparr>))))"

section \<open>Reading\<close>

text \<open>The inner loop of \<^verbatim>\<open>fat32_inode_read\<close>: sectors \<open>k\<close>, \<open>k + 1\<close>, \<open>\<dots>\<close> of one cluster; \<open>left\<close> sectors remain, \<open>acc\<close> are the bytes copied so far.\<close>

fun read_sectors :: "u32 \<Rightarrow> nat \<Rightarrow> u32 \<Rightarrow> nat \<Rightarrow> nat \<Rightarrow> u8 list \<Rightarrow> fsstate \<Rightarrow> (u8 list \<times> nat \<times> fsstate) res" where
  "read_sectors dev 0 k so n acc s = Inr (acc, so, s)"
| "read_sectors dev (Suc left) k so n acc s =
     (if length acc < n
      then kbind (fs_rd dev k s) (\<lambda>(b, s).
             let m = min (512 - so) (n - length acc)
             in read_sectors dev left (k + 1) 0 n (acc @ take m (drop so b)) s)
      else Inr (acc, so, s))"

partial_function (option) read_loop :: "u32 \<Rightarrow> u32 \<Rightarrow> nat \<Rightarrow> nat \<Rightarrow> nat \<Rightarrow> u8 list \<Rightarrow> fsstate \<Rightarrow> (u8 list \<times> fsstate) res option" where
  "read_loop dev it sn so n acc s =
     (if \<not> ISEOF it \<and> length acc < n
      then (case read_sectors dev (unat (sectors_per_block (sb s)) - sn) (FirstSectorofCluster (sb s) it + of_nat sn) so n acc s of
              Inl e \<Rightarrow> Some (Inl e)
            | Inr (acc, so, s) \<Rightarrow>
                if length acc = n then Some (Inr (acc, s))
                else (case fat32_next_cluster it s of
                        Inl e \<Rightarrow> Some (Inl e)
                      | Inr (it, s) \<Rightarrow> read_loop dev it 0 so n acc s))
      else Some (Inr (acc, s)))"

text \<open>\<^verbatim>\<open>fat32_inode_read\<close>: the bytes it copies to \<^verbatim>\<open>dst\<close>; the result of the C function is their number.\<close>

definition fat32_inode_read :: "nat \<Rightarrow> u32 \<Rightarrow> u32 \<Rightarrow> fsstate \<Rightarrow> (u8 list \<times> fsstate) res" where
  "fat32_inode_read p off n s =
     kbind (kget (inodes s) p) (\<lambda>ip.
       let fileSize = i_size ip
       in if off > fileSize \<or> off + n < off then Inr ([], s)
          else
            let n = (if off + n > fileSize then fileSize - off else n)
            in kbind (fat32_fat_travel p (LOGISTIC_C_NUM (sb s) off + 1) s) (\<lambda>(it, s).
               run_opt (read_loop (ucast (i_dev ip)) it (unat (LOGISTIC_S_NUM (sb s) off)) (unat (LOGISTIC_S_OFFSET (sb s) off)) (unat n) [] s)))"

section \<open>The short entry of an inode\<close>

definition update_dirent :: "inode \<Rightarrow> dirent_s \<Rightarrow> dirent_s" where
  "update_dirent ip d =
     d\<lparr>DIR_Attr := Attr ip OR ucast (i_mode ip), DIR_LstAccDate := LstAccDate ip, DIR_WrtDate := WrtDate ip, DIR_WrtTime := WrtTime ip,
       DIR_FstClusHI := DIR_FIRST_HIGH (cluster_start ip), DIR_FstClusLO := DIR_FIRST_LOW (cluster_start ip),
       DIR_FileSize := (if i_type ip = T_DIR \<or> i_type ip = T_DEVICE then 0 else i_size ip),
       DIR_Dev := (if i_type ip = T_DEVICE then i_dev ip else 0)\<rparr>"

definition put_dirent_s :: "nat \<Rightarrow> dirent_s \<Rightarrow> block \<Rightarrow> block" where
  "put_dirent_s i d b = take i b @ bytes_of_s d @ drop (i + 32) b"

definition fat32_inode_update :: "nat \<Rightarrow> fsstate \<Rightarrow> fsstate res" where
  "fat32_inode_update p s =
     kbind (kget (inodes s) p) (\<lambda>ip.
       let k = FATINUM_TO_SECTOR (sb s) (i_ino ip); i = 32 * unat (FATINUM_TO_OFFSET (sb s) (i_ino ip))
       in if i_ino ip = 0 then kbind (fs_rd (ucast (i_dev ip)) k s) (\<lambda>(b, s). Inr s)
          else fs_upd (ucast (i_dev ip)) k (\<lambda>b. put_dirent_s i (update_dirent ip (dirent_s_of b i)) b) s)"

section \<open>Writing\<close>

text \<open>The copy into the buffer is commented out in the source: each sector is read, marked dirty and written back as it was.\<close>

fun write_sectors :: "u32 \<Rightarrow> nat \<Rightarrow> u32 \<Rightarrow> nat \<Rightarrow> nat \<Rightarrow> nat \<Rightarrow> fsstate \<Rightarrow> (nat \<times> nat \<times> fsstate) res" where
  "write_sectors dev 0 k so n tot s = Inr (tot, so, s)"
| "write_sectors dev (Suc left) k so n tot s =
     (if tot < n
      then kbind (fs_upd dev k (\<lambda>b. b) s) (\<lambda>s. write_sectors dev left (k + 1) 0 n (tot + min (512 - so) (n - tot)) s)
      else Inr (tot, so, s))"

definition extend_chain :: "nat \<Rightarrow> u32 \<Rightarrow> fsstate \<Rightarrow> (u32 \<times> fsstate) res" where
  "extend_chain p it s =
     kbind (fat32_cluster_alloc ROOTDEV s) (\<lambda>(fat_new, s).
     kbind (fat32_fat_set it fat_new s) (\<lambda>s.
     kbind (set_inode p (\<lambda>ip. ip\<lparr>cluster_cnt := cluster_cnt ip + 1, cluster_end := fat_new\<rparr>) s) (\<lambda>s. Inr (fat_new, s))))"

partial_function (option) write_loop :: "nat \<Rightarrow> u32 \<Rightarrow> u32 \<Rightarrow> nat \<Rightarrow> nat \<Rightarrow> nat \<Rightarrow> nat \<Rightarrow> fsstate \<Rightarrow> (nat \<times> fsstate) res option" where
  "write_loop p dev it sn so n tot s =
     (if \<not> ISEOF it \<and> tot < n
      then (case write_sectors dev (unat (sectors_per_block (sb s)) - sn) (FirstSectorofCluster (sb s) it + of_nat sn) so n tot s of
              Inl e \<Rightarrow> Some (Inl e)
            | Inr (tot, so, s) \<Rightarrow>
                if tot = n then Some (Inr (tot, s))
                else (case fat32_next_cluster it s of
                        Inl e \<Rightarrow> Some (Inl e)
                      | Inr (nx, s) \<Rightarrow>
                          if ISEOF nx
                          then (case extend_chain p it s of
                                  Inl e \<Rightarrow> Some (Inl e)
                                | Inr (nx, s) \<Rightarrow> write_loop p dev nx 0 so n tot s)
                          else write_loop p dev nx 0 so n tot s))
      else Some (Inr (tot, s)))"

definition CEIL_DIVIDE32 :: "u32 \<Rightarrow> u32 \<Rightarrow> u32" where "CEIL_DIVIDE32 x y = (x + y - 1) div y"

definition fat32_inode_write :: "nat \<Rightarrow> u8 list \<Rightarrow> u32 \<Rightarrow> u32 \<Rightarrow> fsstate \<Rightarrow> (u32 \<times> fsstate) res" where
  "fat32_inode_write p src off n s =
     kbind (kget (inodes s) p) (\<lambda>ip.
       let fileSize = i_size ip; dev = ucast (i_dev ip)
       in if off > fileSize \<or> off + n < off then Inr (- 1, s)
          else if off + n > DataSec (sb s) * sector_size (sb s) then Inr (- 1, s)
          else
            let c_num = LOGISTIC_C_NUM (sb s) off + 1
            in kbind (fat32_fat_travel p c_num s) (\<lambda>(it, s).
               kbind (if ucast c_num > cluster_cnt ip then extend_chain p it s else Inr (it, s)) (\<lambda>(it, s).
               kbind (run_opt (write_loop p dev it (unat (LOGISTIC_S_NUM (sb s) off)) (unat (LOGISTIC_S_OFFSET (sb s) off)) (unat n) 0 s)) (\<lambda>(tot, s).
               kbind (if off + n > fileSize
                      then set_inode p (\<lambda>ip. ip\<lparr>i_size := (if i_type ip = T_FILE then off + of_nat tot
                             else CEIL_DIVIDE32 (off + of_nat tot) (cluster_size (sb s)) * cluster_size (sb s))\<rparr>) s
                      else Inr s) (\<lambda>s.
               kbind (fat32_inode_update p s) (\<lambda>s. Inr (of_nat tot, s)))))))"

section \<open>The inode table\<close>

definition with_itable :: "fsstate \<Rightarrow> (fsstate \<Rightarrow> ('a \<times> fsstate) res) \<Rightarrow> ('a \<times> fsstate) res" where
  "with_itable s f =
     kbind (spin_lock (itable_lock s)) (\<lambda>l.
     kbind (f (s\<lparr>itable_lock := l\<rparr>)) (\<lambda>(x, s). Inr (x, s\<lparr>itable_lock := spin_unlock (itable_lock s)\<rparr>)))"

definition fat32_inode_dup :: "nat \<Rightarrow> fsstate \<Rightarrow> (nat \<times> fsstate) res" where
  "fat32_inode_dup p s = with_itable s (\<lambda>s. kbind (set_inode p (\<lambda>ip. ip\<lparr>ref := ref ip + 1\<rparr>) s) (\<lambda>s. Inr (p, s)))"

text \<open>\<^verbatim>\<open>strncpy(fname, name, strlen(name))\<close> does not store the terminator.\<close>

definition fat32_inode_get :: "u32 \<Rightarrow> u32 \<Rightarrow> u8 list \<Rightarrow> u32 \<Rightarrow> fsstate \<Rightarrow> (nat \<times> fsstate) res" where
  "fat32_inode_get dev inum name parentoff s =
     with_itable s (\<lambda>s.
       case first_index (\<lambda>i. ref (inodes s ! i) > 0 \<and> ucast (i_dev (inodes s ! i)) = dev \<and> i_ino (inodes s ! i) = inum) 0 NENTRY of
         Some i \<Rightarrow> kbind (set_inode i (\<lambda>ip. ip\<lparr>ref := ref ip + 1\<rparr>) s) (\<lambda>s. Inr (i, s))
       | None \<Rightarrow>
         (case first_index (\<lambda>i. ref (inodes s ! i) = 0) 0 NENTRY of
            None \<Rightarrow> Inl (Panic ''fat32_inode_get: no space'')
          | Some i \<Rightarrow>
              if length name > NAME_LONG_MAX then Inl OutOfBounds
              else kbind (set_inode i (\<lambda>ip. ip\<lparr>i_dev := ucast dev, i_ino := inum, ref := 1, valid := False, parent_off := parentoff,
                     fs_type := FAT32, fname := name @ drop (length name) (fname ip)\<rparr>) s) (\<lambda>s. Inr (i, s))))"

text \<open>
  The fields that \<^verbatim>\<open>fat32_inode_lock\<close> and \<^verbatim>\<open>fat32_inode_load_from_disk\<close> take from the short entry: first those up to the chain,
  then, with the number of clusters known, the rest.
\<close>

definition load_rest :: "superblock \<Rightarrow> dirent_s \<Rightarrow> inode \<Rightarrow> inode" where
  "load_rest q d ip =
     (let ip = ip\<lparr>CrtTimeTenth := DIR_CrtTimeTenth d, CrtTime := DIR_CrtTime d, CrtDate := DIR_CrtDate d, LstAccDate := DIR_LstAccDate d,
                  WrtTime := DIR_WrtTime d, FileSize := DIR_FileSize d, i_rdev := ucast (DIR_Dev d)\<rparr>;
          ty = (if i_rdev ip \<noteq> 0 then T_DEVICE else if DIR_BOOL (Attr ip) then T_DIR else T_FILE)
      in ip\<lparr>i_type := ty, i_size := (if ty = T_FILE then FileSize ip else if ty = T_DIR then ucast (DIRLENGTH q ip) else 0),
           i_mode := ucast (READONLY_GET (DIR_Attr d))\<rparr>)"

definition read_dirent :: "nat \<Rightarrow> fsstate \<Rightarrow> (dirent_s \<times> fsstate) res" where
  "read_dirent p s =
     kbind (kget (inodes s) p) (\<lambda>ip.
     kbind (fs_rd (ucast (i_dev ip)) (FATINUM_TO_SECTOR (sb s) (i_ino ip)) s) (\<lambda>(b, s).
       let d = dirent_s_of b (32 * unat (FATINUM_TO_OFFSET (sb s) (i_ino ip)))
       in kbind (set_inode p (\<lambda>ip. ip\<lparr>Attr := DIR_Attr d, cluster_start := DIR_FIRST_CLUS (DIR_FstClusHI d) (DIR_FstClusLO d)\<rparr>) s) (\<lambda>s. Inr (d, s))))"

definition load_inode :: "nat \<Rightarrow> dirent_s \<Rightarrow> fsstate \<Rightarrow> fsstate res" where
  "load_inode p d s =
     kbind (kget (inodes s) p) (\<lambda>ip.
     kbind (if cluster_start ip \<noteq> 0
            then kbind (fat32_fat_travel p 0 s) (\<lambda>(n, s). set_inode p (\<lambda>ip. ip\<lparr>cluster_cnt := ucast n\<rparr>) s)
            else Inr s) (\<lambda>s.
     kbind (set_inode p (load_rest (sb s) d) s) (\<lambda>s.
     kbind (set_inode p (\<lambda>ip. ip\<lparr>valid := True\<rparr>) s) (\<lambda>s.
     kbind (kget (inodes s) p) (\<lambda>ip. if Attr ip = 0 then Inl (Panic ''fat32_inode_lock: no Attr'') else Inr s)))))"

definition fat32_inode_lock :: "nat option \<Rightarrow> fsstate \<Rightarrow> fsstate res" where
  "fat32_inode_lock q s =
     (case q of
        None \<Rightarrow> Inl (Panic ''inode lock'')
      | Some p \<Rightarrow>
          kbind (kget (inodes s) p) (\<lambda>ip.
            if ref ip < 1 then Inl (Panic ''inode lock'')
            else if valid ip then Inr s
            else kbind (read_dirent p s) (\<lambda>(d, s).
                 kbind (kget (inodes s) p) (\<lambda>ip.
                   if cluster_start ip = root_cluster_s (sb s) \<and> fat32_namecmp (cstring (fname ip)) [0x2F] \<noteq> 0
                   then Inl (Panic ''this disk image has error'')
                   else kbind (load_inode p d s) (set_inode p (\<lambda>ip. ip\<lparr>fs_type := FAT32\<rparr>))))))"

text \<open>\<^verbatim>\<open>fat32_inode_load_from_disk\<close> tests the name the other way round; it returns \<open>-1\<close> then, else 1.\<close>

definition fat32_inode_load_from_disk :: "nat \<Rightarrow> fsstate \<Rightarrow> (int \<times> fsstate) res" where
  "fat32_inode_load_from_disk p s =
     kbind (kget (inodes s) p) (\<lambda>ip.
       if valid ip then Inr (1, s)
       else kbind (read_dirent p s) (\<lambda>(d, s).
            kbind (kget (inodes s) p) (\<lambda>ip.
              if cluster_start ip = root_cluster_s (sb s) \<and> fat32_namecmp (cstring (fname ip)) [0x2F] = 0 then Inr (- 1, s)
              else kbind (load_inode p d s) (\<lambda>s. Inr (1, s)))))"

definition fat32_inode_unlock :: "nat option \<Rightarrow> fsstate \<Rightarrow> fsstate res" where
  "fat32_inode_unlock q s =
     (case q of
        None \<Rightarrow> Inl (Panic ''fat32 unlock'')
      | Some p \<Rightarrow> kbind (kget (inodes s) p) (\<lambda>ip. if ref ip < 1 then Inl (Panic ''fat32 unlock'') else Inr s))"

section \<open>Removing a file\<close>

text \<open>\<^verbatim>\<open>fat32_inode_delete\<close>: the marks it prepares in \<^verbatim>\<open>fcb_char\<close> are the source of the write.\<close>

definition fat32_inode_delete :: "nat \<Rightarrow> nat \<Rightarrow> fsstate \<Rightarrow> fsstate res" where
  "fat32_inode_delete dp p s =
     kbind (kget (inodes s) p) (\<lambda>ip.
       let str_len = length (cstring (fname ip)); off = sint (parent_off ip); long_dir_len = CEIL_DIVIDE str_len FAT_LFN_LENGTH
       in kbind (kassert (off > 0)) (\<lambda>_.
          kbind (kassert (off - int long_dir_len > 0)) (\<lambda>_.
          kbind (fat32_inode_write dp (concat (replicate (long_dir_len + 1) (0xE5 # replicate 31 0)))
                   (of_int (off - int long_dir_len) * 32) (of_nat (long_dir_len + 1) * 32) s) (\<lambda>(tot, s).
          kbind (kassert (tot = of_nat (long_dir_len + 1) * 32)) (\<lambda>_. Inr s)))))"

partial_function (option) trunc_loop :: "u32 \<Rightarrow> fsstate \<Rightarrow> fsstate res option" where
  "trunc_loop it s =
     (if ISEOF it then Some (Inr s)
      else (case fat32_next_cluster it s of
              Inl e \<Rightarrow> Some (Inl e)
            | Inr (nx, s) \<Rightarrow> (case fat32_fat_set it EOC s of Inl e \<Rightarrow> Some (Inl e) | Inr s \<Rightarrow> trunc_loop nx s)))"

definition fat32_inode_trunc :: "nat \<Rightarrow> fsstate \<Rightarrow> fsstate res" where
  "fat32_inode_trunc p s =
     kbind (kget (inodes s) p) (\<lambda>ip.
     kbind (run_opt (trunc_loop (cluster_start ip) s)) (\<lambda>s.
     kbind (case iparent ip of None \<Rightarrow> Inl NullDeref | Some dp \<Rightarrow> fat32_inode_delete dp p s) (\<lambda>s.
     kbind (set_inode p (\<lambda>ip. ip\<lparr>cluster_start := 0, cluster_end := 0, parent_off := 0, cluster_cnt := 0, FileSize := 0, i_rdev := 0,
        i_mode := IMODE_NONE, i_size := 0\<rparr>) s) (fat32_inode_update p))))"

definition fat32_inode_put :: "nat \<Rightarrow> fsstate \<Rightarrow> fsstate res" where
  "fat32_inode_put p s =
     kbind (spin_lock (itable_lock s)) (\<lambda>l.
     let s = s\<lparr>itable_lock := l\<rparr> in
     kbind (kget (inodes s) p) (\<lambda>ip.
     kbind (if ref ip = 1 \<and> valid ip \<and> i_nlink ip = 0
            then kbind (fat32_inode_trunc p (s\<lparr>itable_lock := spin_unlock l\<rparr>)) (\<lambda>s.
                 kbind (set_inode p (\<lambda>ip. ip\<lparr>Attr := 0\<rparr>) s) (\<lambda>s.
                 kbind (fat32_inode_update p s) (\<lambda>s.
                 kbind (set_inode p (\<lambda>ip. ip\<lparr>valid := False\<rparr>) s) (\<lambda>s.
                 kbind (spin_lock (itable_lock s)) (\<lambda>l. Inr (s\<lparr>itable_lock := l\<rparr>))))))
            else Inr s) (\<lambda>s.
     kbind (set_inode p (\<lambda>ip. ip\<lparr>ref := ref ip - 1\<rparr>) s) (\<lambda>s. Inr (s\<lparr>itable_lock := spin_unlock (itable_lock s)\<rparr>)))))"

definition fat32_inode_unlock_put :: "nat \<Rightarrow> fsstate \<Rightarrow> fsstate res" where
  "fat32_inode_unlock_put p s = kbind (fat32_inode_unlock (Some p) s) (fat32_inode_put p)"

record kstat =
  st_dev :: u64
  st_ino :: u64
  st_mode :: u32
  st_nlink :: u32
  st_uid :: u32
  st_gid :: u32
  st_rdev :: u64
  st_size :: u64
  st_blksize :: u32
  st_blocks :: u64
  st_atime_sec :: int
  st_atime_nsec :: int
  st_mtime_sec :: int
  st_mtime_nsec :: int
  st_ctime_sec :: int
  st_ctime_nsec :: int

definition fat32_inode_stati :: "inode \<Rightarrow> kstat" where
  "fat32_inode_stati ip = \<lparr>st_dev = ucast (i_dev ip), st_ino = ucast (i_ino ip), st_mode = ucast (i_mode ip), st_nlink = ucast (i_nlink ip),
     st_uid = i_uid ip, st_gid = i_gid ip, st_rdev = i_rdev ip, st_size = ucast (i_size ip), st_blksize = ucast (i_blksize ip),
     st_blocks = i_blocks ip, st_atime_sec = i_atime ip, st_atime_nsec = i_atime ip * 1000000000, st_mtime_sec = i_mtime ip,
     st_mtime_nsec = i_mtime ip * 1000000000, st_ctime_sec = i_ctime ip, st_ctime_nsec = i_ctime ip * 1000000000\<rparr>"

definition fat32_isdir :: "inode \<Rightarrow> bool" where "fat32_isdir ip = DIR_BOOL (Attr ip)"

section \<open>Walking a directory\<close>

text \<open>
  The loop the directory functions share: every sector of every cluster of the chain is given to \<open>f\<close>, with its number and
  what was accumulated so far; \<open>Inl\<close> is a return from inside the loop.
\<close>

fun walk_sectors :: "(u32 \<Rightarrow> block \<Rightarrow> 'a \<Rightarrow> ('r + 'a) res) \<Rightarrow> u32 \<Rightarrow> nat \<Rightarrow> u32 \<Rightarrow> 'a \<Rightarrow> fsstate \<Rightarrow> (('r + 'a) \<times> fsstate) res" where
  "walk_sectors f dev 0 k a s = Inr (Inr a, s)"
| "walk_sectors f dev (Suc n) k a s =
     kbind (fs_rd dev k s) (\<lambda>(b, s).
     kbind (f k b a) (\<lambda>r. case r of Inl x \<Rightarrow> Inr (Inl x, s) | Inr a \<Rightarrow> walk_sectors f dev n (k + 1) a s))"

partial_function (option) walk_chain ::
  "(u32 \<Rightarrow> block \<Rightarrow> 'a \<Rightarrow> ('r + 'a) res) \<Rightarrow> u32 \<Rightarrow> u32 \<Rightarrow> 'a \<Rightarrow> fsstate \<Rightarrow> (('r + 'a) \<times> fsstate) res option" where
  "walk_chain f dev it a s =
     (if ISEOF it then Some (Inr (Inr a, s))
      else (case walk_sectors f dev (unat (sectors_per_block (sb s))) (FirstSectorofCluster (sb s) it) a s of
              Inl e \<Rightarrow> Some (Inl e)
            | Inr (Inl x, s) \<Rightarrow> Some (Inr (Inl x, s))
            | Inr (Inr a, s) \<Rightarrow>
                (case fat32_next_cluster it s of Inl e \<Rightarrow> Some (Inl e) | Inr (it, s) \<Rightarrow> walk_chain f dev it a s)))"

definition walk_dir :: "(u32 \<Rightarrow> block \<Rightarrow> 'a \<Rightarrow> ('r + 'a) res) \<Rightarrow> inode \<Rightarrow> 'a \<Rightarrow> fsstate \<Rightarrow> (('r + 'a) \<times> fsstate) res" where
  "walk_dir f ip a s = run_opt (walk_chain f (ucast (i_dev ip)) (cluster_start ip) a s)"

definition name0 :: "block \<Rightarrow> nat \<Rightarrow> u8" where "name0 b i = b ! (32 * i)"
definition attr_of :: "block \<Rightarrow> nat \<Rightarrow> u8" where "attr_of b i = b ! (32 * i + 11)"

text \<open>
  One sector in \<^verbatim>\<open>fat32_inode_dirlookup\<close>. The inner loop pushes a run of long entries and may reach the end of the sector,
  in which case \<open>idx\<close> and \<open>off\<close> are still advanced once more.
\<close>

function push_longs :: "nat \<Rightarrow> block \<Rightarrow> nat \<Rightarrow> u32 \<Rightarrow> stack_t \<Rightarrow> (nat \<times> u32 \<times> stack_t) res" where
  "push_longs n b idx off st =
     (if idx < n \<and> LONG_NAME_BOOL (attr_of b idx)
      then kbind (stack_push st (dirent_l_of b (32 * idx))) (push_longs n b (Suc idx) (off + 1))
      else Inr (idx, off, st))"
  by pat_completeness auto
termination by (relation "measure (\<lambda>(n, b, idx, off, st). n - idx)") auto

declare push_longs.simps [simp del]

lemma push_longs_mono: "push_longs n b idx off st = Inr (idx', off', st') \<Longrightarrow> idx \<le> idx'"
proof (induction n b idx off st arbitrary: off' st' rule: push_longs.induct)
  case (1 n b idx off st)
  show ?case
  proof (cases "idx < n \<and> LONG_NAME_BOOL (attr_of b idx)")
    case True
    then obtain st1 where "stack_push st (dirent_l_of b (32 * idx)) = Inr st1" "push_longs n b (Suc idx) (off + 1) st1 = Inr (idx', off', st')"
      using "1.prems" by (subst (asm) push_longs.simps) (auto elim: kbind_InrE)
    then show ?thesis using "1.IH" [OF True] by fastforce
  next
    case False
    then show ?thesis using "1.prems" by (subst (asm) push_longs.simps) (auto split: if_splits)
  qed
qed

datatype lookup = NotThere | There u32 u32

function lookup_sector :: "u8 list \<Rightarrow> nat \<Rightarrow> block \<Rightarrow> nat \<Rightarrow> u32 \<Rightarrow> stack_t \<Rightarrow> (lookup + u32 \<times> stack_t) res" where
  "lookup_sector name n b idx off st =
     (if idx < n
      then if NAME0_FREE_ALL (name0 b idx) then Inr (Inl NotThere)
           else kbind (push_longs n b idx off st) (\<lambda>(idx, off, st).
             if idx < n \<and> \<not> LONG_NAME_BOOL (attr_of b idx) \<and> \<not> NAME0_FREE_BOOL (name0 b idx)
             then let d = dirent_s_of b (32 * idx)
                  in kbind (fat32_longname_popstack st (DIR_Name d)) (\<lambda>(ok, nm, st).
                     let nm = (if ok then nm else fat32_short_name_parser d)
                     in if fat32_namecmp name (cstring nm) = 0 then Inr (Inl (There (of_nat idx) off))
                        else lookup_sector name n b (Suc idx) (off + 1) st)
             else lookup_sector name n b (Suc idx) (off + 1) st)
      else Inr (Inr (off, st)))"
  by pat_completeness auto
termination
  by (relation "measure (\<lambda>(name, n, b, idx, off, st). n - idx)") (auto dest!: push_longs_mono)

declare lookup_sector.simps [simp del]

definition fat32_inode_dirlookup :: "nat \<Rightarrow> u8 list \<Rightarrow> fsstate \<Rightarrow> ((nat \<times> u32) option \<times> fsstate) res" where
  "fat32_inode_dirlookup p name s =
     kbind (kget (inodes s) p) (\<lambda>ip.
       if \<not> DIR_BOOL (Attr ip) then Inl (Panic ''dirlookup not DIR'')
       else kbind (walk_dir (\<lambda>k b (off, st). kbind (lookup_sector name (unat (FCB_PER_BLOCK (sb s))) b 0 off st) (\<lambda>r.
                     case r of Inl NotThere \<Rightarrow> Inr (Inl None) | Inl (There idx off) \<Rightarrow> Inr (Inl (Some (k, idx, off))) | Inr a \<Rightarrow> Inr (Inr a)))
                   ip (0, stack_init) s) (\<lambda>(r, s).
            case r of
              Inl (Some (k, idx, off)) \<Rightarrow>
                kbind (fat32_inode_get (ucast (i_dev ip)) (SECTOR_TO_FATINUM (sb s) k idx) name off s) (\<lambda>(c, s).
                kbind (set_inode c (\<lambda>ip. ip\<lparr>iparent := Some p, i_nlink := 1\<rparr>) s) (\<lambda>s. Inr (Some (c, off), s)))
            | _ \<Rightarrow> Inr (None, s)))"

text \<open>\<^verbatim>\<open>fat32_inode_dirlink\<close>: when the name is free, it uses the null pointer the lookup returned.\<close>

definition fat32_inode_dirlink :: "nat \<Rightarrow> u8 list \<Rightarrow> fsstate \<Rightarrow> (int \<times> fsstate) res" where
  "fat32_inode_dirlink dp name s =
     kbind (fat32_inode_dirlookup dp name s) (\<lambda>(r, s).
       case r of Some (p, off) \<Rightarrow> kbind (fat32_inode_put p s) (\<lambda>s. Inr (- 1, s)) | None \<Rightarrow> Inl NullDeref)"

text \<open>\<^verbatim>\<open>fat32_find_same_name_cnt\<close>: only the first letter is compared, as \<^verbatim>\<open>strncmp\<close> does.\<close>

fun same_sector :: "u8 list \<Rightarrow> block \<Rightarrow> nat list \<Rightarrow> nat \<Rightarrow> nat + nat" where
  "same_sector name b [] ret = Inr ret"
| "same_sector name b (i # is) ret =
     (let d = dirent_s_of b (32 * i);
          ret = (if \<not> LONG_NAME_BOOL (DIR_Attr d) \<and> \<not> NAME0_FREE_BOOL (name0 b i) \<and> strings_cmp (DIR_Name d) name 6 = 0 \<and> DIR_Name d ! 6 = 0x7E
                 then Suc ret else ret)
      in if NAME0_FREE_ALL (name0 b i) then Inl ret else same_sector name b is ret)"

definition fat32_find_same_name_cnt :: "nat \<Rightarrow> u8 list \<Rightarrow> fsstate \<Rightarrow> (u32 \<times> fsstate) res" where
  "fat32_find_same_name_cnt p name s =
     kbind (kget (inodes s) p) (\<lambda>ip.
       if \<not> DIR_BOOL (Attr ip) then Inl (Panic ''find same name cnt not DIR'')
       else kbind (walk_dir (\<lambda>k b ret. Inr (same_sector (map toupper name) b [0..<unat (FCB_PER_BLOCK (sb s))] ret)) ip 0 s) (\<lambda>(r, s).
              Inr (of_nat (case r of Inl ret \<Rightarrow> ret | Inr ret \<Rightarrow> ret), s)))"

text \<open>\<^verbatim>\<open>fat32_dir_fcb_insert_offset\<close>: the start of the first run of \<open>req\<close> free entries; the state is \<open>(idx, fcb_free_cnt, offset_ret_final)\<close>.\<close>

fun insert_sector :: "u8 \<Rightarrow> u32 \<Rightarrow> block \<Rightarrow> nat list \<Rightarrow> u32 \<times> u8 \<times> u32 \<Rightarrow> u32 + u32 \<times> u8 \<times> u32" where
  "insert_sector req base b [] a = Inr a"
| "insert_sector req base b (i # is) (idx, free, final) =
     (if \<not> NAME0_FREE_BOOL (name0 b i) then insert_sector req base b is (idx + 1, 0, base)
      else
        let final = (if free = 0 then idx else final); free = free + 1
        in if free = req then Inl final else insert_sector req base b is (idx + 1, free, final))"

definition fat32_dir_fcb_insert_offset :: "nat \<Rightarrow> u8 \<Rightarrow> fsstate \<Rightarrow> (u32 \<times> fsstate) res" where
  "fat32_dir_fcb_insert_offset p req s =
     kbind (kget (inodes s) p) (\<lambda>ip.
       let base = ucast (DIRLENGTH (sb s) ip div 32)
       in kbind (walk_dir (\<lambda>k b a. Inr (insert_sector req base b [0..<unat (FCB_PER_BLOCK (sb s))] a)) ip (0, 0, 0) s) (\<lambda>(r, s).
            Inr (case r of Inl final \<Rightarrow> final | Inr (idx, free, final) \<Rightarrow> final, s)))"

definition empty_sector :: "block \<Rightarrow> nat list \<Rightarrow> bool" where
  "empty_sector b is = list_all (\<lambda>i. NAME0_FREE_BOOL (name0 b i) \<or>
     fat32_namecmp (DIR_Name (dirent_s_of b (32 * i))) [0x2E] = 0 \<or> fat32_namecmp (DIR_Name (dirent_s_of b (32 * i))) [0x2E, 0x2E] = 0) is"

definition fat32_isdirempty :: "nat \<Rightarrow> fsstate \<Rightarrow> (bool \<times> fsstate) res" where
  "fat32_isdirempty p s =
     kbind (kget (inodes s) p) (\<lambda>ip.
     kbind (walk_dir (\<lambda>k b a. Inr (if empty_sector b [0..<unat (FCB_PER_BLOCK (sb s))] then Inr a else Inl ())) ip () s) (\<lambda>(r, s).
       Inr (case r of Inl _ \<Rightarrow> False | Inr _ \<Rightarrow> True, s)))"

section \<open>Making a file\<close>

text \<open>
  \<^verbatim>\<open>fat32_fcb_init\<close> works on arrays of its stack frame that it does not initialise: \<open>m\<close> is the memory of the frame, with the name at
  \<open>LN\<close>, \<^verbatim>\<open>file_name\<close> at \<open>FN\<close>, \<^verbatim>\<open>file_ext\<close> at \<open>FE\<close> and \<^verbatim>\<open>DIR_Name\<close>, zeroed, at \<open>DN\<close>. What the other bytes hold is arbitrary.
\<close>

abbreviation LN :: nat where "LN \<equiv> 1"
abbreviation FN :: nat where "FN \<equiv> 1000"
abbreviation FE :: nat where "FE \<equiv> 2000"
abbreviation DN :: nat where "DN \<equiv> 3000"

definition fcb_frame :: "bmem \<Rightarrow> u8 list \<Rightarrow> bmem" where
  "fcb_frame m name i = (if LN \<le> i \<and> i \<le> LN + length name then (name @ [0]) ! (i - LN) else if DN \<le> i \<and> i < DN + 11 then 0 else m i)"

definition hang :: "'a option \<Rightarrow> 'a res" where
  "hang r = (case r of None \<Rightarrow> Inl Hang | Some x \<Rightarrow> Inr x)"

definition string_at :: "bmem \<Rightarrow> nat \<Rightarrow> u8 list res" where
  "string_at m a = kbind (hang (strlen m a)) (\<lambda>n. Inr (map m [a..<a + n]))"

text \<open>The extension of a file's short name; \<^verbatim>\<open>file_ext\<close> has room for four bytes.\<close>

definition short_ext :: "bmem \<Rightarrow> u8 list \<Rightarrow> bmem res" where
  "short_ext m name =
     kbind (hang (str_split m LN 0x2E FN FE)) (\<lambda>(r, m).
       if r = - 1 then Inr ((strncpy m FN LN 8)(DN + 8 := 0x20, DN + 9 := 0x20, DN + 10 := 0x20))
       else if length name > length (takeWhile (\<lambda>c. c \<noteq> 0x2E) name) + 5 then Inl OutOfBounds
       else kbind (hang (str_toupper m FE)) (\<lambda>m.
            let m = strncpy m (DN + 8) FE 3
            in kbind (hang (strlen m FE)) (\<lambda>n.
               Inr (if n = 2 then m(DN + 10 := 0x20) else if n = 1 then m(DN + 10 := 0x20, DN + 9 := 0x20) else m))))"

definition short_number :: "nat \<Rightarrow> u8 list \<Rightarrow> bmem \<Rightarrow> fsstate \<Rightarrow> (bmem \<times> fsstate) res" where
  "short_number p name m s =
     (if length name > 8
      then kbind (string_at m FN) (\<lambda>file_name.
           kbind (fat32_find_same_name_cnt p file_name s) (\<lambda>(long_idx, s). Inr (m(DN + 6 := 0x7E, DN + 7 := ucast (long_idx + 0x31)), s)))
      else Inr (m, s))"

definition short_name :: "nat \<Rightarrow> u8 list \<Rightarrow> u8 \<Rightarrow> bmem \<Rightarrow> fsstate \<Rightarrow> (u8 list \<times> fsstate) res" where
  "short_name p name attr m0 s =
     (let m = fcb_frame m0 name
      in kbind (if \<not> DIR_BOOL attr then short_ext m name else Inr (strncpy m FN LN 11)) (\<lambda>m.
         kbind (hang (str_toupper m FN)) (\<lambda>m.
         kbind (short_number p name (strncpy m DN FN 8) s) (\<lambda>(m, s).
           let m = (if DIR_BOOL attr \<and> length name > 8 then m(DN + 8 := 0x20, DN + 9 := 0x20, DN + 10 := 0x20) else m)
           in Inr (map m [DN..<DN + 11], s)))))"

definition dirent_s0 :: dirent_s where
  "dirent_s0 = \<lparr>DIR_Name = replicate 11 0, DIR_Attr = 0, DIR_Dev = 0, DIR_CrtTimeTenth = 0, DIR_CrtTime = 0, DIR_CrtDate = 0,
     DIR_LstAccDate = 0, DIR_FstClusHI = 0, DIR_WrtTime = 0, DIR_WrtDate = 0, DIR_FstClusLO = 0, DIR_FileSize = 0\<rparr>"

text \<open>A name that starts with a dot takes the first branch, because of how names are compared; it is copied over the entry from its first byte.\<close>

definition fat32_fcb_init :: "nat \<Rightarrow> u8 list \<Rightarrow> u8 \<Rightarrow> bmem \<Rightarrow> fsstate \<Rightarrow> (u8 list \<times> nat \<times> fsstate) res" where
  "fat32_fcb_init p name attr m0 s =
     kbind (kget (inodes s) p) (\<lambda>ip.
       let d = dirent_s0\<lparr>DIR_Attr := attr\<rparr>
       in if fat32_namecmp name [0x2E] = 0 \<or> fat32_namecmp name [0x2E, 0x2E] = 0
          then if length name > FCB_SIZE then Inl OutOfBounds
               else let d = dirent_s_of (name @ drop (length name) (bytes_of_s d)) 0
                    in Inr (bytes_of_s (d\<lparr>DIR_FileSize := 0, DIR_FstClusHI := DIR_FIRST_HIGH (cluster_start ip),
                              DIR_FstClusLO := DIR_FIRST_LOW (cluster_start ip)\<rparr>), 1, s)
          else kbind (short_name p name attr m0 s) (\<lambda>(sname, s).
               kbind (fat32_cluster_alloc (ucast (i_dev ip)) s) (\<lambda>(first_c, s).
               kbind (long_entries (ChkSum sname) name) (\<lambda>st.
                 let bytes = fcb_bytes st (d\<lparr>DIR_Name := sname, DIR_FstClusHI := DIR_FIRST_HIGH first_c, DIR_FstClusLO := DIR_FIRST_LOW first_c\<rparr>)
                 in if length bytes > FCB_MAX_LENGTH then Inl OutOfBounds else Inr (bytes, length st + 1, s)))))"

definition fat32_inode_alloc :: "nat \<Rightarrow> u8 list \<Rightarrow> u16 \<Rightarrow> bmem \<Rightarrow> fsstate \<Rightarrow> (nat \<times> fsstate) res" where
  "fat32_inode_alloc dp name type m0 s =
     kbind (kget (inodes s) dp) (\<lambda>d.
     kbind (fat32_fcb_init dp name (if type = T_DIR then DIR_SET 0 else NONE_DIR_SET 0) m0 s) (\<lambda>(fcb, cnt, s).
     kbind (fat32_dir_fcb_insert_offset dp (of_nat cnt) s) (\<lambda>(offset, s).
     kbind (fat32_inode_write dp fcb (offset * 32) (of_nat cnt * 32) s) (\<lambda>(tot, s).
     kbind (kassert (tot = of_nat cnt * 32)) (\<lambda>_.
       let fcb_new_off = (offset + of_nat cnt - 1) * 32
       in kbind (fat32_fat_travel dp (LOGISTIC_C_NUM (sb s) fcb_new_off + 1) s) (\<lambda>(target, s).
            let c_off = LOGISTIC_C_OFFSET (sb s) fcb_new_off;
                fat_num = SECTOR_TO_FATINUM (sb s) (FirstSectorofCluster (sb s) target + c_off div sector_size (sb s)) (c_off mod sector_size (sb s) div 32)
            in kbind (fat32_inode_get (ucast (i_dev d)) fat_num name (offset + of_nat cnt - 1) s) (\<lambda>(c, s).
               kbind (set_inode c (\<lambda>ip. ip\<lparr>i_nlink := 1, ref := 1, iparent := Some dp, i_type := type, fs_type := FAT32\<rparr>) s) (\<lambda>s. Inr (c, s)))))))))"

section \<open>The bytes of a file\<close>

definition secs :: "fsstate \<Rightarrow> u32 \<Rightarrow> nat \<Rightarrow> u8 list" where
  "secs s k n = concat (map (\<lambda>j. the (sectors (io s) (k + of_nat j))) [0..<n])"

definition cluster_bytes :: "fsstate \<Rightarrow> u32 \<Rightarrow> u8 list" where
  "cluster_bytes s c = secs s (FirstSectorofCluster (sb s) c) (unat (sectors_per_block (sb s)))"

definition file_bytes :: "fsstate \<Rightarrow> u32 list \<Rightarrow> u8 list" where
  "file_bytes s cs = concat (map (cluster_bytes s) cs)"

lemma secs_0 [simp]: "secs s k 0 = []"
  by (simp add: secs_def)

lemma secs_Suc: "secs s k (Suc n) = the (sectors (io s) k) @ secs s (k + 1) n"
proof -
  have "map (\<lambda>j. the (sectors (io s) (k + of_nat j))) [0..<Suc n] =
      the (sectors (io s) k) # map (\<lambda>j. the (sectors (io s) (k + 1 + of_nat j))) [0..<n]"
    by (simp add: map_upt_Suc ac_simps del: upt_Suc)
  then show ?thesis by (simp only: secs_def concat.simps)
qed

lemma secs_add: "secs s k (a + b) = secs s k a @ secs s (k + of_nat a) b"
proof (induction a arbitrary: k)
  case (Suc a)
  show ?case using Suc [of "k + 1"] by (simp add: secs_Suc ac_simps)
qed simp

lemma secs_reads: "reads m s t \<Longrightarrow> secs t k n = secs s k n"
  by (simp add: secs_def reads_def)

lemma length_secs: "fsok s \<Longrightarrow> unat k + n \<le> unat (n_sectors (sb s)) \<Longrightarrow> length (secs s k n) = 512 * n"
proof (induction n arbitrary: k)
  case (Suc n)
  have lt: "unat k < unat (n_sectors (sb s))" using Suc.prems by simp
  obtain b where b: "sectors (io s) k = Some b" "length b = 512" by (rule fsok_sector [OF Suc.prems(1) lt])
  have "unat (k + 1) = Suc (unat k)" using unat_add_small [of k 1] lt n_sectors_bound [of "sb s"] by simp
  then show ?case using Suc b by (simp add: secs_Suc)
qed simp

lemma read_sectors_okf:
  "fsok s \<Longrightarrow> unat k + left \<le> unat (n_sectors (sb s)) \<Longrightarrow> so \<le> 512 \<Longrightarrow> (left = 0 \<longrightarrow> so = 0) \<Longrightarrow>
   okf left (room s) (read_sectors (sdev s) left k so n acc s)
     (\<lambda>(r, so', t). r = acc @ take (n - length acc) (drop so (secs s k left)) \<and> (length acc < n \<or> so = 0 \<longrightarrow> so' = 0) \<and> reads left s t)"
proof (induction left arbitrary: k so acc s)
  case 0
  then show ?case by (simp add: reads_refl)
next
  case (Suc left)
  have lt: "unat k < unat (n_sectors (sb s))" using Suc.prems(2) by simp
  obtain b where b: "sectors (io s) k = Some b" "length b = 512" by (rule fsok_sector [OF Suc.prems(1) lt])
  show ?case
  proof (cases "length acc < n")
    case False
    then show ?thesis using reads_mono [OF reads_refl [OF Suc.prems(1)]] by simp
  next
    case True
    let ?acc = "acc @ take (min (512 - so) (n - length acc)) (drop so b)"
    let ?Q = "\<lambda>(r, so', t). r = acc @ take (n - length acc) (drop so (secs s k (Suc left))) \<and> (length acc < n \<or> so = 0 \<longrightarrow> so' = 0) \<and> reads (1 + left) s t"
    have "okf (1 + left) (room s) (kbind (fs_rd (sdev s) k s) (\<lambda>(b, t).
        read_sectors (sdev s) left (k + 1) 0 n (acc @ take (min (512 - so) (n - length acc)) (drop so b)) t)) ?Q"
    proof (rule okf_bind [OF fs_rd_okf [OF Suc.prems(1) b(1)]])
      fix x assume "case x of (y, t) \<Rightarrow> y = b \<and> reads 1 s t"
      then obtain t where x: "x = (b, t)" and t: "reads 1 s t" by (cases x) auto
      have q: "sb t = sb s" using reads_fields [OF t] by simp
      have k1: "unat (k + 1) = Suc (unat k)" using unat_add_small [of k 1] lt n_sectors_bound [of "sb s"] by simp
      have IH: "okf left (room t) (read_sectors (sdev t) left (k + 1) 0 n ?acc t)
         (\<lambda>(r, so', u). r = ?acc @ take (n - length ?acc) (drop 0 (secs t (k + 1) left)) \<and> (length ?acc < n \<or> (0 :: nat) = 0 \<longrightarrow> so' = 0) \<and> reads left t u)"
        by (rule Suc.IH [OF reads_fsok [OF t Suc.prems(1)]]) (use Suc.prems(2) k1 q in simp_all)
      have eq: "?acc @ take (n - length ?acc) (drop 0 (secs t (k + 1) left)) = acc @ take (n - length acc) (drop so (secs s k (Suc left)))"
        using b Suc.prems(3) True by (auto simp: secs_Suc secs_reads [OF t] min_def)
      have "okf left (room t) (read_sectors (sdev s) left (k + 1) 0 n ?acc t) ?Q"
        using IH unfolding q eq
        by (rule okf_mono) (use reads_trans [OF t] in auto)
      then show "\<exists>b'. room s \<le> b' + 1 \<and> okf left b' (case x of (b, t) \<Rightarrow>
          read_sectors (sdev s) left (k + 1) 0 n (acc @ take (min (512 - so) (n - length acc)) (drop so b)) t) ?Q"
        using t x by (intro exI [of _ "room t"]) (simp add: reads_def)
    qed
    then show ?thesis using True by (simp add: Let_def)
  qed
qed

lemma fat_chain_ok: "geom_ok q \<Longrightarrow> fat_chain f (FAT_CLUSTER_MAX q) c cs \<Longrightarrow> x \<in> set cs \<Longrightarrow> cluster_ok q x"
proof (induction cs arbitrary: c)
  case (Cons y ys)
  have "cluster_ok q y" if "2 \<le> y" "y < FAT_CLUSTER_MAX q"
    using that unat_FAT_CLUSTER_MAX [OF Cons.prems(1)] by (simp add: cluster_ok_def word_le_nat_alt word_less_nat_alt)
  then show ?case using Cons by auto
qed simp

lemma fat_chain_drop: "fat_chain f m c cs \<Longrightarrow> i < length cs \<Longrightarrow> fat_chain f m (cs ! i) (drop i cs)"
proof (induction cs arbitrary: c i)
  case (Cons y ys)
  then show ?case by (cases i) auto
qed simp

lemma cluster_sectors:
  assumes s: "fsok s" and c: "cluster_ok (sb s) c" and n: "a \<le> unat (sectors_per_block (sb s))"
  shows "unat (FirstSectorofCluster (sb s) c + of_nat a) + (unat (sectors_per_block (sb s)) - a) \<le> unat (n_sectors (sb s))"
    and "length (cluster_bytes s c) = 512 * unat (sectors_per_block (sb s))"
    and "drop (512 * a) (cluster_bytes s c) =
      secs s (FirstSectorofCluster (sb s) c + of_nat a) (unat (sectors_per_block (sb s)) - a)"
proof -
  let ?p = "unat (sectors_per_block (sb s))" and ?k = "FirstSectorofCluster (sb s) c"
  have g: "geom_ok (sb s)" using s by (simp add: fsok_def)
  have sp: "unat ?k + ?p \<le> unat (n_sectors (sb s))" using cluster_span [OF g c] by linarith
  have "a < 2 ^ 32" using n g by (simp add: geom_ok_def)
  then have ua: "unat (of_nat a :: u32) = a" by (rule unat_of_nat_len)
  then have "unat (?k + of_nat a) = unat ?k + a"
    using unat_add_small [of ?k "of_nat a"] sp n n_sectors_bound [of "sb s"] by simp
  then show "unat (?k + of_nat a) + (?p - a) \<le> unat (n_sectors (sb s))" using sp n by simp
  show "length (cluster_bytes s c) = 512 * ?p" unfolding cluster_bytes_def by (rule length_secs [OF s sp])
  have "length (secs s ?k a) = 512 * a" using sp n by (intro length_secs [OF s]) simp
  then show "drop (512 * a) (cluster_bytes s c) = secs s (?k + of_nat a) (?p - a)"
    using secs_add [of s ?k a "?p - a"] n by (simp add: cluster_bytes_def)
qed

lemma file_bytes_reads: "reads n s t \<Longrightarrow> file_bytes t cs = file_bytes s cs"
proof -
  assume r: "reads n s t"
  have "cluster_bytes t = cluster_bytes s" using r reads_fields [OF r] by (simp add: fun_eq_iff cluster_bytes_def secs_reads [OF r])
  then show ?thesis by (simp add: file_bytes_def)
qed

lemma read_loop_turn:
  "\<not> ISEOF it \<Longrightarrow> length acc < n \<Longrightarrow>
   run_opt (read_loop dev it sn so n acc s) =
     kbind (read_sectors dev (unat (sectors_per_block (sb s)) - sn) (FirstSectorofCluster (sb s) it + of_nat sn) so n acc s) (\<lambda>(acc, so, s).
       if length acc = n then Inr (acc, s)
       else kbind (fat32_next_cluster it s) (\<lambda>(it, s). run_opt (read_loop dev it 0 so n acc s)))"
  by (subst read_loop.simps) (auto simp: run_opt_def kbind_def split: sum.splits prod.splits)

lemma read_loop_done: "ISEOF it \<or> n \<le> length acc \<Longrightarrow> run_opt (read_loop dev it sn so n acc s) = Inr (acc, s)"
  by (subst read_loop.simps) (auto simp: run_opt_def)

lemma read_loop_okf:
  "fsok s \<Longrightarrow> fat_chain (fat_of s) (FAT_CLUSTER_MAX (sb s)) it cs \<Longrightarrow> sn < unat (sectors_per_block (sb s)) \<Longrightarrow> so \<le> 512 \<Longrightarrow>
   n + 512 * sn + so \<le> length acc + length (file_bytes s cs) \<or> n \<le> length acc \<Longrightarrow>
   okf (length cs * (unat (sectors_per_block (sb s)) + 1)) (room s) (run_opt (read_loop (sdev s) it sn so n acc s))
     (\<lambda>(r, t). r = acc @ take (n - length acc) (drop (512 * sn + so) (file_bytes s cs)) \<and>
        reads (length cs * (unat (sectors_per_block (sb s)) + 1)) s t)"
proof (induction cs arbitrary: it sn so acc s)
  case Nil
  then have "n \<le> length acc" by (auto simp: file_bytes_def)
  then show ?case using Nil reads_refl [OF Nil.prems(1)] by (simp add: read_loop_done)
next
  case (Cons c cs)
  let ?p = "unat (sectors_per_block (sb s))"
  have g: "geom_ok (sb s)" using Cons.prems(1) by (simp add: fsok_def)
  have c: "it = c" "2 \<le> c" "c < FAT_CLUSTER_MAX (sb s)" "fat_chain (fat_of s) (FAT_CLUSTER_MAX (sb s)) (fat_of s c) cs"
    using Cons.prems(2) by auto
  have ne: "\<not> ISEOF c" using below_max_not_EOF [OF g c(3)] .
  have co: "cluster_ok (sb s) c" using fat_chain_ok [OF g Cons.prems(2)] by simp
  show ?case
  proof (cases "length acc < n")
    case False
    then show ?thesis using reads_mono [OF reads_refl [OF Cons.prems(1)]] by (simp add: read_loop_done)
  next
    case True
    note cl = cluster_sectors [OF Cons.prems(1) co, of sn]
    let ?k = "FirstSectorofCluster (sb s) c + of_nat sn" and ?fb = "file_bytes s (c # cs)"
    let ?acc = "acc @ take (n - length acc) (drop so (secs s ?k (?p - sn)))"
    let ?Q = "\<lambda>(r, t). r = acc @ take (n - length acc) (drop (512 * sn + so) ?fb) \<and> reads (length (c # cs) * (?p + 1)) s t"
    have sn: "sn \<le> ?p" "?p - sn \<noteq> 0" using Cons.prems(3) by auto
    have fb: "?fb = cluster_bytes s c @ file_bytes s cs" by (simp add: file_bytes_def)
    have dr: "drop so (secs s ?k (?p - sn)) = drop (512 * sn + so) (cluster_bytes s c)"
      using cl(3) sn by (simp add: add.commute drop_drop [symmetric] del: drop_drop)
    have lk: "512 * sn + so \<le> length (cluster_bytes s c)" using cl(2) sn Cons.prems(4) by simp
    have rs: "okf (?p - sn) (room s) (read_sectors (sdev s) (?p - sn) ?k so n acc s)
        (\<lambda>(r, so', t). r = ?acc \<and> (length acc < n \<or> so = 0 \<longrightarrow> so' = 0) \<and> reads (?p - sn) s t)"
      using cl(1) sn Cons.prems(4) by (intro read_sectors_okf [OF Cons.prems(1)]) auto
    have "okf ((?p - sn) + (1 + length cs * (?p + 1))) (room s) (run_opt (read_loop (sdev s) c sn so n acc s)) ?Q"
      unfolding read_loop_turn [OF ne True]
    proof (rule okf_bind [OF rs])
      fix x :: "u8 list \<times> nat \<times> fsstate"
      assume "case x of (r, so', t) \<Rightarrow> r = ?acc \<and> (length acc < n \<or> so = 0 \<longrightarrow> so' = 0) \<and> reads (?p - sn) s t"
      then obtain t where x: "x = (?acc, 0, t)" and t: "reads (?p - sn) s t" using True by (cases x) auto
      have q: "sb t = sb s" using reads_fields [OF t] by simp
      have tok: "fsok t" by (rule reads_fsok [OF t Cons.prems(1)])
      have rt: "room s \<le> room t + (?p - sn)" using t by (simp add: reads_def)
      have "okf (1 + length cs * (?p + 1)) (room t) (if length ?acc = n then Inr (?acc, t)
         else kbind (fat32_next_cluster c t) (\<lambda>(it, u). run_opt (read_loop (sdev s) it 0 0 n ?acc u))) ?Q"
      proof (cases "length ?acc = n")
        case full: True
        have "take (n - length acc) (drop (512 * sn + so) ?fb) = take (n - length acc) (drop so (secs s ?k (?p - sn)))"
          using full True lk unfolding dr fb by simp
        then show ?thesis using full reads_mono [OF t, of "length (c # cs) * (?p + 1)"] by simp
      next
        case more: False
        have len: "length ?acc = length acc + length (drop so (secs s ?k (?p - sn)))" using more True by (auto simp: min_def split: if_splits)
        have cs: "fat_chain (fat_of t) (FAT_CLUSTER_MAX (sb t)) (fat_of t c) cs" using c(4) reads_fat [OF t] q by simp
        have c': "2 \<le> c" "c < FAT_CLUSTER_MAX (sb t)" using c q by auto
        have "okf (1 + length cs * (?p + 1)) (room t) (kbind (fat32_next_cluster c t) (\<lambda>(it, u). run_opt (read_loop (sdev s) it 0 0 n ?acc u))) ?Q"
        proof (rule okf_bind [OF next_cluster_okf [OF tok c']])
          fix y assume "case y of (v, u) \<Rightarrow> v = fat_of t c \<and> reads 1 t u"
          then obtain u where y: "y = (fat_of t c, u)" and u: "reads 1 t u" by (cases y) auto
          have qu: "sb u = sb s" using reads_fields [OF u] q by simp
          have uok: "fsok u" by (rule reads_fsok [OF u tok])
          have fu: "file_bytes u cs = file_bytes s cs" using file_bytes_reads [OF u] file_bytes_reads [OF t] by simp
          have ch: "fat_chain (fat_of u) (FAT_CLUSTER_MAX (sb u)) (fat_of t c) cs" using cs reads_fat [OF u] qu q by simp
          have enough: "n + 512 * 0 + 0 \<le> length ?acc + length (file_bytes u cs) \<or> n \<le> length ?acc"
          proof -
            have "n \<le> length acc + (length (cluster_bytes s c) - (512 * sn + so)) + length (file_bytes s cs)"
              using Cons.prems(5) True lk unfolding fb length_append by arith
            then show ?thesis using True by (auto simp: fu dr min_def)
          qed
          have p0: "0 < unat (sectors_per_block (sb u))" using g qu by (simp add: geom_ok_def)
          have IH: "okf (length cs * (?p + 1)) (room u) (run_opt (read_loop (sdev s) (fat_of t c) 0 0 n ?acc u))
             (\<lambda>(r, v). r = ?acc @ take (n - length ?acc) (drop (512 * 0 + 0) (file_bytes u cs)) \<and> reads (length cs * (?p + 1)) u v)"
            using Cons.IH [OF uok ch p0 _ enough] qu by simp
          have rr: "reads (length (c # cs) * (?p + 1)) s v" if "reads (length cs * (?p + 1)) u v" for v
            by (rule reads_mono [OF reads_trans [OF reads_trans [OF t u] that]]) simp
          have eq: "?acc @ take (n - length ?acc) (drop (512 * 0 + 0) (file_bytes u cs)) = acc @ take (n - length acc) (drop (512 * sn + so) ?fb)"
            using len lk True unfolding dr fu fb by simp
          have "okf (length cs * (?p + 1)) (room u) (run_opt (read_loop (sdev s) (fat_of t c) 0 0 n ?acc u)) ?Q"
            using IH unfolding eq by (rule okf_mono) (use rr in \<open>auto simp only: prod.case split: prod.splits\<close>)
          then show "\<exists>b'. room t \<le> b' + 1 \<and> okf (length cs * (?p + 1)) b' (case y of (it, u) \<Rightarrow> run_opt (read_loop (sdev s) it 0 0 n ?acc u)) ?Q"
            using u y by (intro exI [of _ "room u"]) (simp add: reads_def)
        qed
        then show ?thesis using more by simp
      qed
      then show "\<exists>b'. room s \<le> b' + (?p - sn) \<and> okf (1 + length cs * (?p + 1)) b' (case x of (acc, so, t) \<Rightarrow>
         if length acc = n then Inr (acc, t)
         else kbind (fat32_next_cluster c t) (\<lambda>(it, u). run_opt (read_loop (sdev s) it 0 so n acc u))) ?Q"
        using rt unfolding x prod.case by blast
    qed
    then show ?thesis unfolding c(1) by (rule okf_mono) auto
  qed
qed

lemma file_bytes_drop:
  assumes "\<And>c. c \<in> set cs \<Longrightarrow> length (cluster_bytes s c) = m"
  shows "length (file_bytes s cs) = length cs * m" and "file_bytes s (drop i cs) = drop (i * m) (file_bytes s cs)"
proof -
  show "length (file_bytes s cs) = length cs * m" using assms by (induction cs) (auto simp: file_bytes_def)
  show "file_bytes s (drop i cs) = drop (i * m) (file_bytes s cs)" using assms
  proof (induction cs arbitrary: i)
    case (Cons c cs)
    then show ?case by (cases i) (auto simp: file_bytes_def)
  qed (simp add: file_bytes_def)
qed

lemma logistic:
  assumes g: "geom_ok q"
  defines "m \<equiv> 512 * unat (sectors_per_block q)"
  shows "unat (LOGISTIC_C_NUM q off + 1) = unat off div m + 1"
    and "unat (LOGISTIC_S_NUM q off) = unat off mod m div 512"
    and "unat (LOGISTIC_S_OFFSET q off) = unat off mod m mod 512"
proof -
  have p: "0 < unat (sectors_per_block q)" "unat (sectors_per_block q) < 256" "sector_size q = 512" using g by (auto simp: geom_ok_def)
  have cs: "unat (sectors_per_block q * sector_size q) = m"
    using unat_mult_small [of "sectors_per_block q" "sector_size q"] p by (simp add: m_def)
  have d: "unat (LOGISTIC_C_NUM q off) = unat off div m" by (simp add: LOGISTIC_C_NUM_def unat_div cs)
  have "unat off div m \<le> unat off div 2" using p by (intro div_le_mono2) (auto simp: m_def)
  moreover have "unat off < 4294967296" using unat_bound [of off] by simp
  ultimately have "unat off div m + 1 < 2 ^ 32" by simp
  then show "unat (LOGISTIC_C_NUM q off + 1) = unat off div m + 1" using d unat_add_small [of "LOGISTIC_C_NUM q off" 1] by simp
  show "unat (LOGISTIC_S_NUM q off) = unat off mod m div 512" "unat (LOGISTIC_S_OFFSET q off) = unat off mod m mod 512"
    by (simp_all add: LOGISTIC_S_NUM_def LOGISTIC_S_OFFSET_def LOGISTIC_C_OFFSET_def unat_div unat_mod cs [unfolded p(3)] p)
qed

lemma read_part_okf:
  assumes s: "fsok s" and ch: "fat_chain (fat_of s) (FAT_CLUSTER_MAX (sb s)) c cs"
    and n: "unat off + n \<le> length (file_bytes s cs)" "n \<noteq> 0"
  shows "okf (length cs * (unat (sectors_per_block (sb s)) + 1)) (room s)
    (run_opt (read_loop (sdev s) (if unat (LOGISTIC_C_NUM (sb s) off + 1) \<le> length cs then cs ! (unat (LOGISTIC_C_NUM (sb s) off + 1) - 1) else v)
       (unat (LOGISTIC_S_NUM (sb s) off)) (unat (LOGISTIC_S_OFFSET (sb s) off)) n [] s))
    (\<lambda>(r, t). r = take n (drop (unat off) (file_bytes s cs)) \<and> reads (length cs * (unat (sectors_per_block (sb s)) + 1)) s t)"
proof -
  let ?p = "unat (sectors_per_block (sb s))" and ?m = "512 * unat (sectors_per_block (sb s))"
  let ?i = "unat off div ?m" and ?r = "unat off mod ?m"
  have g: "geom_ok (sb s)" using s by (simp add: fsok_def)
  note lg = logistic [OF g, of off]
  have p0: "0 < ?p" using g by (simp add: geom_ok_def)
  have cl: "length (cluster_bytes s x) = ?m" if "x \<in> set cs" for x
    using cluster_sectors(2) [OF s fat_chain_ok [OF g ch that], of 0] by simp
  note fb = file_bytes_drop [OF cl]
  have "unat off < length cs * ?m" using n fb(1) by simp
  then have i: "?i < length cs" using p0 by (simp add: less_mult_imp_div_less)
  have "?r < ?m" using p0 by simp
  then have sn: "?r div 512 < ?p" by (simp add: less_mult_imp_div_less mult.commute)
  have r: "512 * (?r div 512) + ?r mod 512 = ?r" by simp
  have o: "?i * ?m + ?r = unat off" by (rule div_mult_mod_eq)
  have dl: "length (file_bytes s (drop ?i cs)) = length (file_bytes s cs) - ?i * ?m" using fb(2) by simp
  have en: "n + 512 * (?r div 512) + ?r mod 512 \<le> length ([] :: u8 list) + length (file_bytes s (drop ?i cs)) \<or> n \<le> length ([] :: u8 list)"
    using n(1) o r unfolding dl by linarith
  have "okf (length (drop ?i cs) * (?p + 1)) (room s) (run_opt (read_loop (sdev s) (cs ! ?i) (?r div 512) (?r mod 512) n [] s))
     (\<lambda>(x, t). x = [] @ take (n - length ([] :: u8 list)) (drop (512 * (?r div 512) + ?r mod 512) (file_bytes s (drop ?i cs))) \<and>
        reads (length (drop ?i cs) * (?p + 1)) s t)"
    by (rule read_loop_okf [OF s fat_chain_drop [OF ch i] sn _ en]) simp
  moreover have "drop (512 * (?r div 512) + ?r mod 512) (file_bytes s (drop ?i cs)) = drop (unat off) (file_bytes s cs)"
  proof -
    have "drop ?r (file_bytes s (drop ?i cs)) = drop (?r + ?i * ?m) (file_bytes s cs)" by (simp only: fb(2) drop_drop)
    also have "?r + ?i * ?m = unat off" using o by (simp only: add.commute)
    finally show ?thesis unfolding r .
  qed
  moreover have "length (drop ?i cs) * (?p + 1) \<le> length cs * (?p + 1)" by (intro mult_le_mono1) simp
  ultimately show ?thesis using i unfolding lg
    by (simp add: okf_def) (auto intro: reads_mono)
qed

lemma inode_read_total:
  assumes s: "fsok s" and p: "p < length (inodes s)" and dev: "i_dev (inodes s ! p) = s_dev (sb s)"
    and ch: "fat_chain (fat_of s) (FAT_CLUSTER_MAX (sb s)) (cluster_start (inodes s ! p)) cs"
    and sz: "unat (i_size (inodes s ! p)) \<le> length (file_bytes s cs)" and w: "unat off + unat n < 2 ^ 32"
    and room: "length cs * (unat (sectors_per_block (sb s)) + 2) \<le> room s"
  shows "\<exists>t. fat32_inode_read p off n s =
      Inr (take (unat n) (drop (unat off) (take (unat (i_size (inodes s ! p))) (file_bytes s cs))), t) \<and>
    inodes t = inodes s \<and> sectors (io t) = sectors (io s)"
proof (cases "unat (i_size (inodes s ! p)) < unat off")
  case True
  then show ?thesis using p by (simp add: fat32_inode_read_def Let_def word_less_nat_alt)
next
  case False
  let ?z = "i_size (inodes s ! p)" and ?n = "if off + n > i_size (inodes s ! p) then i_size (inodes s ! p) - off else n"
  let ?c = "LOGISTIC_C_NUM (sb s) off + 1"
  have le: "unat off \<le> unat ?z" using False by simp
  have on: "unat (off + n) = unat off + unat n" by (rule unat_add_small [OF w])
  have un: "unat ?n = min (unat n) (unat ?z - unat off)"
    using le on by (auto simp: word_less_nat_alt unat_sub word_le_nat_alt)
  have g: "geom_ok (sb s)" using s by (simp add: fsok_def)
  have c0: "?c \<noteq> 0" using logistic(1) [OF g, of off] by (metis Suc_eq_plus1 unat_0 nat.distinct(1))
  have l: "length cs \<le> room s" using room by (metis le_trans mult.right_neutral mult_le_mono2 le_add2 add_leD2 one_le_numeral)
  obtain u where u: "fat32_fat_travel p ?c s = Inr (if unat ?c \<le> length cs then cs ! (unat ?c - 1) else last (0 # cs), u)" "reads (length cs) s u"
    using okf_room [OF travel_okf [OF s p c0 ch] l] by auto
  have q: "sb u = sb s" "inodes u = inodes s" "sectors (io u) = sectors (io s)" "room s \<le> room u + length cs" using u(2) by (simp_all add: reads_def)
  let ?rest = "run_opt (read_loop (sdev u) (if unat ?c \<le> length cs then cs ! (unat ?c - 1) else last (0 # cs))
      (unat (LOGISTIC_S_NUM (sb u) off)) (unat (LOGISTIC_S_OFFSET (sb u) off)) (unat ?n) [] u)"
  have "\<not> off > ?z" "\<not> off + n < off" using le on by (simp_all add: word_less_nat_alt)
  then have rd: "fat32_inode_read p off n s = ?rest" using p u(1) dev q(1) by (simp add: fat32_inode_read_def Let_def)
  have "\<exists>t. ?rest = Inr (take (unat ?n) (drop (unat off) (file_bytes s cs)), t) \<and> inodes t = inodes s \<and> sectors (io t) = sectors (io s)"
  proof (cases "unat ?n = 0")
    case True
    then show ?thesis using q by (simp add: read_loop_done)
  next
    case False
    have uok: "fsok u" by (rule reads_fsok [OF u(2) s])
    have ch': "fat_chain (fat_of u) (FAT_CLUSTER_MAX (sb u)) (cluster_start (inodes s ! p)) cs" using ch reads_fat [OF u(2)] q by simp
    have "unat off + unat ?n \<le> length (file_bytes u cs)" using un sz le file_bytes_reads [OF u(2)] by simp
    note r = read_part_okf [OF uok ch' this False, of "last (0 # cs)"]
    have "length cs * (unat (sectors_per_block (sb u)) + 1) \<le> room u" using room q(1,4) by (simp add: algebra_simps)
    then show ?thesis using okf_room [OF r] q file_bytes_reads [OF u(2)] by (auto simp: reads_def)
  qed
  moreover have "take (unat ?n) (drop (unat off) (file_bytes s cs)) = take (unat n) (drop (unat off) (take (unat ?z) (file_bytes s cs)))"
    unfolding un by (simp add: drop_take min.commute)
  ultimately show ?thesis unfolding rd by simp
qed

text \<open>
  C12. \<open>fat32_inode_read\<close> reads the file: for an inode whose clusters are the chain \<open>cs\<close> and whose size fits in them, it copies the bytes
  of the concatenated clusters from \<open>off\<close> on, at most \<open>n\<close> and none past the size, whatever \<open>off\<close> and \<open>n\<close> are as long as
  their sum does not wrap; neither the medium nor the inode table changes. It needs buffers for the walk and the sectors it reads.
\<close>

theorem inode_read_correct:
  assumes s: "fsok s" and p: "p < length (inodes s)" and dev: "i_dev (inodes s ! p) = s_dev (sb s)"
    and ch: "fat_chain (fat_of s) (FAT_CLUSTER_MAX (sb s)) (cluster_start (inodes s ! p)) cs"
    and sz: "unat (i_size (inodes s ! p)) \<le> length (file_bytes s cs)" and w: "unat off + unat n < 2 ^ 32"
    and room: "length cs * (unat (sectors_per_block (sb s)) + 2) \<le> room s"
  shows "\<exists>t. fat32_inode_read p off n s =
      Inr (take (unat n) (drop (unat off) (take (unat (i_size (inodes s ! p))) (file_bytes s cs))), t) \<and>
    inodes t = inodes s \<and> sectors (io t) = sectors (io s)"
  by (rule inode_read_total [OF assms])

definition demo_file :: fsstate where
  "demo_file = (demo_fs 0)\<lparr>inodes := [inode0\<lparr>cluster_start := 2, i_dev := 1, i_size := 600\<rparr>]\<rparr>"

lemma demo_file_sel [simp]: "sb demo_file = demo_sb" "inodes demo_file = [inode0\<lparr>cluster_start := 2, i_dev := 1, i_size := 600\<rparr>]"
    "io demo_file = io (demo_fs 0)" "fat_of demo_file = fat_of (demo_fs 0)" "fsok demo_file"
  using demo_fsok [of 0] by (simp_all add: demo_file_def fun_eq_iff fat_of_def fsok_def)

theorem inode_read_correct_witness:
  "\<exists>t. fat32_inode_read 0 500 200 demo_file = Inr (replicate 100 0, t)"
proof -
  have f: "FirstSectorofCluster demo_sb 2 = 9" "FirstSectorofCluster demo_sb 3 = 10"
    by (simp_all add: FirstSectorofCluster_def FirstDataSector_def RootDirSectors_def demo_sb_def)
  have "file_bytes demo_file [2, 3] = replicate 512 0 @ replicate 512 0"
    by (simp add: file_bytes_def cluster_bytes_def f secs_Suc demo_media_def)
  then have fb: "file_bytes demo_file [2, 3] = replicate 1024 0" by (simp add: replicate_add [symmetric])
  have ch: "fat_chain (fat_of demo_file) (FAT_CLUSTER_MAX (sb demo_file)) (cluster_start (inodes demo_file ! 0)) [2, 3]"
    by (simp add: demo_entry demo_max ISEOF_def)
  have "\<exists>t. fat32_inode_read 0 500 200 demo_file = Inr (take (unat (200 :: u32)) (drop (unat (500 :: u32)) (take (unat (i_size (inodes demo_file ! 0))) (file_bytes demo_file [2, 3]))), t) \<and>
    inodes t = inodes demo_file \<and> sectors (io t) = sectors (io demo_file)"
    by (rule inode_read_correct [OF demo_file_sel(5) _ _ ch]) (simp_all add: fb)
  then show ?thesis by (auto simp: fb)
qed

section \<open>Writing copies nothing\<close>

lemma rewrite_okf:
  assumes "fsok s" and "sectors (io s) k = Some b"
  shows "okf 1 (room s) (fs_upd (sdev s) k (\<lambda>b. b) s) (reads 1 s)"
proof -
  have "(sectors (io s))(k \<mapsto> b) = sectors (io s)" using assms(2) by (simp add: fun_upd_idem_iff)
  then show ?thesis using fs_upd_okf [OF assms, of "\<lambda>b. b"] by (simp add: okf_def wrote_def reads_def)
qed

lemma write_sectors_okf:
  "fsok s \<Longrightarrow> unat k + left \<le> unat (n_sectors (sb s)) \<Longrightarrow> so \<le> 512 \<Longrightarrow> (left = 0 \<longrightarrow> so = 0) \<Longrightarrow> tot \<le> n \<Longrightarrow>
   okf left (room s) (write_sectors (sdev s) left k so n tot s)
     (\<lambda>(r, so', t). r = min n (tot + (512 * left - so)) \<and> (tot < n \<or> so = 0 \<longrightarrow> so' = 0) \<and> reads left s t)"
proof (induction left arbitrary: k so tot s)
  case 0
  then show ?case by (simp add: reads_refl)
next
  case (Suc left)
  have lt: "unat k < unat (n_sectors (sb s))" using Suc.prems(2) by simp
  obtain b where b: "sectors (io s) k = Some b" "length b = 512" by (rule fsok_sector [OF Suc.prems(1) lt])
  show ?case
  proof (cases "tot < n")
    case False
    then show ?thesis using reads_mono [OF reads_refl [OF Suc.prems(1)]] Suc.prems(5) by simp
  next
    case True
    let ?tot = "tot + min (512 - so) (n - tot)"
    let ?Q = "\<lambda>(r, so', t). r = min n (tot + (512 * Suc left - so)) \<and> (tot < n \<or> so = 0 \<longrightarrow> so' = 0) \<and> reads (1 + left) s t"
    have "okf (1 + left) (room s) (kbind (fs_upd (sdev s) k (\<lambda>b. b) s) (write_sectors (sdev s) left (k + 1) 0 n ?tot)) ?Q"
    proof (rule okf_bind [OF rewrite_okf [OF Suc.prems(1) b(1)]])
      fix t assume t: "reads 1 s t"
      have q: "sb t = sb s" using reads_fields [OF t] by simp
      have k1: "unat (k + 1) = Suc (unat k)" using unat_add_small [of k 1] lt n_sectors_bound [of "sb s"] by simp
      have "okf left (room t) (write_sectors (sdev t) left (k + 1) 0 n ?tot t)
         (\<lambda>(r, so', u). r = min n (?tot + (512 * left - 0)) \<and> (?tot < n \<or> (0 :: nat) = 0 \<longrightarrow> so' = 0) \<and> reads left t u)"
        by (rule Suc.IH [OF reads_fsok [OF t Suc.prems(1)]]) (use Suc.prems(2) k1 q True in simp_all)
      moreover have "min n (?tot + (512 * left - 0)) = min n (tot + (512 * Suc left - so))" using Suc.prems(3) by auto
      ultimately have "okf left (room t) (write_sectors (sdev s) left (k + 1) 0 n ?tot t) ?Q"
        unfolding q by (elim okf_mono) (use reads_trans [OF t] in auto)
      then show "\<exists>b'. room s \<le> b' + 1 \<and> okf left b' (write_sectors (sdev s) left (k + 1) 0 n ?tot t) ?Q"
        using t by (intro exI [of _ "room t"]) (simp add: reads_def)
    qed
    then show ?thesis using True by simp
  qed
qed

lemma write_loop_turn:
  "\<not> ISEOF it \<Longrightarrow> tot < n \<Longrightarrow>
   run_opt (write_loop p dev it sn so n tot s) =
     kbind (write_sectors dev (unat (sectors_per_block (sb s)) - sn) (FirstSectorofCluster (sb s) it + of_nat sn) so n tot s) (\<lambda>(tot, so, s).
       if tot = n then Inr (tot, s)
       else kbind (fat32_next_cluster it s) (\<lambda>(nx, s).
         if ISEOF nx then kbind (extend_chain p it s) (\<lambda>(nx, s). run_opt (write_loop p dev nx 0 so n tot s))
         else run_opt (write_loop p dev nx 0 so n tot s)))"
  by (subst write_loop.simps) (auto simp: run_opt_def kbind_def split: sum.splits prod.splits)

lemma write_loop_done: "n \<le> tot \<Longrightarrow> run_opt (write_loop p dev it sn so n tot s) = Inr (tot, s)"
  by (subst write_loop.simps) (simp add: run_opt_def)

lemma write_loop_okf:
  "fsok s \<Longrightarrow> fat_chain (fat_of s) (FAT_CLUSTER_MAX (sb s)) it cs \<Longrightarrow> sn < unat (sectors_per_block (sb s)) \<Longrightarrow> so \<le> 512 \<Longrightarrow> tot \<le> n \<Longrightarrow>
   n + 512 * sn + so \<le> tot + length cs * (512 * unat (sectors_per_block (sb s))) \<or> tot = n \<Longrightarrow>
   okf (length cs * (unat (sectors_per_block (sb s)) + 1)) (room s) (run_opt (write_loop p (sdev s) it sn so n tot s))
     (\<lambda>(r, t). r = n \<and> reads (length cs * (unat (sectors_per_block (sb s)) + 1)) s t)"
proof (induction cs arbitrary: it sn so tot s)
  case Nil
  then show ?case using reads_refl [OF Nil.prems(1)] by (auto simp: write_loop_done)
next
  case (Cons c cs)
  let ?p = "unat (sectors_per_block (sb s))" and ?k = "FirstSectorofCluster (sb s) c + of_nat sn"
  have g: "geom_ok (sb s)" using Cons.prems(1) by (simp add: fsok_def)
  have c: "it = c" "2 \<le> c" "c < FAT_CLUSTER_MAX (sb s)" "fat_chain (fat_of s) (FAT_CLUSTER_MAX (sb s)) (fat_of s c) cs"
    using Cons.prems(2) by auto
  have ne: "\<not> ISEOF c" using below_max_not_EOF [OF g c(3)] .
  have co: "cluster_ok (sb s) c" using fat_chain_ok [OF g Cons.prems(2)] by simp
  show ?case
  proof (cases "tot < n")
    case False
    then show ?thesis using Cons.prems(5) reads_mono [OF reads_refl [OF Cons.prems(1)]] by (simp add: write_loop_done)
  next
    case True
    let ?tot = "min n (tot + (512 * (?p - sn) - so))"
    let ?Q = "\<lambda>(r, t). r = n \<and> reads (length (c # cs) * (?p + 1)) s t"
    have sn: "sn \<le> ?p" "?p - sn \<noteq> 0" using Cons.prems(3) by auto
    have ws: "okf (?p - sn) (room s) (write_sectors (sdev s) (?p - sn) ?k so n tot s)
        (\<lambda>(r, so', t). r = ?tot \<and> (tot < n \<or> so = 0 \<longrightarrow> so' = 0) \<and> reads (?p - sn) s t)"
      using cluster_sectors(1) [OF Cons.prems(1) co sn(1)] sn Cons.prems(4,5) by (intro write_sectors_okf [OF Cons.prems(1)]) auto
    have "okf ((?p - sn) + (1 + length cs * (?p + 1))) (room s) (run_opt (write_loop p (sdev s) c sn so n tot s)) ?Q"
      unfolding write_loop_turn [OF ne True]
    proof (rule okf_bind [OF ws])
      fix x :: "nat \<times> nat \<times> fsstate"
      assume "case x of (r, so', t) \<Rightarrow> r = ?tot \<and> (tot < n \<or> so = 0 \<longrightarrow> so' = 0) \<and> reads (?p - sn) s t"
      then obtain t where x: "x = (?tot, 0, t)" and t: "reads (?p - sn) s t" using True by (cases x) auto
      have q: "sb t = sb s" using reads_fields [OF t] by simp
      have tok: "fsok t" by (rule reads_fsok [OF t Cons.prems(1)])
      have rt: "room s \<le> room t + (?p - sn)" using t by (simp add: reads_def)
      let ?go = "\<lambda>t. kbind (fat32_next_cluster c t) (\<lambda>(nx, u).
         if ISEOF nx then kbind (extend_chain p c u) (\<lambda>(nx, u). run_opt (write_loop p (sdev s) nx 0 0 n ?tot u))
         else run_opt (write_loop p (sdev s) nx 0 0 n ?tot u))"
      have "okf (1 + length cs * (?p + 1)) (room t) (?go t) ?Q" if more: "?tot \<noteq> n"
      proof (rule okf_bind [OF next_cluster_okf [OF tok c(2)]])
        show "c < FAT_CLUSTER_MAX (sb t)" using c q by simp
        fix y assume "case y of (v, u) \<Rightarrow> v = fat_of t c \<and> reads 1 t u"
        then obtain u where y: "y = (fat_of t c, u)" and u: "reads 1 t u" by (cases y) auto
        have qu: "sb u = sb s" using reads_fields [OF u] q by simp
        have uok: "fsok u" by (rule reads_fsok [OF u tok])
        have ch: "fat_chain (fat_of u) (FAT_CLUSTER_MAX (sb u)) (fat_of t c) cs"
          using c(4) reads_fat [OF u] reads_fat [OF t] qu by simp
        have ex: "512 * (?p - sn) = 512 * ?p - 512 * sn" "512 * sn + so \<le> 512 * ?p" using Cons.prems(3,4) by (auto simp: diff_mult_distrib2)
        have en: "n + 512 * 0 + 0 \<le> ?tot + length cs * (512 * unat (sectors_per_block (sb u))) \<or> ?tot = n"
          using Cons.prems(6) True more ex unfolding qu by (simp add: min_def split: if_splits)
        have "cs \<noteq> []" using en more by auto
        then have nx: "\<not> ISEOF (fat_of t c)" using ch below_max_not_EOF [OF g] qu by (cases cs) auto
        have p0: "0 < unat (sectors_per_block (sb u))" using g qu by (simp add: geom_ok_def)
        have IH: "okf (length cs * (?p + 1)) (room u) (run_opt (write_loop p (sdev s) (fat_of t c) 0 0 n ?tot u))
           (\<lambda>(r, v). r = n \<and> reads (length cs * (?p + 1)) u v)"
          using Cons.IH [OF uok ch p0 _ _ en] qu by simp
        have rr: "reads (length (c # cs) * (?p + 1)) s v" if "reads (length cs * (?p + 1)) u v" for v
          by (rule reads_mono [OF reads_trans [OF reads_trans [OF t u] that]]) simp
        have "okf (length cs * (?p + 1)) (room u) (run_opt (write_loop p (sdev s) (fat_of t c) 0 0 n ?tot u)) ?Q"
          using IH by (rule okf_mono) (use rr in \<open>auto simp only: prod.case split: prod.splits\<close>)
        then show "\<exists>b'. room t \<le> b' + 1 \<and> okf (length cs * (?p + 1)) b' (case y of (nx, u) \<Rightarrow>
             if ISEOF nx then kbind (extend_chain p c u) (\<lambda>(nx, u). run_opt (write_loop p (sdev s) nx 0 0 n ?tot u))
             else run_opt (write_loop p (sdev s) nx 0 0 n ?tot u)) ?Q"
          using u y nx by (intro exI [of _ "room u"]) (simp add: reads_def)
      qed
      moreover have "okf (1 + length cs * (?p + 1)) (room t) (Inr (n, t)) ?Q"
        using reads_mono [OF t, of "length (c # cs) * (?p + 1)"] by simp
      ultimately show "\<exists>b'. room s \<le> b' + (?p - sn) \<and> okf (1 + length cs * (?p + 1)) b' (case x of (tot, so, t) \<Rightarrow>
         if tot = n then Inr (tot, t) else kbind (fat32_next_cluster c t) (\<lambda>(nx, u).
           if ISEOF nx then kbind (extend_chain p c u) (\<lambda>(nx, u). run_opt (write_loop p (sdev s) nx 0 so n tot u))
           else run_opt (write_loop p (sdev s) nx 0 so n tot u))) ?Q"
        using rt unfolding x prod.case by (intro exI [of _ "room t"]) auto
    qed
    then show ?thesis unfolding c(1) by (rule okf_mono) auto
  qed
qed

lemma update_keeps:
  assumes s: "fsok s" and p: "p < length (inodes s)" and dev: "i_dev (inodes s ! p) = s_dev (sb s)"
    and k: "unat (FATINUM_TO_SECTOR (sb s) (i_ino (inodes s ! p))) < unat (n_sectors (sb s))" and r: "1 \<le> room s"
  shows "\<exists>t. fat32_inode_update p s = Inr t \<and>
    (\<forall>j. j \<noteq> FATINUM_TO_SECTOR (sb s) (i_ino (inodes s ! p)) \<longrightarrow> sectors (io t) j = sectors (io s) j)"
proof -
  let ?k = "FATINUM_TO_SECTOR (sb s) (i_ino (inodes s ! p))"
  obtain b where b: "sectors (io s) ?k = Some b" "length b = 512" by (rule fsok_sector [OF s k])
  show ?thesis
  proof (cases "i_ino (inodes s ! p) = 0")
    case True
    then show ?thesis using okf_room [OF fs_rd_okf [OF s b(1)] r] p dev
      by (auto simp: fat32_inode_update_def Let_def kbind_eq_Inr reads_def)
  next
    case False
    let ?i = "32 * unat (FATINUM_TO_OFFSET (sb s) (i_ino (inodes s ! p)))"
    let ?f = "\<lambda>b. put_dirent_s ?i (update_dirent (inodes s ! p) (dirent_s_of b ?i)) b"
    have "fat32_inode_update p s = fs_upd (sdev s) ?k ?f s" using False p dev by (simp add: fat32_inode_update_def Let_def)
    then show ?thesis using okf_room [OF fs_upd_okf [OF s b(1), of ?f] r] by (auto simp: wrote_def)
  qed
qed

text \<open>
  C34. \<open>fat32_inode_write\<close> never stores what it is given: the copy from the source is commented out, so a write inside an
  existing file reports that all \<open>n\<close> bytes were written, whatever \<open>src\<close> is, while no sector of the medium changes, except
  the one with the file's own directory entry, which is rewritten from the inode.
\<close>

theorem inode_write_loses_data:
  assumes s: "fsok s" and p: "p < length (inodes s)" and dev: "i_dev (inodes s ! p) = s_dev (sb s)"
    and ch: "fat_chain (fat_of s) (FAT_CLUSTER_MAX (sb s)) (cluster_start (inodes s ! p)) cs"
    and cnt: "unat (cluster_cnt (inodes s ! p)) = length cs"
    and n: "0 < unat n" "unat off + unat n \<le> unat (i_size (inodes s ! p))"
    and sz: "unat (i_size (inodes s ! p)) \<le> length (file_bytes s cs)" "off + n \<le> DataSec (sb s) * sector_size (sb s)"
    and k: "unat (FATINUM_TO_SECTOR (sb s) (i_ino (inodes s ! p))) < unat (n_sectors (sb s))"
    and room: "length cs * (unat (sectors_per_block (sb s)) + 2) + 1 \<le> room s"
  shows "\<exists>t. fat32_inode_write p src off n s = Inr (n, t) \<and>
    (\<forall>j. j \<noteq> FATINUM_TO_SECTOR (sb s) (i_ino (inodes s ! p)) \<longrightarrow> sectors (io t) j = sectors (io s) j)"
proof -
  let ?z = "i_size (inodes s ! p)" and ?c = "LOGISTIC_C_NUM (sb s) off + 1" and ?p = "unat (sectors_per_block (sb s))"
  let ?i = "unat off div (512 * ?p)" and ?r = "unat off mod (512 * ?p)"
  have g: "geom_ok (sb s)" using s by (simp add: fsok_def)
  have p0: "0 < ?p" using g by (simp add: geom_ok_def)
  note lg = logistic [OF g, of off]
  have on: "unat (off + n) = unat off + unat n" using n unat_bound [of ?z] by (intro unat_add_small) simp
  have cl: "length (cluster_bytes s x) = 512 * ?p" if "x \<in> set cs" for x
    using cluster_sectors(2) [OF s fat_chain_ok [OF g ch that], of 0] by simp
  have tot: "unat off + unat n \<le> length cs * (512 * ?p)" using n sz(1) file_bytes_drop(1) [OF cl] by simp
  then have i: "?i < length cs" using n(1) p0 by (intro less_mult_imp_div_less) simp
  have c: "unat ?c = ?i + 1" "?c \<noteq> 0" using lg(1) by auto
  have l: "length cs \<le> room s" using room by (simp add: algebra_simps)
  obtain u where u: "fat32_fat_travel p ?c s = Inr (cs ! ?i, u)" "reads (length cs) s u"
    using okf_room [OF travel_okf [OF s p c(2) ch] l] i unfolding c(1) by auto
  have q: "sb u = sb s" "inodes u = inodes s" "sectors (io u) = sectors (io s)" "room s \<le> room u + length cs" using u(2) by (simp_all add: reads_def)
  have uok: "fsok u" by (rule reads_fsok [OF u(2) s])
  have ch': "fat_chain (fat_of u) (FAT_CLUSTER_MAX (sb u)) (cs ! ?i) (drop ?i cs)"
    using fat_chain_drop [OF ch i] reads_fat [OF u(2)] q by simp
  have "?r < 512 * ?p" using p0 by simp
  then have sn: "?r div 512 < unat (sectors_per_block (sb u))" unfolding q by (simp add: less_mult_imp_div_less mult.commute)
  have o: "?i * (512 * ?p) + ?r = unat off" by (rule div_mult_mod_eq)
  have "length (drop ?i cs) * (512 * ?p) = length cs * (512 * ?p) - ?i * (512 * ?p)" by (simp add: diff_mult_distrib)
  then have "unat n + ?r \<le> length (drop ?i cs) * (512 * ?p)" using tot o by linarith
  moreover have "512 * (?r div 512) + ?r mod 512 = ?r" by simp
  ultimately have en: "unat n + 512 * (?r div 512) + ?r mod 512 \<le> 0 + length (drop ?i cs) * (512 * unat (sectors_per_block (sb u))) \<or> 0 = unat n"
    unfolding q by linarith
  have rm: "length (drop ?i cs) * (unat (sectors_per_block (sb u)) + 1) + 1 \<le> room u"
  proof -
    have "length (drop ?i cs) * (?p + 1) \<le> length cs * (?p + 1)" by (intro mult_le_mono1) simp
    moreover have "length cs * (?p + 2) = length cs * (?p + 1) + length cs" by (simp add: algebra_simps)
    ultimately show ?thesis using room q(1,4) by simp
  qed
  obtain v where v: "run_opt (write_loop p (sdev u) (cs ! ?i) (?r div 512) (?r mod 512) (unat n) 0 u) = Inr (unat n, v)"
    "reads (length (drop ?i cs) * (unat (sectors_per_block (sb u)) + 1)) u v"
    using okf_room [OF write_loop_okf [OF uok ch' sn _ _ en, of p]] rm by auto
  have qv: "sb v = sb s" "inodes v = inodes s" "sectors (io v) = sectors (io s)" using v(2) q by (simp_all add: reads_def)
  have "1 \<le> room v" using v(2) rm by (simp add: reads_def)
  then obtain t where t: "fat32_inode_update p v = Inr t"
    "\<forall>j. j \<noteq> FATINUM_TO_SECTOR (sb s) (i_ino (inodes s ! p)) \<longrightarrow> sectors (io t) j = sectors (io s) j"
    using update_keeps [OF reads_fsok [OF v(2) uok]] p dev k qv by fastforce
  have "\<not> off > ?z" "\<not> off + n < off" "\<not> off + n > ?z" using n on by (simp_all add: word_less_nat_alt)
  moreover have "\<not> off + n > DataSec (sb s) * sector_size (sb s)" using sz(2) by simp
  moreover have "unat (ucast ?c :: u64) = unat ?c" by (simp add: unat_ucast_up)
  then have "\<not> ucast ?c > cluster_cnt (inodes s ! p)" using cnt c(1) i by (simp add: word_less_nat_alt)
  ultimately have "fat32_inode_write p src off n s = Inr (n, t)"
    using p u(1) v(1) t(1) dev q(1) lg by (simp add: fat32_inode_write_def Let_def)
  then show ?thesis using t(2) by blast
qed

theorem inode_write_loses_data_witness:
  "\<exists>t. fat32_inode_write 0 [1, 2, 3] 500 3 (demo_file\<lparr>inodes := [inode0\<lparr>cluster_start := 2, i_dev := 1, i_size := 600, cluster_cnt := 2\<rparr>]\<rparr>) = Inr (3, t) \<and>
     sectors (io t) 10 = sectors (io demo_file) 10"
proof -
  let ?s = "demo_file\<lparr>inodes := [inode0\<lparr>cluster_start := 2, i_dev := 1, i_size := 600, cluster_cnt := 2\<rparr>]\<rparr>"
  have ok: "fsok ?s" using demo_fsok [of 0] by (simp add: fsok_def)
  have f: "FirstSectorofCluster demo_sb 2 = 9" "FirstSectorofCluster demo_sb 3 = 10" "FATINUM_TO_SECTOR demo_sb 0 = 9"
    "DataSec demo_sb * sector_size demo_sb = 5632" "n_sectors demo_sb = 20"
    by (simp_all add: FirstSectorofCluster_def FirstDataSector_def RootDirSectors_def FATINUM_TO_SECTOR_def INUM_TRANSFER_def FCB_PER_BLOCK_def DataSec_def demo_sb_def)
  have ino: "i_ino inode0 = 0" by (simp add: inode0_def)
  have "fat_of ?s = fat_of (demo_fs 0)" by (simp add: fat_of_def fun_eq_iff)
  then have ch: "fat_chain (fat_of ?s) (FAT_CLUSTER_MAX (sb ?s)) (cluster_start (inodes ?s ! 0)) [2, 3]"
    by (simp add: demo_entry demo_max ISEOF_def)
  have fb: "length (file_bytes ?s [2, 3]) = 1024"
    by (simp add: file_bytes_def cluster_bytes_def f secs_Suc demo_media_def)
  have "\<exists>t. fat32_inode_write 0 [1, 2, 3] 500 3 ?s = Inr (3, t) \<and>
    (\<forall>j. j \<noteq> FATINUM_TO_SECTOR (sb ?s) (i_ino (inodes ?s ! 0)) \<longrightarrow> sectors (io t) j = sectors (io ?s) j)"
    by (rule inode_write_loses_data [OF ok _ _ ch]) (simp_all add: fb f ino)
  then show ?thesis by (auto simp: f ino)
qed

section \<open>The table of inodes\<close>

text \<open>Between operations the table is unlocked, no count is negative, and no two live entries stand for the same file.\<close>

definition live_for :: "u32 \<Rightarrow> u32 \<Rightarrow> inode \<Rightarrow> bool" where
  "live_for dev inum ip \<longleftrightarrow> ref ip > 0 \<and> ucast (i_dev ip) = dev \<and> i_ino ip = inum"

definition iinv :: "fsstate \<Rightarrow> bool" where
  "iinv s \<longleftrightarrow> itable_lock s = 0 \<and> length (inodes s) = NENTRY + 1 \<and> (\<forall>i<NENTRY. 0 \<le> ref (inodes s ! i)) \<and>
     (\<forall>dev inum. \<forall>i<NENTRY. \<forall>j<NENTRY. live_for dev inum (inodes s ! i) \<longrightarrow> live_for dev inum (inodes s ! j) \<longrightarrow> i = j)"

lemma iinv_set:
  assumes s: "iinv s" and i: "i < NENTRY" and r: "0 \<le> ref ip"
    and new: "\<And>dev inum j. j < NENTRY \<Longrightarrow> j \<noteq> i \<Longrightarrow> live_for dev inum ip \<Longrightarrow> \<not> live_for dev inum (inodes s ! j)"
    and t: "itable_lock t = 0" "inodes t = (inodes s)[i := ip]"
  shows "iinv t"
proof -
  have l: "i < length (inodes s)" "length (inodes t) = length (inodes s)" using s i t by (simp_all add: iinv_def)
  have nth: "inodes t ! j = (if j = i then ip else inodes s ! j)" for j using l t by (simp add: nth_list_update)
  show ?thesis using s r new t(1) l(2) unfolding iinv_def nth by (auto split: if_splits)
qed

lemma inode_get_hit:
  assumes s: "iinv s" and i: "i < NENTRY" "live_for dev inum (inodes s ! i)"
  shows "fat32_inode_get dev inum name off s = Inr (i, s\<lparr>inodes := (inodes s)[i := (inodes s ! i)\<lparr>ref := ref (inodes s ! i) + 1\<rparr>], itable_lock := 0\<rparr>)"
proof -
  let ?P = "\<lambda>i. ref (inodes s ! i) > 0 \<and> ucast (i_dev (inodes s ! i)) = dev \<and> i_ino (inodes s ! i) = inum"
  have "first_index ?P 0 NENTRY = Some i"
  proof (cases "first_index ?P 0 NENTRY")
    case None
    then show ?thesis using i by (auto simp: first_index_None live_for_def)
  next
    case (Some j)
    then have "j < NENTRY" "live_for dev inum (inodes s ! j)" using first_index_Some [OF Some] by (auto simp: live_for_def)
    then show ?thesis using s i Some unfolding iinv_def by blast
  qed
  then show ?thesis using s i by (simp add: fat32_inode_get_def with_itable_def set_inode_def iinv_def)
qed

lemma inode_get_miss:
  assumes s: "iinv s" and no: "\<And>j. j < NENTRY \<Longrightarrow> \<not> live_for dev inum (inodes s ! j)" and n: "length name \<le> NAME_LONG_MAX"
  shows "fat32_inode_get dev inum name off s =
    (case first_index (\<lambda>i. ref (inodes s ! i) = 0) 0 NENTRY of
       None \<Rightarrow> Inl (Panic ''fat32_inode_get: no space'')
     | Some i \<Rightarrow> Inr (i, s\<lparr>inodes := (inodes s)[i := (inodes s ! i)\<lparr>i_dev := ucast dev, i_ino := inum, ref := 1, valid := False,
         parent_off := off, fs_type := FAT32, fname := name @ drop (length name) (fname (inodes s ! i))\<rparr>], itable_lock := 0\<rparr>))"
proof -
  have "first_index (\<lambda>i. ref (inodes s ! i) > 0 \<and> ucast (i_dev (inodes s ! i)) = dev \<and> i_ino (inodes s ! i) = inum) 0 NENTRY = None"
    using no by (auto simp: first_index_None live_for_def)
  then show ?thesis using s n
    by (auto simp: fat32_inode_get_def with_itable_def set_inode_def iinv_def dest: first_index_Some split: option.splits)
qed



end
