(* ===== verification/File.thy ===== *)
theory File
  imports Inode
begin

text \<open>
  Paths, open files and descriptors: \<^verbatim>\<open>src/fs/ops.c\<close>, \<^verbatim>\<open>src/fs/fd.c\<close>, \<^verbatim>\<open>src/fs/fat32_file.c\<close> and the function
  \<^verbatim>\<open>fat32_inode_create\<close> of \<^verbatim>\<open>src/fs/fat32_inode.c\<close>, which resolves a path. The operations a file or an inode points to are
  the ones of the FAT file system, the only ones there are.
\<close>

section \<open>State\<close>

datatype type_t = FD_NONE | FD_PIPE | FD_INODE | FD_DEVICE

record kfile =
  f_type :: type_t
  f_mode :: u16
  f_pos :: u32
  f_flags :: u16
  f_count :: u16
  f_major :: int
  f_owner :: int
  f_inode :: "nat option"
  f_version :: u64

definition NFILE :: nat where "NFILE = 100"
definition NOFILE :: nat where "NOFILE = 128"
definition NDEV :: int where "NDEV = 10"
definition AT_FDCWD :: int where "AT_FDCWD = - 100"
definition O_WRONLY :: u16 where "O_WRONLY = 1"

text \<open>The file system, the table of open files, and what the code uses of the current task: its working directory, descriptors and argument registers.\<close>

record vfs =
  fsys :: fsstate
  ftable :: "kfile list"
  ftable_lock :: u32
  v_cwd :: "nat option"
  v_ofile :: "nat option list"
  argregs :: "u64 list"

definition F_WRITEABLE :: "kfile \<Rightarrow> bool" where "F_WRITEABLE f \<longleftrightarrow> f_flags f > 0"
definition F_READABLE :: "kfile \<Rightarrow> bool" where "F_READABLE f \<longleftrightarrow> f_flags f AND O_WRONLY \<noteq> O_WRONLY"

definition deref :: "'a option \<Rightarrow> 'a res" where
  "deref p = (case p of None \<Rightarrow> Inl NullDeref | Some x \<Rightarrow> Inr x)"

definition on_fs :: "(fsstate \<Rightarrow> ('a \<times> fsstate) res) \<Rightarrow> vfs \<Rightarrow> ('a \<times> vfs) res" where
  "on_fs f v = kbind (f (fsys v)) (\<lambda>(x, s). Inr (x, v\<lparr>fsys := s\<rparr>))"

definition on_fs0 :: "(fsstate \<Rightarrow> fsstate res) \<Rightarrow> vfs \<Rightarrow> vfs res" where
  "on_fs0 f v = kbind (f (fsys v)) (\<lambda>s. Inr (v\<lparr>fsys := s\<rparr>))"

section \<open>The table of open files\<close>

definition filealloc :: "vfs \<Rightarrow> (nat option \<times> vfs) res" where
  "filealloc v =
     kbind (spin_lock (ftable_lock v)) (\<lambda>l.
       case first_index (\<lambda>i. f_count (ftable v ! i) = 0) 0 NFILE of
         None \<Rightarrow> Inr (None, v\<lparr>ftable_lock := spin_unlock l\<rparr>)
       | Some i \<Rightarrow>
           kbind (deref (v_cwd v)) (\<lambda>d.
           kbind (kget (inodes (fsys v)) d) (\<lambda>ip.
           kbind (kassert (fs_type ip = FAT32)) (\<lambda>_.
             Inr (Some i, v\<lparr>ftable := (ftable v)[i := (ftable v ! i)\<lparr>f_count := 1\<rparr>], ftable_lock := spin_unlock l\<rparr>)))))"

definition generic_fileclose :: "nat \<Rightarrow> vfs \<Rightarrow> vfs res" where
  "generic_fileclose i v =
     kbind (spin_lock (ftable_lock v)) (\<lambda>l.
     kbind (kget (ftable v) i) (\<lambda>f.
       if f_count f < 1 then Inl (Panic ''generic_fileclose'')
       else if f_count f - 1 > 0
       then Inr (v\<lparr>ftable := (ftable v)[i := f\<lparr>f_count := f_count f - 1\<rparr>], ftable_lock := spin_unlock l\<rparr>)
       else
         let v = v\<lparr>ftable := (ftable v)[i := f\<lparr>f_count := 0, f_type := FD_NONE\<rparr>], ftable_lock := spin_unlock l\<rparr>
         in if f_type f = FD_INODE \<or> f_type f = FD_DEVICE then kbind (deref (f_inode f)) (\<lambda>p. on_fs0 (fat32_inode_put p) v) else Inr v))"

definition fat32_filedup :: "nat \<Rightarrow> vfs \<Rightarrow> (nat \<times> vfs) res" where
  "fat32_filedup i v =
     kbind (spin_lock (ftable_lock v)) (\<lambda>l.
     kbind (kget (ftable v) i) (\<lambda>f.
       if f_count f < 1 then Inl (Panic ''filedup'')
       else Inr (i, v\<lparr>ftable := (ftable v)[i := f\<lparr>f_count := f_count f + 1\<rparr>], ftable_lock := spin_unlock l\<rparr>)))"

section \<open>Descriptors\<close>

definition argraw :: "int \<Rightarrow> vfs \<Rightarrow> u64 res" where
  "argraw n v = (if 0 \<le> n \<and> n < 6 then kget (argregs v) (nat n) else Inl (Panic ''argraw''))"

definition argint :: "int \<Rightarrow> vfs \<Rightarrow> (int \<times> int) res" where
  "argint n v = kbind (argraw n v) (\<lambda>r. let ip = sint (ucast r :: i32) in Inr (if ip < 0 then - 1 else 0, ip))"

text \<open>\<^verbatim>\<open>argfd\<close>: \<open>None\<close> is the result \<open>-1\<close>, else the descriptor and its file.\<close>

definition argfd :: "int \<Rightarrow> vfs \<Rightarrow> (int \<times> nat) option res" where
  "argfd n v =
     kbind (argint n v) (\<lambda>(r, fd).
       if fd < 0 \<or> fd \<ge> int NOFILE then Inr None
       else kbind (kget (v_ofile v) (nat fd)) (\<lambda>f. Inr (case f of None \<Rightarrow> None | Some i \<Rightarrow> Some (fd, i))))"

section \<open>Paths\<close>

text \<open>
  \<^verbatim>\<open>skepelem\<close>: the rest of the path and the element stored in \<^verbatim>\<open>name\<close>, a buffer of \<^verbatim>\<open>NAME_LONG_MAX\<close> bytes although up to \<^verbatim>\<open>PATH_LONG_MAX\<close>
  are stored.
\<close>

definition skepelem :: "u8 list \<Rightarrow> (u8 list \<times> u8 list) option res" where
  "skepelem path =
     (let p = dropWhile (\<lambda>c. c = 0x2F \<or> c = 0x2E) path
      in if p = [] then Inr None
         else let s = takeWhile (\<lambda>c. c \<noteq> 0x2F) p
              in if length s \<ge> NAME_LONG_MAX then Inl OutOfBounds
                 else Inr (Some (dropWhile (\<lambda>c. c = 0x2F) (drop (length s) p), s)))"

lemma skepelem_shorter: "skepelem path = Inr (Some (rest, name)) \<Longrightarrow> length rest < length path"
proof -
  assume a: "skepelem path = Inr (Some (rest, name))"
  let ?p = "dropWhile (\<lambda>c. c = 0x2F \<or> c = 0x2E) path"
  have ne: "?p \<noteq> []" and r: "rest = dropWhile (\<lambda>c. c = 0x2F) (drop (length (takeWhile (\<lambda>c. c \<noteq> 0x2F) ?p)) ?p)"
    using a by (auto simp: skepelem_def Let_def split: if_splits)
  have "hd ?p \<noteq> 0x2F" using hd_dropWhile [OF ne] by auto
  then have "takeWhile (\<lambda>c. c \<noteq> 0x2F) ?p \<noteq> []" using ne by (cases ?p) auto
  then have "length (drop (length (takeWhile (\<lambda>c. c \<noteq> 0x2F) ?p)) ?p) < length ?p" using ne by simp
  then show ?thesis unfolding r using length_dropWhile_le le_less_trans less_le_trans by meson
qed

function namex_loop :: "nat \<Rightarrow> u8 list \<Rightarrow> bool \<Rightarrow> fsstate \<Rightarrow> ((nat \<times> u8 list) option \<times> fsstate) res" where
  "namex_loop p path parent s =
     kbind (skepelem path) (\<lambda>e. case e of
       None \<Rightarrow> if parent then kbind (fat32_inode_put p s) (\<lambda>s. Inr (None, s)) else Inr (Some (p, []), s)
     | Some (rest, name) \<Rightarrow>
         kbind (fat32_inode_lock (Some p) s) (\<lambda>s.
         kbind (kget (inodes s) p) (\<lambda>ip.
           if \<not> fat32_isdir ip then kbind (fat32_inode_unlock_put p s) (\<lambda>s. Inr (None, s))
           else if parent \<and> rest = [] then kbind (fat32_inode_unlock (Some p) s) (\<lambda>s. Inr (Some (p, name), s))
           else kbind (fat32_inode_dirlookup p name s) (\<lambda>(r, s).
                kbind (fat32_inode_unlock_put p s) (\<lambda>s.
                  case r of None \<Rightarrow> Inr (None, s) | Some (q, off) \<Rightarrow> namex_loop q rest parent s)))))"
  by pat_completeness auto
termination by (relation "measure (\<lambda>(p, path, parent, s). length path)") (auto dest: skepelem_shorter)

declare namex_loop.simps [simp del]

text \<open>\<^verbatim>\<open>inode_namex\<close>: because \<^verbatim>\<open>strncmp\<close> compares one character, every path that starts with a dot starts at the parent.\<close>

definition namex_start :: "u8 list \<Rightarrow> nat \<Rightarrow> inode \<Rightarrow> nat res" where
  "namex_start path d dip =
     (if (path @ [0]) ! 0 = 0x2F then Inr ROOT else if strings_cmp path [0x2E, 0x2E] 2 = 0 then deref (iparent dip) else Inr d)"

definition inode_namex :: "u8 list \<Rightarrow> bool \<Rightarrow> vfs \<Rightarrow> ((nat \<times> u8 list) option \<times> vfs) res" where
  "inode_namex path parent v =
     (case v_cwd v of
        None \<Rightarrow> Inl AssertFail
      | Some d \<Rightarrow>
          kbind (kget (inodes (fsys v)) d) (\<lambda>dip.
          kbind (namex_start path d dip) (\<lambda>start.
            on_fs (\<lambda>s. kbind (fat32_inode_dup start s) (\<lambda>(p, s). namex_loop p path parent s)) v)))"

definition name_to_i :: "u8 list \<Rightarrow> vfs \<Rightarrow> (nat option \<times> vfs) res" where
  "name_to_i path v = kbind (inode_namex path False v) (\<lambda>(r, v). Inr (map_option fst r, v))"

definition name_to_i_parent :: "u8 list \<Rightarrow> vfs \<Rightarrow> ((nat \<times> u8 list) option \<times> vfs) res" where
  "name_to_i_parent path v = inode_namex path True v"

text \<open>\<^verbatim>\<open>find_inode\<close>: \<open>parent\<close> is \<^verbatim>\<open>name != NULL\<close>. When a relative lookup fails, the working directory stays changed.\<close>

definition find_inode :: "u8 list \<Rightarrow> int \<Rightarrow> bool \<Rightarrow> vfs \<Rightarrow> ((nat \<times> u8 list) option \<times> vfs) res" where
  "find_inode path dirfd parent v =
     (if (path @ [0]) ! 0 = 0x2F \<or> dirfd = AT_FDCWD then inode_namex path parent v
      else if dirfd < 0 \<or> dirfd \<ge> int NOFILE then Inr (None, v)
      else kbind (kget (v_ofile v) (nat dirfd)) (\<lambda>f. case f of
             None \<Rightarrow> Inr (None, v)
           | Some i \<Rightarrow>
               kbind (kget (ftable v) i) (\<lambda>fl.
               kbind (inode_namex path parent (v\<lparr>v_cwd := f_inode fl\<rparr>)) (\<lambda>(r, w).
                 Inr (r, if r = None then w else w\<lparr>v_cwd := v_cwd v\<rparr>)))))"

section \<open>Creating\<close>

definition mkrdev :: "i16 \<Rightarrow> i16 \<Rightarrow> u32" where
  "mkrdev ma mi = push_bit 8 (scast ma) OR scast mi"

definition dot_entry :: "nat \<Rightarrow> u8 list \<Rightarrow> u32 \<Rightarrow> bmem \<Rightarrow> fsstate \<Rightarrow> fsstate res" where
  "dot_entry p name off m s =
     kbind (fat32_fcb_init p name ATTR_DIRECTORY m s) (\<lambda>(fcb, cnt, s).
     kbind (fat32_inode_write p fcb off 32 s) (\<lambda>(tot, s).
     kbind (kassert (tot = 32)) (\<lambda>_. Inr s)))"

text \<open>\<^verbatim>\<open>fat32_inode_create\<close>; \<open>m\<close> is what the frames of the calls to \<^verbatim>\<open>fat32_fcb_init\<close> hold at first. An existing file is returned after its reference was put back.\<close>

definition create_in :: "nat \<Rightarrow> u8 list \<Rightarrow> u16 \<Rightarrow> i16 \<Rightarrow> i16 \<Rightarrow> bmem \<Rightarrow> fsstate \<Rightarrow> (nat option \<times> fsstate) res" where
  "create_in dp name type major minor m s =
     kbind (fat32_inode_lock (Some dp) s) (\<lambda>s.
     kbind (fat32_inode_dirlookup dp name s) (\<lambda>(r, s). case r of
       Some (p, off) \<Rightarrow>
         kbind (fat32_inode_unlock_put dp s) (\<lambda>s.
         kbind (fat32_inode_lock (Some p) s) (\<lambda>s.
         kbind (fat32_inode_unlock_put p s) (\<lambda>s. Inr (Some p, s))))
     | None \<Rightarrow>
         kbind (fat32_inode_alloc dp name type m s) (\<lambda>(p, s).
         kbind (fat32_inode_lock (Some p) s) (\<lambda>s.
         kbind (set_inode p (\<lambda>ip. ip\<lparr>i_nlink := 1, i_rdev := ucast (mkrdev major minor), i_type := type\<rparr>) s) (\<lambda>s.
         kbind (fat32_inode_update p s) (\<lambda>s.
         kbind (if type = T_DIR
                then kbind (dot_entry p [0x2E] 0 m s) (\<lambda>s. kbind (dot_entry p [0x2E, 0x2E] 32 m s) (fat32_inode_update dp))
                else Inr s) (\<lambda>s.
         kbind (fat32_inode_unlock_put dp s) (\<lambda>s. Inr (Some p, s)))))))))"

definition fat32_inode_create :: "u8 list \<Rightarrow> u16 \<Rightarrow> i16 \<Rightarrow> i16 \<Rightarrow> bmem \<Rightarrow> vfs \<Rightarrow> (nat option \<times> vfs) res" where
  "fat32_inode_create path type major minor m v =
     kbind (name_to_i_parent path v) (\<lambda>(r, v). case r of
       None \<Rightarrow> Inr (None, v)
     | Some (dp, name) \<Rightarrow> on_fs (create_in dp name type major minor m) v)"

section \<open>Reading and writing open files\<close>

text \<open>
  \<^verbatim>\<open>fat32_fileread\<close>: the result and the bytes stored at \<^verbatim>\<open>addr\<close>. The entry of the device switch, which nothing in the kernel sets, is the
  parameter \<open>dread\<close>. The count is cut at the inode's size before the inode is loaded.
\<close>

definition fat32_fileread :: "(int \<Rightarrow> (i32 \<Rightarrow> i32 \<times> u8 list) option) \<Rightarrow> nat \<Rightarrow> i32 \<Rightarrow> vfs \<Rightarrow> (i32 \<times> u8 list \<times> vfs) res" where
  "fat32_fileread dread i n v =
     kbind (kget (ftable v) i) (\<lambda>f.
       if \<not> F_READABLE f then Inr (- 1, [], v)
       else case f_type f of
         FD_DEVICE \<Rightarrow>
           (if f_major f < 0 \<or> f_major f \<ge> NDEV then Inr (- 1, [], v)
            else case dread (f_major f) of None \<Rightarrow> Inr (- 1, [], v) | Some d \<Rightarrow> (case d n of (r, bytes) \<Rightarrow> Inr (r, bytes, v)))
       | FD_INODE \<Rightarrow>
           kbind (deref (f_inode f)) (\<lambda>p.
           kbind (kget (inodes (fsys v)) p) (\<lambda>ip.
             let n = (if n > i_size ip then i_size ip else n)
             in kbind (fat32_inode_lock (Some p) (fsys v)) (\<lambda>s.
                kbind (fat32_inode_read p (f_pos f) n s) (\<lambda>(bytes, s).
                  let r = of_nat (length bytes) :: i32
                  in kbind (fat32_inode_unlock (Some p) s) (\<lambda>s.
                     Inr (r, bytes, v\<lparr>fsys := s, ftable := (ftable v)[i := if 0 < sint r then f\<lparr>f_pos := f_pos f + r\<rparr> else f]\<rparr>))))))
       | _ \<Rightarrow> Inl (Panic ''fileread''))"

text \<open>\<^verbatim>\<open>fat32_filewrite\<close>: the loop runs once when \<open>n\<close> is positive, because after a full write \<open>i = n\<close> and otherwise it is left.\<close>

definition fat32_filewrite :: "(int \<Rightarrow> (i32 \<Rightarrow> i32) option) \<Rightarrow> nat \<Rightarrow> u8 list \<Rightarrow> i32 \<Rightarrow> vfs \<Rightarrow> (i32 \<times> vfs) res" where
  "fat32_filewrite dwrite i src n v =
     kbind (kget (ftable v) i) (\<lambda>f.
       if \<not> F_WRITEABLE f then Inr (- 1, v)
       else case f_type f of
         FD_DEVICE \<Rightarrow>
           (if f_major f < 0 \<or> f_major f \<ge> NDEV then Inr (- 1, v)
            else case dwrite (f_major f) of None \<Rightarrow> Inr (- 1, v) | Some d \<Rightarrow> Inr (d n, v))
       | FD_INODE \<Rightarrow>
           if sint n \<le> 0 then Inr (if n = 0 then 0 else - 1, v)
           else kbind (deref (f_inode f)) (\<lambda>p.
                kbind (fat32_inode_lock (Some p) (fsys v)) (\<lambda>s.
                kbind (fat32_inode_write p src (f_pos f) n s) (\<lambda>(r, s).
                kbind (fat32_inode_unlock (Some p) s) (\<lambda>s.
                  Inr (if r = n then n else - 1,
                       v\<lparr>fsys := s, ftable := (ftable v)[i := if 0 < sint r then f\<lparr>f_pos := f_pos f + r\<rparr> else f]\<rparr>)))))
       | _ \<Rightarrow> Inl (Panic ''filewrite''))"

section \<open>The working directory\<close>

definition put_bytes :: "nat \<Rightarrow> u8 list \<Rightarrow> u8 list \<Rightarrow> u8 list res" where
  "put_bytes i xs buf = (if i + length xs \<le> length buf then Inr (take i buf @ xs @ drop (i + length xs) buf) else Inl OutOfBounds)"

partial_function (option) get_absolute_path :: "inode list \<Rightarrow> nat \<Rightarrow> u8 list \<Rightarrow> u8 list res option" where
  "get_absolute_path ips p buf =
     (case kget ips p of
        Inl e \<Rightarrow> Some (Inl e)
      | Inr ip \<Rightarrow>
          if (fname ip @ [0]) ! 0 \<noteq> 0x2F
          then (case iparent ip of
                  None \<Rightarrow> Some (Inl NullDeref)
                | Some d \<Rightarrow>
                    Option.bind (get_absolute_path ips d buf) (\<lambda>r.
                      Some (kbind r (\<lambda>buf.
                        let n0 = length (cstring buf); name = cstring (fname ip)
                        in kbind (put_bytes n0 name buf) (put_bytes (n0 + length name) [0x2F, 0])))))
          else Some (put_bytes (length (cstring buf)) (cstring (fname ip)) buf))"

definition fat32_getcwd :: "u8 list \<Rightarrow> vfs \<Rightarrow> u8 list res" where
  "fat32_getcwd buf v =
     kbind (deref (v_cwd v)) (\<lambda>d.
     kbind (run_opt (get_absolute_path (inodes (fsys v)) d buf)) (\<lambda>buf.
       let n = length (cstring buf) in Inr (if n > 1 then buf[n - 1 := 0] else buf)))"

section \<open>Listing a directory\<close>

record dent =
  d_ino :: u64
  d_off :: u64
  d_reclen :: u16
  d_type :: u8
  d_name :: "u8 list"

definition dirent_len :: "u8 list \<Rightarrow> nat" where "dirent_len name = 8 + 8 + 1 + 2 + length name + 1"

text \<open>
  One entry: the inode is brought in, loaded and put back. The name copied has the length of the inode's \<^verbatim>\<open>fname\<close>, which may be the
  longer name of an earlier file.
\<close>

definition list_entry :: "nat \<Rightarrow> u32 \<Rightarrow> nat \<Rightarrow> u8 list \<Rightarrow> u32 \<Rightarrow> u32 \<Rightarrow> fsstate \<Rightarrow> (dent \<times> fsstate) res" where
  "list_entry dp k idx name off cnt s =
     kbind (kget (inodes s) dp) (\<lambda>d.
     kbind (fat32_inode_get (ucast (i_dev d)) (SECTOR_TO_FATINUM (sb s) k (of_nat idx)) name off s) (\<lambda>(p, s).
     kbind (set_inode p (\<lambda>ip. ip\<lparr>iparent := Some dp, i_nlink := 1\<rparr>) s) (\<lambda>s.
     kbind (fat32_inode_lock (Some p) s) (\<lambda>s.
     kbind (kget (inodes s) p) (\<lambda>ip.
       let nm = take (length (cstring (fname ip))) name
       in kbind (fat32_inode_unlock_put p s) (\<lambda>s.
          Inr (\<lparr>d_ino = ucast (i_ino ip), d_off = ucast cnt, d_reclen = of_nat (dirent_len nm), d_type = ucast (i_type ip), d_name = nm\<rparr>, s)))))))"

function list_sector ::
  "nat \<Rightarrow> u32 \<Rightarrow> u32 \<Rightarrow> nat \<Rightarrow> block \<Rightarrow> nat \<Rightarrow> u32 \<Rightarrow> stack_t \<Rightarrow> dent list \<Rightarrow> fsstate \<Rightarrow> ((dent list + u32 \<times> stack_t \<times> dent list) \<times> fsstate) res" where
  "list_sector dp dev k n b idx off st out s =
     (if idx < n
      then if NAME0_FREE_ALL (name0 b idx) then Inr (Inl out, s)
           else kbind (push_longs n b idx off st) (\<lambda>(idx, off, st).
             if idx \<ge> n then Inl OutOfBounds
             else if \<not> LONG_NAME_BOOL (attr_of b idx) \<and> \<not> NAME0_FREE_BOOL (name0 b idx)
             then let d = dirent_s_of b (32 * idx)
                  in kbind (fat32_longname_popstack st (DIR_Name d)) (\<lambda>(ok, nm, st).
                     kbind (list_entry dp k idx (cstring (if ok then nm else fat32_short_name_parser d)) off (of_nat (length out + 1)) s) (\<lambda>(e, s).
                     kbind (fs_rd dev k s) (\<lambda>(b, s). list_sector dp dev k n b (Suc idx) (off + 1) st (out @ [e]) s)))
             else list_sector dp dev k n b (Suc idx) (off + 1) st out s)
      else Inr (Inr (off, st, out), s))"
  by pat_completeness auto
termination
  by (relation "measure (\<lambda>(dp, dev, k, n, b, idx, off, st, out, s). n - idx)") (auto dest!: push_longs_mono)

declare list_sector.simps [simp del]

fun list_cluster :: "nat \<Rightarrow> u32 \<Rightarrow> nat \<Rightarrow> u32 \<Rightarrow> u32 \<times> stack_t \<times> dent list \<Rightarrow> fsstate \<Rightarrow> ((dent list + u32 \<times> stack_t \<times> dent list) \<times> fsstate) res" where
  "list_cluster dp dev 0 k a s = Inr (Inr a, s)"
| "list_cluster dp dev (Suc m) k (off, st, out) s =
     kbind (fs_rd dev k s) (\<lambda>(b, s).
     kbind (list_sector dp dev k (unat (FCB_PER_BLOCK (sb s))) b 0 off st out s) (\<lambda>(r, s).
       case r of Inl out \<Rightarrow> Inr (Inl out, s) | Inr a \<Rightarrow> list_cluster dp dev m (k + 1) a s))"

partial_function (option) list_chain :: "nat \<Rightarrow> u32 \<Rightarrow> u32 \<Rightarrow> u32 \<times> stack_t \<times> dent list \<Rightarrow> fsstate \<Rightarrow> (dent list \<times> fsstate) res option" where
  "list_chain dp dev it a s =
     (if ISEOF it then Some (Inr (snd (snd a), s))
      else (case list_cluster dp dev (unat (sectors_per_block (sb s))) (FirstSectorofCluster (sb s) it) a s of
              Inl e \<Rightarrow> Some (Inl e)
            | Inr (Inl out, s) \<Rightarrow> Some (Inr (out, s))
            | Inr (Inr a, s) \<Rightarrow> (case fat32_next_cluster it s of Inl e \<Rightarrow> Some (Inl e) | Inr (it, s) \<Rightarrow> list_chain dp dev it a s)))"

text \<open>\<^verbatim>\<open>fat32_getdents\<close>: the records it lays out one after the other in \<^verbatim>\<open>buf\<close>, whose length \<open>len\<close> it does not look at, and the number of bytes.\<close>

definition fat32_getdents :: "nat \<Rightarrow> u32 \<Rightarrow> fsstate \<Rightarrow> (nat \<times> dent list \<times> fsstate) res" where
  "fat32_getdents dp len s =
     kbind (kget (inodes s) dp) (\<lambda>d.
       if \<not> DIR_BOOL (Attr d) then Inl (Panic ''getdents : not DIR'')
       else kbind (run_opt (list_chain dp (ucast (i_dev d)) (cluster_start d) (0, stack_init, []) s)) (\<lambda>(out, s).
              Inr (sum_list (map (unat \<circ> d_reclen) out), out, s)))"

section \<open>Path resolution follows the elements of the path\<close>

text \<open>The reference: split at the slashes, drop the leading dots of every part and the parts that are then empty.\<close>

fun split_path :: "u8 list \<Rightarrow> u8 list list" where
  "split_path [] = [[]]"
| "split_path (c # cs) = (if c = 0x2F then [] # split_path cs else (case split_path cs of [] \<Rightarrow> [[c]] | x # xs \<Rightarrow> (c # x) # xs))"

definition path_elements :: "u8 list \<Rightarrow> u8 list list" where
  "path_elements path = filter (\<lambda>x. x \<noteq> []) (map (dropWhile (\<lambda>c. c = 0x2E)) (split_path path))"

fun walk_elements :: "u8 list list \<Rightarrow> nat \<Rightarrow> fsstate \<Rightarrow> (nat option \<times> fsstate) res" where
  "walk_elements [] p s = Inr (Some p, s)"
| "walk_elements (e # es) p s =
     kbind (fat32_inode_lock (Some p) s) (\<lambda>s.
     kbind (kget (inodes s) p) (\<lambda>ip.
       if \<not> fat32_isdir ip then kbind (fat32_inode_unlock_put p s) (\<lambda>s. Inr (None, s))
       else kbind (fat32_inode_dirlookup p e s) (\<lambda>(r, s).
            kbind (fat32_inode_unlock_put p s) (\<lambda>s. case r of None \<Rightarrow> Inr (None, s) | Some (q, off) \<Rightarrow> walk_elements es q s))))"

definition resolve_path :: "u8 list \<Rightarrow> vfs \<Rightarrow> (nat option \<times> vfs) res" where
  "resolve_path path v =
     (case v_cwd v of
        None \<Rightarrow> Inl AssertFail
      | Some d \<Rightarrow>
          kbind (kget (inodes (fsys v)) d) (\<lambda>dip.
          kbind (namex_start path d dip) (\<lambda>start.
            on_fs (\<lambda>s. kbind (fat32_inode_dup start s) (\<lambda>(p, s). walk_elements (path_elements path) p s)) v)))"

lemma split_path_nonempty [simp]: "split_path cs \<noteq> []"
  by (induction cs) (auto split: list.splits)

lemma path_elements_slash [simp]: "path_elements (0x2F # cs) = path_elements cs"
  by (simp add: path_elements_def)

lemma path_elements_dot [simp]: "path_elements (0x2E # cs) = path_elements cs"
  by (cases "split_path cs") (auto simp: path_elements_def)

lemma path_elements_Nil [simp]: "path_elements [] = []"
  by (simp add: path_elements_def)

lemma path_elements_skip: "path_elements (dropWhile (\<lambda>c. c = 0x2F \<or> c = 0x2E) path) = path_elements path"
  by (induction path) auto

lemma path_elements_slashes: "path_elements (dropWhile (\<lambda>c. c = 0x2F) path) = path_elements path"
  by (induction path) auto

lemma split_path_first:
  "split_path p = takeWhile (\<lambda>c. c \<noteq> 0x2F) p # (case dropWhile (\<lambda>c. c \<noteq> 0x2F) p of [] \<Rightarrow> [] | _ # r \<Rightarrow> split_path r)"
  by (induction p) (auto split: list.splits)

lemma path_elements_first:
  assumes "p \<noteq> []" "hd p \<noteq> 0x2F" "hd p \<noteq> 0x2E"
  shows "path_elements p = takeWhile (\<lambda>c. c \<noteq> 0x2F) p # path_elements (dropWhile (\<lambda>c. c \<noteq> 0x2F) p)"
proof -
  have t: "dropWhile (\<lambda>c. c = 0x2E) (takeWhile (\<lambda>c. c \<noteq> 0x2F) p) = takeWhile (\<lambda>c. c \<noteq> 0x2F) p" "takeWhile (\<lambda>c. c \<noteq> 0x2F) p \<noteq> []"
    using assms by (cases p; simp)+
  show ?thesis
  proof (cases "dropWhile (\<lambda>c. c \<noteq> 0x2F) p")
    case Nil
    show ?thesis unfolding path_elements_def split_path_first [of p] Nil using t by simp
  next
    case (Cons c r)
    then have "c = 0x2F" using hd_dropWhile [of "\<lambda>c. c \<noteq> 0x2F" p] by simp
    then show ?thesis unfolding path_elements_def split_path_first [of p] Cons using t by simp
  qed
qed

text \<open>One step of \<^verbatim>\<open>skepelem\<close> takes the first element.\<close>

lemma skepelem_none: "path_elements path = [] \<Longrightarrow> skepelem path = Inr None"
proof (rule ccontr)
  let ?p = "dropWhile (\<lambda>c. c = 0x2F \<or> c = 0x2E) path"
  assume a: "path_elements path = []" and "skepelem path \<noteq> Inr None"
  then have ne: "?p \<noteq> []" unfolding skepelem_def Let_def by (auto simp del: dropWhile_eq_Nil_conv)
  have "path_elements ?p \<noteq> []" using path_elements_first [OF ne] hd_dropWhile [OF ne] by auto
  then show False using a path_elements_skip by simp
qed

lemma skepelem_some:
  assumes "path_elements path = e # es" "length e < NAME_LONG_MAX"
  shows "\<exists>rest. skepelem path = Inr (Some (rest, e)) \<and> path_elements rest = es"
proof -
  let ?p = "dropWhile (\<lambda>c. c = 0x2F \<or> c = 0x2E) path"
  have pe: "path_elements ?p = e # es" using assms(1) path_elements_skip by simp
  then have ne: "?p \<noteq> []" by (metis path_elements_Nil list.distinct(1))
  have hd: "hd ?p \<noteq> 0x2F" "hd ?p \<noteq> 0x2E" using hd_dropWhile [OF ne] by auto
  have e: "e = takeWhile (\<lambda>c. c \<noteq> 0x2F) ?p" and es: "es = path_elements (dropWhile (\<lambda>c. c \<noteq> 0x2F) ?p)"
    using path_elements_first [OF ne hd] pe by auto
  have d: "drop (length e) ?p = dropWhile (\<lambda>c. c \<noteq> 0x2F) ?p" unfolding e by (simp add: dropWhile_eq_drop)
  have "skepelem path = Inr (Some (dropWhile (\<lambda>c. c = 0x2F) (drop (length e) ?p), e))"
    using ne assms(2) by (simp add: skepelem_def Let_def e [symmetric])
  moreover have "path_elements (dropWhile (\<lambda>c. c = 0x2F) (drop (length e) ?p)) = es"
    unfolding d es by (rule path_elements_slashes)
  ultimately show ?thesis by blast
qed

lemma namex_loop_walks:
  assumes "path_elements path = es" "\<forall>e \<in> set es. length e < NAME_LONG_MAX"
  shows "namex_loop p path False s = kbind (walk_elements es p s) (\<lambda>(r, s). Inr (map_option (\<lambda>p. (p, [])) r, s))"
  using assms
proof (induction es arbitrary: p path s)
  case Nil
  then show ?case by (subst namex_loop.simps) (simp add: skepelem_none)
next
  case (Cons e es)
  obtain rest where r: "skepelem path = Inr (Some (rest, e))" "path_elements rest = es"
    using skepelem_some [OF Cons.prems(1)] Cons.prems(2) by auto
  have ih: "namex_loop q rest False s = kbind (walk_elements es q s) (\<lambda>(r, s). Inr (map_option (\<lambda>p. (p, [])) r, s))" for q s
    using Cons.IH [OF r(2)] Cons.prems(2) by auto
  show ?case
    by (subst namex_loop.simps) (simp add: r(1) ih kbind_def split: sum.splits prod.splits option.splits if_splits)
qed

text \<open>
  C35. Resolving a path is walking down its elements from the root, the parent or the working directory: the path is split at the slashes and
  of every part the leading dots are dropped, so that a part made of dots is skipped and a path never goes up on the way.
\<close>

theorem name_to_i_resolves:
  assumes "\<forall>e \<in> set (path_elements path). length e < NAME_LONG_MAX"
  shows "name_to_i path v = resolve_path path v"
proof -
  have w: "namex_loop p path False s = kbind (walk_elements (path_elements path) p s) (\<lambda>(r, s). Inr (map_option (\<lambda>p. (p, [])) r, s))" for p s
    by (rule namex_loop_walks [OF refl assms])
  show ?thesis
    by (auto simp: name_to_i_def inode_namex_def resolve_path_def on_fs_def w kbind_def option.map_comp o_def option.map_ident
        split: sum.splits prod.splits option.splits)
qed

text \<open>Applied to \<^verbatim>\<open>"/a/../b"\<close>, which resolves like \<^verbatim>\<open>"/a/b"\<close>.\<close>

theorem name_to_i_resolves_witness:
  "path_elements [0x2F, 0x61, 0x2F, 0x2E, 0x2E, 0x2F, 0x62] = [[0x61], [0x62]] \<and>
   (\<forall>v. name_to_i [0x2F, 0x61, 0x2F, 0x2E, 0x2E, 0x2F, 0x62] v = resolve_path [0x2F, 0x61, 0x2F, 0x2E, 0x2E, 0x2F, 0x62] v)"
proof -
  have e: "path_elements [0x2F, 0x61, 0x2F, 0x2E, 0x2E, 0x2F, 0x62] = [[0x61], [0x62]]" by (simp add: path_elements_def)
  have "\<forall>e \<in> set (path_elements [0x2F, 0x61, 0x2F, 0x2E, 0x2E, 0x2F, 0x62]). length e < NAME_LONG_MAX"
    unfolding e by (simp add: NAME_LONG_MAX_def)
  then show ?thesis using name_to_i_resolves e by blast
qed

section \<open>Reading an open file\<close>

lemma kget_ok [simp]: "i < length xs \<Longrightarrow> kget xs i = Inr (xs ! i)"
  by (simp add: kget_def)

text \<open>
  Reading an open file: \<open>fat32_fileread\<close> on a readable file whose inode is loaded returns the bytes from the file's position on, at most \<open>n\<close>
  and none past the end, and moves the position of this file by the number it returns, so that the next read goes on where this one ended;
  no other open file and nothing on the medium changes. A negative count, read as unsigned, asks for the whole file.
\<close>

lemma fileread_advances:
  assumes i: "i < length (ftable v)" and rd: "F_READABLE (ftable v ! i)" and ty: "f_type (ftable v ! i) = FD_INODE"
    and ip: "f_inode (ftable v ! i) = Some p" and p: "p < length (inodes (fsys v))"
    and ld: "valid (inodes (fsys v) ! p)" "ref (inodes (fsys v) ! p) \<ge> 1"
    and s: "fsok (fsys v)" and dev: "i_dev (inodes (fsys v) ! p) = s_dev (sb (fsys v))"
    and ch: "fat_chain (fat_of (fsys v)) (FAT_CLUSTER_MAX (sb (fsys v))) (cluster_start (inodes (fsys v) ! p)) cs"
    and sz: "unat (i_size (inodes (fsys v) ! p)) \<le> length (file_bytes (fsys v) cs)" "unat (i_size (inodes (fsys v) ! p)) < 2 ^ 31"
    and w: "unat (f_pos (ftable v ! i)) + unat (i_size (inodes (fsys v) ! p)) < 2 ^ 32"
    and room: "length cs * (unat (sectors_per_block (sb (fsys v))) + 2) \<le> room (fsys v)"
    and bytes: "bytes = take (unat n) (drop (unat (f_pos (ftable v ! i))) (take (unat (i_size (inodes (fsys v) ! p))) (file_bytes (fsys v) cs)))"
  shows "\<exists>t. fat32_fileread dread i n v =
      Inr (of_nat (length bytes), bytes, v\<lparr>fsys := t, ftable := (ftable v)[i := (ftable v ! i)\<lparr>f_pos := f_pos (ftable v ! i) + of_nat (length bytes)\<rparr>]\<rparr>) \<and>
    inodes t = inodes (fsys v) \<and> sectors (io t) = sectors (io (fsys v))"
proof -
  let ?f = "ftable v ! i" and ?ip = "inodes (fsys v) ! p"
  let ?n = "if n > i_size ?ip then i_size ?ip else n"
  have "unat ?n \<le> unat (i_size ?ip)" by (simp add: word_less_nat_alt)
  then have "unat (f_pos ?f) + unat ?n < 2 ^ 32" using w by simp
  from inode_read_total [OF s p dev ch sz(1) this room]
  obtain t where t: "fat32_inode_read p (f_pos ?f) ?n (fsys v) =
      Inr (take (unat ?n) (drop (unat (f_pos ?f)) (take (unat (i_size ?ip)) (file_bytes (fsys v) cs))), t)"
    "inodes t = inodes (fsys v)" "sectors (io t) = sectors (io (fsys v))" by blast
  have "take (unat ?n) (drop (unat (f_pos ?f)) (take (unat (i_size ?ip)) (file_bytes (fsys v) cs))) = bytes"
    unfolding bytes by (simp add: word_less_nat_alt)
  note r = t(1) [unfolded this]
  have "length bytes \<le> unat (i_size ?ip)" unfolding bytes by simp
  then have len: "length bytes < 2 ^ 31" using sz(2) by simp
  then have "sint (of_nat (length bytes) :: 32 word) = int (length bytes)" by (simp add: signed_of_nat signed_take_bit_int_eq_self)
  then have pos: "(if 0 < sint (of_nat (length bytes) :: 32 word) then ?f\<lparr>f_pos := f_pos ?f + of_nat (length bytes)\<rparr> else ?f) =
      ?f\<lparr>f_pos := f_pos ?f + of_nat (length bytes)\<rparr>" by auto
  have "fat32_fileread dread i n v =
      Inr (of_nat (length bytes), bytes, v\<lparr>fsys := t, ftable := (ftable v)[i := ?f\<lparr>f_pos := f_pos ?f + of_nat (length bytes)\<rparr>]\<rparr>)"
    unfolding fat32_fileread_def Let_def
    using i rd ty ip p ld r t(2) pos by (simp add: deref_def fat32_inode_lock_def fat32_inode_unlock_def)
  then show ?thesis using t(2,3) by blast
qed


text \<open>A first read of 64 bytes from the demonstration file.\<close>

definition demo_vfs :: vfs where
  "demo_vfs = \<lparr>fsys = demo_file\<lparr>inodes := [inode0\<lparr>cluster_start := 2, i_dev := 1, i_size := 600, valid := True, ref := 1\<rparr>]\<rparr>,
     ftable = [\<lparr>f_type = FD_INODE, f_mode = 0, f_pos = 580, f_flags = 0, f_count = 1, f_major = 0, f_owner = 0, f_inode = Some 0, f_version = 0\<rparr>],
     ftable_lock = 0, v_cwd = None, v_ofile = [], argregs = []\<rparr>"

lemma demo_vfs_file: "fsok (fsys demo_vfs)" "sb (fsys demo_vfs) = demo_sb" "room (fsys demo_vfs) = room demo_file"
    "fat_chain (fat_of (fsys demo_vfs)) (FAT_CLUSTER_MAX (sb (fsys demo_vfs))) 2 [2, 3]" "file_bytes (fsys demo_vfs) [2, 3] = replicate 1024 0"
proof -
  have f: "FirstSectorofCluster demo_sb 2 = 9" "FirstSectorofCluster demo_sb 3 = 10"
    by (simp_all add: FirstSectorofCluster_def FirstDataSector_def RootDirSectors_def demo_sb_def)
  have "file_bytes (fsys demo_vfs) [2, 3] = replicate 512 0 @ replicate 512 0"
    by (simp add: demo_vfs_def file_bytes_def cluster_bytes_def f secs_Suc demo_media_def)
  then show "file_bytes (fsys demo_vfs) [2, 3] = replicate 1024 0" by (simp add: replicate_add [symmetric])
  have "fat_of (fsys demo_vfs) = fat_of demo_file" by (simp add: demo_vfs_def fun_eq_iff fat_of_def)
  then show "fat_chain (fat_of (fsys demo_vfs)) (FAT_CLUSTER_MAX (sb (fsys demo_vfs))) 2 [2, 3]"
    by (simp add: demo_vfs_def demo_entry demo_max ISEOF_def)
  show "fsok (fsys demo_vfs)" using demo_file_sel(5) by (simp add: demo_vfs_def fsok_def)
  show "sb (fsys demo_vfs) = demo_sb" by (simp add: demo_vfs_def)
  show "room (fsys demo_vfs) = room demo_file" by (simp add: demo_vfs_def)
qed

lemma demo_vfs_sel: "inodes (fsys demo_vfs) = [inode0\<lparr>cluster_start := 2, i_dev := 1, i_size := 600, valid := True, ref := 1\<rparr>]"
    "ftable demo_vfs = [\<lparr>f_type = FD_INODE, f_mode = 0, f_pos = 580, f_flags = 0, f_count = 1, f_major = 0, f_owner = 0, f_inode = Some 0, f_version = 0\<rparr>]"
  by (simp_all add: demo_vfs_def)

lemma fileread_advances_example:
  "\<exists>w. fat32_fileread (\<lambda>_. None) 0 64 demo_vfs = Inr (20, replicate 20 0, w) \<and> f_pos (ftable w ! 0) = 600"
proof -
  have b: "replicate 20 0 = take (unat (64 :: u32)) (drop (unat (f_pos (ftable demo_vfs ! 0)))
      (take (unat (i_size (inodes (fsys demo_vfs) ! 0))) (file_bytes (fsys demo_vfs) [2, 3])))"
    by (simp add: demo_vfs_file demo_vfs_sel)
  have ch: "fat_chain (fat_of (fsys demo_vfs)) (FAT_CLUSTER_MAX (sb (fsys demo_vfs))) (cluster_start (inodes (fsys demo_vfs) ! 0)) [2, 3]"
    using demo_vfs_file(4) by (auto simp: demo_vfs_sel)
  have "\<exists>t. fat32_fileread (\<lambda>_. None) 0 64 demo_vfs =
      Inr (of_nat (length (replicate 20 (0 :: u8))), replicate 20 0, demo_vfs\<lparr>fsys := t, ftable := (ftable demo_vfs)[0 := (ftable demo_vfs ! 0)\<lparr>f_pos :=
        f_pos (ftable demo_vfs ! 0) + of_nat (length (replicate 20 (0 :: u8)))\<rparr>]\<rparr>) \<and>
    inodes t = inodes (fsys demo_vfs) \<and> sectors (io t) = sectors (io (fsys demo_vfs))"
    by (rule fileread_advances [where p = 0 and cs = "[2, 3]", OF _ _ _ _ _ _ _ demo_vfs_file(1) _ ch _ _ _ _ b])
      (simp_all add: demo_vfs_file demo_vfs_sel F_READABLE_def O_WRONLY_def)
  then show ?thesis by (auto simp: demo_vfs_sel)
qed

end
