(* ===== verification/Uart.thy ===== *)
theory Uart
  imports Prelude
begin

text \<open>
  The serial port driver \<^verbatim>\<open>src/driver/uart.c\<close> with the registers of \<^verbatim>\<open>src/include/print/uart.h\<close>. The device behind the registers is
  hardware: it is a parameter, a pair of functions that read and write a register of a device state, because a read can change the device
  (reading the receive register takes the byte out of the queue). What the driver relies on is the predicate \<open>serial_port\<close>.
\<close>

section \<open>Registers\<close>

definition RHR :: nat where "RHR = 0"
definition THR :: nat where "THR = 0"
definition DLL :: nat where "DLL = 0"
definition IER :: nat where "IER = 1"
definition DLM :: nat where "DLM = 1"
definition LCR :: nat where "LCR = 3"
definition LSR :: nat where "LSR = 5"
definition LSR_RX :: u8 where "LSR_RX = 1"
definition LSR_TX :: u8 where "LSR_TX = push_bit 5 1"

record 'd uart_dev =
  uart_read_reg :: "nat \<Rightarrow> 'd \<Rightarrow> u8 \<times> 'd"
  uart_write_reg :: "nat \<Rightarrow> u8 \<Rightarrow> 'd \<Rightarrow> 'd"

section \<open>The driver\<close>

definition Init_uart :: "'d uart_dev \<Rightarrow> 'd \<Rightarrow> 'd" where
  "Init_uart d s =
     (let s = uart_write_reg d IER 0 s;
          (lcr, s) = uart_read_reg d LCR s;
          s = uart_write_reg d LCR (lcr OR push_bit 7 1) s;
          s = uart_write_reg d DLL 3 s;
          s = uart_write_reg d DLM 0 s;
          s = uart_write_reg d LCR (0 OR push_bit 0 3) s;
          (ier, s) = uart_read_reg d IER s
      in uart_write_reg d IER (ier OR push_bit 0 1) s)"

text \<open>The loop of \<^verbatim>\<open>uart_putc\<close> that polls the line status; \<open>None\<close> when the transmitter never gets ready.\<close>

partial_function (option) wait_tx :: "'d uart_dev \<Rightarrow> 'd \<Rightarrow> 'd option" where
  "wait_tx d s = (case uart_read_reg d LSR s of (v, s') \<Rightarrow> if v AND LSR_TX = 0 then wait_tx d s' else Some s')"

definition uart_putc :: "'d uart_dev \<Rightarrow> u8 \<Rightarrow> 'd \<Rightarrow> (int \<times> 'd) option" where
  "uart_putc d ch s = Option.bind (wait_tx d s) (\<lambda>s. Some (uint ch, uart_write_reg d THR ch s))"

text \<open>\<^verbatim>\<open>uart_puts\<close> on the bytes of the string before its terminator.\<close>

fun uart_puts :: "'d uart_dev \<Rightarrow> u8 list \<Rightarrow> 'd \<Rightarrow> 'd option" where
  "uart_puts d [] s = Some s"
| "uart_puts d (c # cs) s = Option.bind (uart_putc d c s) (\<lambda>(_, s). uart_puts d cs s)"

definition uart_getc :: "'d uart_dev \<Rightarrow> 'd \<Rightarrow> int \<times> 'd" where
  "uart_getc d s =
     (case uart_read_reg d LSR s of (v, s) \<Rightarrow>
        if v AND LSR_RX \<noteq> 0 then (case uart_read_reg d RHR s of (c, s) \<Rightarrow> (uint c, s)) else (- 1, s))"

partial_function (option) uart_console :: "'d uart_dev \<Rightarrow> 'd \<Rightarrow> 'd option" where
  "uart_console d s =
     (case uart_getc d s of (c, s) \<Rightarrow>
        if c = - 1 then Some s else Option.bind (uart_putc d (of_int c) s) (\<lambda>(_, s). uart_console d s))"

section \<open>What the driver relies on\<close>

text \<open>
  \<open>rx\<close> is the queue of received bytes, \<open>tx\<close> what was sent, \<open>busy\<close> the number of times the status will still report that the
  transmitter is not ready. Reading the status tells whether \<open>rx\<close> is empty and whether the transmitter is ready, reading the receive register
  takes the first byte out of the queue, and a byte written while the transmitter is ready is sent (and keeps it busy for any finite time).
\<close>

definition serial_port :: "'d uart_dev \<Rightarrow> ('d \<Rightarrow> u8 list) \<Rightarrow> ('d \<Rightarrow> u8 list) \<Rightarrow> ('d \<Rightarrow> nat) \<Rightarrow> bool" where
  "serial_port d rx tx busy \<longleftrightarrow>
     (\<forall>s. case uart_read_reg d LSR s of (v, s') \<Rightarrow>
        (v AND LSR_RX = 0 \<longleftrightarrow> rx s = []) \<and> (v AND LSR_TX = 0 \<longleftrightarrow> busy s \<noteq> 0) \<and> rx s' = rx s \<and> tx s' = tx s \<and> busy s' = busy s - 1) \<and>
     (\<forall>s. rx s \<noteq> [] \<longrightarrow> (case uart_read_reg d RHR s of (c, s') \<Rightarrow> c = hd (rx s) \<and> rx s' = tl (rx s) \<and> tx s' = tx s)) \<and>
     (\<forall>s c. busy s = 0 \<longrightarrow> rx (uart_write_reg d THR c s) = rx s \<and> tx (uart_write_reg d THR c s) = tx s @ [c])"

lemma port_status:
  assumes "serial_port d rx tx busy" "uart_read_reg d LSR s = (v, s')"
  shows "v AND LSR_RX = 0 \<longleftrightarrow> rx s = []" "v AND LSR_TX = 0 \<longleftrightarrow> busy s \<noteq> 0" "rx s' = rx s" "tx s' = tx s" "busy s' = busy s - 1"
  using conjunct1 [OF assms(1) [unfolded serial_port_def], THEN spec, of s] assms(2) by simp_all

lemma port_receive:
  assumes "serial_port d rx tx busy" "uart_read_reg d RHR s = (c, s')" "rx s \<noteq> []"
  shows "c = hd (rx s)" "rx s' = tl (rx s)" "tx s' = tx s"
  using conjunct1 [OF conjunct2 [OF assms(1) [unfolded serial_port_def]], THEN spec, of s] assms(2,3) by simp_all

lemma wait_tx_ready:
  assumes "serial_port d rx tx busy"
  shows "\<exists>t. wait_tx d s = Some t \<and> rx t = rx s \<and> tx t = tx s \<and> busy t = 0"
proof (induction "busy s" arbitrary: s)
  case 0
  obtain v s' where r: "uart_read_reg d LSR s = (v, s')" by fastforce
  have "v AND LSR_TX \<noteq> 0" "rx s' = rx s" "tx s' = tx s" "busy s' = 0" using port_status [OF assms r] 0 by simp_all
  then show ?case by (subst wait_tx.simps) (simp add: r)
next
  case (Suc n)
  obtain v s' where r: "uart_read_reg d LSR s = (v, s')" by fastforce
  have p: "v AND LSR_TX = 0" "rx s' = rx s" "tx s' = tx s" "n = busy s'"
    using port_status [OF assms r] Suc.hyps(2) by simp_all
  show ?case using Suc.hyps(1) [OF p(4)] p by (subst wait_tx.simps) (simp add: r)
qed

lemma putc_sends:
  assumes "serial_port d rx tx busy"
  shows "\<exists>t. uart_putc d c s = Some (uint c, t) \<and> rx t = rx s \<and> tx t = tx s @ [c]"
  using wait_tx_ready [OF assms, of s] assms by (auto simp: uart_putc_def serial_port_def)

lemma puts_sends:
  assumes "serial_port d rx tx busy"
  shows "\<exists>t. uart_puts d cs s = Some t \<and> rx t = rx s \<and> tx t = tx s @ cs"
proof (induction cs arbitrary: s)
  case (Cons c cs)
  obtain u where u: "uart_putc d c s = Some (uint c, u)" "rx u = rx s" "tx u = tx s @ [c]" using putc_sends [OF assms] by blast
  then show ?case using Cons.IH [of u] by auto
qed simp

lemma getc_takes:
  assumes "serial_port d rx tx busy"
  shows "\<exists>t. uart_getc d s = (case rx s of [] \<Rightarrow> - 1 | c # _ \<Rightarrow> uint c, t) \<and> rx t = tl (rx s) \<and> tx t = tx s"
proof -
  obtain v s' where r: "uart_read_reg d LSR s = (v, s')" by fastforce
  obtain c t where g: "uart_read_reg d RHR s' = (c, t)" by fastforce
  note p = port_status [OF assms r] and q = port_receive [OF assms g]
  show ?thesis using p(1,3,4) q by (cases "rx s") (simp_all add: uart_getc_def r g)
qed

text \<open>
  C36. The keyboard interrupt echoes: \<open>uart_console\<close> ends, after it has sent every byte that was in the receive queue, in the order of
  arrival and nothing else, however long the transmitter stays busy before each byte.
\<close>

theorem uart_console_echoes:
  assumes "serial_port d rx tx busy"
  shows "\<exists>t. uart_console d s = Some t \<and> rx t = [] \<and> tx t = tx s @ rx s"
proof (induction "rx s" arbitrary: s)
  case Nil
  have rx: "rx s = []" using Nil by simp
  obtain t where "uart_getc d s = (- 1, t)" "rx t = []" "tx t = tx s" using getc_takes [OF assms, of s] unfolding rx by auto
  then show ?case using rx by (subst uart_console.simps) simp
next
  case (Cons c cs)
  have rx: "rx s = c # cs" using Cons.hyps(2) by simp
  obtain t where g: "uart_getc d s = (uint c, t)" "rx t = cs" "tx t = tx s" using getc_takes [OF assms, of s] unfolding rx by auto
  obtain u where u: "uart_putc d c t = Some (uint c, u)" "rx u = rx t" "tx u = tx t @ [c]" using putc_sends [OF assms] by blast
  have ne: "uint c \<noteq> - 1" using uint_nonnegative [of c] by linarith
  have "cs = rx u" using g(2) u(2) by simp
  from Cons.hyps(1) [OF this] obtain w where w: "uart_console d u = Some w" "rx w = []" "tx w = tx u @ rx u" by blast
  have "uart_console d s = Some w" by (subst uart_console.simps) (simp add: g(1) ne u(1) w(1))
  then show ?case using w g u rx by simp
qed

text \<open>A port with a queue of received bytes whose transmitter is busy twice after every byte.\<close>

definition demo_port :: "(u8 list \<times> u8 list \<times> nat) uart_dev" where
  "demo_port = \<lparr>
     uart_read_reg = (\<lambda>r (i, out, b).
       if r = LSR then ((if i = [] then 0 else LSR_RX) OR (if b = 0 then LSR_TX else 0), i, out, b - 1)
       else if i = [] then (0, i, out, b) else (hd i, tl i, out, b)),
     uart_write_reg = (\<lambda>r c (i, out, b). if r = THR \<and> b = 0 then (i, out @ [c], 2) else (i, out, b))\<rparr>"

lemma demo_port_serial: "serial_port demo_port fst (fst \<circ> snd) (snd \<circ> snd)"
  by (auto simp: serial_port_def demo_port_def LSR_def RHR_def THR_def LSR_RX_def LSR_TX_def bit.conj_disj_distrib2)

theorem uart_console_echoes_witness:
  "\<exists>t. uart_console demo_port ([104, 105], [62], 3) = Some t \<and> fst t = [] \<and> fst (snd t) = [62, 104, 105]"
  using uart_console_echoes [OF demo_port_serial, of "([104, 105], [62], 3)"] by simp

end
