(* ===== verification/Paging.thy ===== *)
theory Paging
  imports Malloc
begin

text \<open>
  Page tables: \<^verbatim>\<open>src/mm/pg.c\<close> with \<^verbatim>\<open>src/include/mm/pg.h\<close>. A pointer to an entry is its address in the heap memory of the
  allocators, of which a word is an entry; \<^verbatim>\<open>kalloc\<close> hands out the entries of the kernel's table one after the other, counted by \<^verbatim>\<open>page_num\<close>.
\<close>

section \<open>Entries\<close>

definition PAGE_OFF :: nat where "PAGE_OFF = 12"
definition PTE_X :: u64 where "PTE_X = push_bit 3 1"
definition PTE_W :: u64 where "PTE_W = push_bit 2 1"
definition PTE_R :: u64 where "PTE_R = push_bit 1 1"
definition PTE_V :: u64 where "PTE_V = push_bit 0 1"

definition PAGE_ALIGN :: "u64 \<Rightarrow> u64" where "PAGE_ALIGN a = a AND 0xFFFFFFFFFFFFF000"

record vm =
  vheap :: mstate
  page_num :: u32
  kernel_page_table :: u64
  satp :: u64

definition pte_at :: "vm \<Rightarrow> u64 \<Rightarrow> u64" where "pte_at s a = hmem (pg (vheap s)) a"

definition pte_put :: "u64 \<Rightarrow> u64 \<Rightarrow> vm \<Rightarrow> vm" where
  "pte_put a v s = s\<lparr>vheap := (vheap s)\<lparr>pg := (pg (vheap s))\<lparr>hmem := (hmem (pg (vheap s)))(a := v)\<rparr>\<rparr>\<rparr>"

section \<open>Mapping\<close>

definition kalloc :: "vm \<Rightarrow> u64 \<times> vm" where
  "kalloc s = (kernel_page_table s + 8 * ucast (page_num s), s\<lparr>page_num := page_num s + 1\<rparr>)"

definition get_pagenum :: "u64 \<Rightarrow> u32" where "get_pagenum va = ucast (drop_bit PAGE_OFF va AND 0x1FF)"

definition get_addr :: "u32 \<Rightarrow> u64 \<Rightarrow> u64" where "get_addr num base_addr = base_addr + ucast (num * 4096)"

text \<open>The address of the entry to use, 0 for \<^verbatim>\<open>NULL\<close>: an entry that is not valid is replaced by the next one that \<^verbatim>\<open>kalloc\<close> gives.\<close>

definition virt_to_phys :: "u64 \<Rightarrow> u64 \<Rightarrow> vm \<Rightarrow> u64 \<times> vm" where
  "virt_to_phys table va s =
     (let pte = table + 8 * ucast (get_pagenum va); e = pte_at s pte
      in if e AND PTE_V \<noteq> 0 then if e AND PTE_R \<noteq> 0 \<or> e AND PTE_X \<noteq> 0 then (pte, s) else (0, s) else kalloc s)"

definition new_pte :: "u64 \<Rightarrow> u64 \<Rightarrow> u64" where
  "new_pte pa mode = push_bit 10 (drop_bit PAGE_OFF pa) OR PTE_V OR PTE_X OR mode"

text \<open>The loop of \<^verbatim>\<open>map\<close>, which does not end when the last page is the last one of the address space.\<close>

partial_function (option) map_loop :: "u64 \<Rightarrow> u64 \<Rightarrow> u64 \<Rightarrow> u64 \<Rightarrow> u64 \<Rightarrow> vm \<Rightarrow> vm res option" where
  "map_loop table pglast mode pgstart pa s =
     (if pgstart \<le> pglast
      then (case virt_to_phys table pgstart s of (p, s) \<Rightarrow>
              if p = 0 then Some (Inl NullDeref)
              else map_loop table pglast mode (pgstart + 4096) (pa + 4096) (pte_put p (new_pte pa mode) s))
      else Some (Inr s))"

definition map_pages :: "u64 \<Rightarrow> u64 \<Rightarrow> u64 \<Rightarrow> u64 \<Rightarrow> u64 \<Rightarrow> vm \<Rightarrow> vm res option" where
  "map_pages table va pa sz mode s = map_loop table (PAGE_ALIGN (va + sz - 1)) mode (PAGE_ALIGN va) pa s"

text \<open>\<^verbatim>\<open>memset(p, 0, 8 * n)\<close> on words.\<close>

fun zero_words :: "nat \<Rightarrow> u64 \<Rightarrow> vm \<Rightarrow> vm" where
  "zero_words 0 p s = s"
| "zero_words (Suc n) p s = zero_words n (p + 8) (pte_put p 0 s)"

text \<open>\<^verbatim>\<open>sizeof(PAGE_SIZE)\<close> is the size of an \<^verbatim>\<open>int\<close>, 4, although a page is cleared and filled. \<open>ustart\<close> is \<^verbatim>\<open>USER_START\<close>.\<close>

definition Init_page_table :: "u32 \<Rightarrow> vm \<Rightarrow> vm res option" where
  "Init_page_table ustart s =
     (case kmalloc 4 (vheap s) of
        Inl e \<Rightarrow> Some (Inl e)
      | Inr (p, h) \<Rightarrow>
          if p = 0 then Some (Inl NullDeref)
          else map_pages p 0 (ucast ustart) (4096 * 512) (PTE_X OR PTE_R OR PTE_W) (zero_words 512 p (s\<lparr>vheap := h, kernel_page_table := p\<rparr>)))"

definition Init_vm :: "vm \<Rightarrow> vm" where
  "Init_vm s = s\<lparr>page_num := 0, satp := drop_bit 12 (kernel_page_table s) OR push_bit 60 8\<rparr>"

section \<open>The kernel's table\<close>

text \<open>What the table says about an address: its entry's frame and the offset.\<close>

definition pt_translate :: "vm \<Rightarrow> u64 \<Rightarrow> u64" where
  "pt_translate s va = push_bit 12 (drop_bit 10 (pte_at s (kernel_page_table s + 8 * ucast (get_pagenum va)))) + (va AND 0xFFF)"

lemma pte_at_put [simp]: "pte_at (pte_put a v s) b = (if b = a then v else pte_at s b)"
  by (simp add: pte_at_def pte_put_def)

lemma pte_put_sel [simp]: "page_num (pte_put a v s) = page_num s" "kernel_page_table (pte_put a v s) = kernel_page_table s"
  by (simp_all add: pte_put_def)

definition entry_addr :: "u64 \<Rightarrow> nat \<Rightarrow> u64" where "entry_addr p i = p + 8 * of_nat i"

lemma unat_small64: "n < 2 ^ 64 \<Longrightarrow> unat (of_nat n :: u64) = n"
  by (simp add: unat_of_nat)

lemma entry_offset: "8 * of_nat i = (of_nat (8 * i) :: u64)"
  by simp

lemma entry_addr_inj: "i < 512 \<Longrightarrow> j < 512 \<Longrightarrow> entry_addr p i = entry_addr p j \<longleftrightarrow> i = j"
proof -
  assume a: "i < 512" "j < 512"
  have "(of_nat (8 * i) :: u64) = of_nat (8 * j) \<longleftrightarrow> unat (of_nat (8 * i) :: u64) = unat (of_nat (8 * j) :: u64)" by (rule word_unat_eq_iff)
  also have "\<dots> \<longleftrightarrow> i = j" using a unat_small64 [of "8 * i"] unat_small64 [of "8 * j"] by auto
  finally show ?thesis by (simp only: entry_addr_def entry_offset add_left_cancel)
qed

lemma entry_addr_nz: "p \<noteq> 0 \<Longrightarrow> unat p + 4096 \<le> 2 ^ 64 \<Longrightarrow> i < 512 \<Longrightarrow> entry_addr p i \<noteq> 0"
proof -
  assume a: "p \<noteq> 0" "unat p + 4096 \<le> 2 ^ 64" "i < 512"
  have i: "unat (of_nat (8 * i) :: u64) = 8 * i" using a(3) by (intro unat_small64) simp
  have "unat (p + of_nat (8 * i)) = unat p + 8 * i" using a i by (subst unat_add_lem [THEN iffD1]) auto
  moreover have "unat p \<noteq> 0" using a(1) by (simp add: unat_eq_0)
  ultimately have "p + of_nat (8 * i) \<noteq> 0" by (metis add_is_0 unat_0)
  then show ?thesis unfolding entry_addr_def entry_offset .
qed

lemma page_no: "unat va < 4096 * 512 \<Longrightarrow> unat (get_pagenum va) = unat va div 4096"
proof -
  assume a: "unat va < 4096 * 512"
  have "unat (drop_bit 12 va) = drop_bit 12 (take_bit 64 (unat va))" by (simp add: unsigned_drop_bit_eq)
  also have "\<dots> = unat va div 4096" using unat_bound [of va] by (simp add: drop_bit_eq_div take_bit_nat_eq_self)
  finally have d: "unat (drop_bit 12 va) = unat va div 4096" .
  have m: "(0x1FF :: u64) = mask 9" by (simp add: mask_eq_exp_minus_1)
  have "unat (drop_bit 12 va AND 0x1FF) = unat va div 4096 mod 512"
    unfolding m take_bit_eq_mask [symmetric] unsigned_take_bit_eq d by (simp add: take_bit_eq_mod)
  then show ?thesis using a by (simp add: get_pagenum_def PAGE_OFF_def unat_ucast_mod)
qed

lemma page_no_nat: "i < 512 \<Longrightarrow> ucast (get_pagenum (of_nat (4096 * i))) = (of_nat i :: u64)"
proof -
  assume a: "i < 512"
  have "unat (of_nat (4096 * i) :: u64) = 4096 * i" using a by (intro unat_small64) simp
  then have "unat (get_pagenum (of_nat (4096 * i))) = i" using page_no [of "of_nat (4096 * i)"] a by simp
  then have "unat (ucast (get_pagenum (of_nat (4096 * i))) :: u64) = unat (of_nat i :: u64)" using unat_small64 [of i] a by (simp add: unat_ucast_up)
  then show ?thesis by (simp only: word_unat_eq_iff)
qed

lemma zero_words_sel: "kernel_page_table (zero_words n p s) = kernel_page_table s" "page_num (zero_words n p s) = page_num s"
  by (induction n arbitrary: p s) simp_all

lemma zero_words_at: "pte_at (zero_words n p s) a = (if \<exists>i < n. a = entry_addr p i then 0 else pte_at s a)"
proof (induction n arbitrary: p s)
  case (Suc n)
  have e: "entry_addr (p + 8) i = entry_addr p (Suc i)" for i by (simp add: entry_addr_def)
  have z: "entry_addr p 0 = p" by (simp add: entry_addr_def)
  show ?case by (auto simp: Suc.IH e z less_Suc_eq_0_disj)
qed simp

lemma map_loop_table:
  assumes "i \<le> 512" "kernel_page_table s = p" "page_num s = of_nat i" "p \<noteq> 0" "unat p + 4096 \<le> 2 ^ 64"
    and "\<forall>j. i \<le> j \<and> j < 512 \<longrightarrow> pte_at s (entry_addr p j) = 0"
  shows "\<exists>t. map_loop p (of_nat (4096 * 511)) mode (of_nat (4096 * i)) pa s = Some (Inr t) \<and> kernel_page_table t = p \<and>
    (\<forall>j < i. pte_at t (entry_addr p j) = pte_at s (entry_addr p j)) \<and>
    (\<forall>j. i \<le> j \<and> j < 512 \<longrightarrow> pte_at t (entry_addr p j) = new_pte (pa + of_nat (4096 * (j - i))) mode)"
  using assms
proof (induction "512 - i" arbitrary: i s pa)
  case 0
  then have i: "i = 512" by simp
  have "\<not> (of_nat (4096 * 512) :: u64) \<le> of_nat (4096 * 511)" by simp
  then have "map_loop p (of_nat (4096 * 511)) mode (of_nat (4096 * i)) pa s = Some (Inr s)" unfolding i by (subst map_loop.simps) simp
  then show ?case using 0 i by auto
next
  case (Suc k)
  then have i: "i < 512" by simp
  let ?a = "entry_addr p i" and ?e = "new_pte pa mode"
  let ?u = "pte_put ?a ?e (s\<lparr>page_num := page_num s + 1\<rparr>)"
  have le: "(of_nat (4096 * i) :: u64) \<le> of_nat (4096 * 511)"
    using i unat_small64 [of "4096 * i"] by (simp add: word_le_nat_alt del: of_nat_mult)
  have at: "p + 8 * ucast (get_pagenum (of_nat (4096 * i))) = ?a" unfolding page_no_nat [OF i] entry_addr_def ..
  have e0: "pte_at s ?a = 0" using Suc.prems(6) i by simp
  have u32: "(ucast (of_nat i :: u32) :: u64) = of_nat i" using i by (simp add: word_unat_eq_iff unat_ucast_up unat_of_nat)
  have v: "virt_to_phys p (of_nat (4096 * i)) s = (?a, s\<lparr>page_num := page_num s + 1\<rparr>)"
    unfolding virt_to_phys_def Let_def at e0 using Suc.prems(2,3) u32 by (simp add: kalloc_def entry_addr_def)
  have step: "map_loop p (of_nat (4096 * 511)) mode (of_nat (4096 * i)) pa s =
      map_loop p (of_nat (4096 * 511)) mode (of_nat (4096 * Suc i)) (pa + 4096) ?u"
    using le v entry_addr_nz [OF Suc.prems(4,5) i] by (subst map_loop.simps) (simp add: algebra_simps)
  have k: "k = 512 - Suc i" using Suc.hyps(2) by simp
  have z: "\<forall>j. Suc i \<le> j \<and> j < 512 \<longrightarrow> pte_at ?u (entry_addr p j) = 0"
    using Suc.prems(6) entry_addr_inj i by (simp add: pte_at_def pte_put_def)
  have "Suc i \<le> 512" "kernel_page_table ?u = p" "page_num ?u = of_nat (Suc i)" using i Suc.prems(2,3) by simp_all
  from Suc.hyps(1) [OF k this Suc.prems(4,5) z, of "pa + 4096"] obtain t where t:
    "map_loop p (of_nat (4096 * 511)) mode (of_nat (4096 * Suc i)) (pa + 4096) ?u = Some (Inr t)" "kernel_page_table t = p"
    "\<forall>j < Suc i. pte_at t (entry_addr p j) = pte_at ?u (entry_addr p j)"
    "\<forall>j. Suc i \<le> j \<and> j < 512 \<longrightarrow> pte_at t (entry_addr p j) = new_pte (pa + 4096 + of_nat (4096 * (j - Suc i))) mode"
    by blast
  have "pte_at t (entry_addr p j) = pte_at s (entry_addr p j)" if "j < i" for j
    using t(3) that i entry_addr_inj [of j i] by (simp add: pte_at_def pte_put_def)
  moreover have "pte_at t (entry_addr p j) = new_pte (pa + of_nat (4096 * (j - i))) mode" if j: "i \<le> j" "j < 512" for j
  proof (cases "j = i")
    case False
    then have "j - i = Suc (j - Suc i)" using j by simp
    then have "pa + 4096 + of_nat (4096 * (j - Suc i)) = pa + of_nat (4096 * (j - i))" by simp
    then show ?thesis using t(4) j False by (metis Suc_leI le_neq_implies_less)
  qed (use t(3) in simp)
  ultimately show ?case using step t(1,2) by auto
qed

lemma new_pte_frame: "drop_bit 10 (new_pte pa (PTE_X OR PTE_R OR PTE_W)) = drop_bit 12 pa"
proof -
  have m: "PTE_V OR PTE_X OR (PTE_X OR PTE_R OR PTE_W) = (0xF :: u64)" by (simp add: PTE_V_def PTE_X_def PTE_R_def PTE_W_def)
  have "drop_bit 10 (push_bit 10 (drop_bit 12 pa)) = drop_bit 12 pa" for pa :: u64
    by (rule bit_word_eqI) (auto simp: bit_simps dest: bit_imp_le_length)
  moreover have "drop_bit 10 (0xF :: u64) = 0" by (simp add: drop_bit_eq_div)
  ultimately show ?thesis unfolding new_pte_def PAGE_OFF_def m [symmetric] by (simp only: or.assoc m drop_bit_or or.right_neutral)
qed

lemma new_pte_flags: "new_pte pa (PTE_X OR PTE_R OR PTE_W) AND 0x3FF = 0xF"
proof -
  have m: "PTE_V OR PTE_X OR (PTE_X OR PTE_R OR PTE_W) = (0xF :: u64)" by (simp add: PTE_V_def PTE_X_def PTE_R_def PTE_W_def)
  have "(0x3FF :: u64) = mask 10" by (simp add: mask_eq_exp_minus_1)
  moreover have "push_bit 10 y AND mask 10 = 0" for y :: u64 by (rule bit_word_eqI) (auto simp: bit_simps)
  moreover have "(0xF :: u64) AND mask 10 = 0xF" by (simp add: mask_eq_exp_minus_1)
  ultimately show ?thesis unfolding new_pte_def by (simp only: or.assoc m bit.conj_disj_distrib2 or.left_neutral)
qed

lemma frame_plus:
  fixes u :: u32 and va :: u64
  assumes "unat va < 4096 * 512"
  shows "push_bit 12 (drop_bit 12 (ucast u + of_nat (4096 * (unat va div 4096)))) + (va AND 0xFFF) = PAGE_ALIGN (ucast u) + va"
proof -
  have m: "(0xFFF :: u64) = mask 12" "(0xFFFFFFFFFFFFF000 :: u64) = NOT (mask 12)" by (simp_all add: mask_eq_exp_minus_1)
  have ub: "unat u < 2 ^ 32" using unat_bound [of u] by simp
  have k: "unat (of_nat (4096 * (unat va div 4096)) :: u64) = 4096 * (unat va div 4096)" using assms by (intro unat_small64) simp
  have s: "unat (ucast u + of_nat (4096 * (unat va div 4096)) :: u64) = unat u + 4096 * (unat va div 4096)"
    using k ub assms by (subst unat_add_lem [THEN iffD1]) simp_all
  have l: "unat (push_bit 12 (drop_bit 12 (ucast u + of_nat (4096 * (unat va div 4096)) :: u64))) = unat u div 4096 * 4096 + 4096 * (unat va div 4096)"
    unfolding and_not_mask_eq [symmetric] unat_and_not_mask s by simp
  have r: "unat (PAGE_ALIGN (ucast u)) = unat u div 4096 * 4096" unfolding PAGE_ALIGN_def m unat_and_not_mask by simp
  have o: "unat (va AND 0xFFF) = unat va mod 4096" unfolding m take_bit_eq_mask [symmetric] unsigned_take_bit_eq by (simp add: take_bit_eq_mod)
  have le: "unat u div 4096 * 4096 \<le> unat u" by simp
  show ?thesis
  proof (subst word_unat_eq_iff)
    have "unat (push_bit 12 (drop_bit 12 (ucast u + of_nat (4096 * (unat va div 4096)))) + (va AND 0xFFF)) =
        unat u div 4096 * 4096 + 4096 * (unat va div 4096) + unat va mod 4096"
      using l o le ub assms by (subst unat_add_lem [THEN iffD1]) simp_all
    also have "\<dots> = unat u div 4096 * 4096 + unat va" by simp
    also have "\<dots> = unat (PAGE_ALIGN (ucast u) + va)" using r le ub assms by (subst unat_add_lem [THEN iffD1]) simp_all
    finally show "unat (push_bit 12 (drop_bit 12 (ucast u + of_nat (4096 * (unat va div 4096)))) + (va AND 0xFFF)) =
        unat (PAGE_ALIGN (ucast u) + va)" .
  qed
qed


text \<open>With an empty heap and \<^verbatim>\<open>USER_START\<close> at \<open>0x80400000\<close>, the address \<open>0x1234\<close> is mapped to \<open>0x80401234\<close>.\<close>

definition demo_vm :: vm where
  "demo_vm = \<lparr>vheap = heap_empty, page_num = 0, kernel_page_table = 0, satp = 0\<rparr>"

lemma kmalloc_empty_low: "unat len \<le> 4096 \<Longrightarrow> \<exists>p h. kmalloc len heap_empty = Inr (p, h) \<and> p \<noteq> 0 \<and> unat p + 4096 \<le> 2 ^ 64"
proof -
  assume "unat len \<le> 4096"
  from kmalloc_cases [OF heap_empty_minv this] obtain p h b P
    where k: "kmalloc len heap_empty = Inr (p, h)" "b < 10" "page_ok P" "p \<in> objects P (sizes ! b)"
    using pool4_two_pages by blast
  obtain i where i: "i < 4096 div (sizes ! b)" "p = P + of_nat (i * (sizes ! b))" using k(4) by (auto simp: objects_def)
  have sz: "sizes ! b \<le> 4096" using sizes_facts(2) k(2) by blast
  have "unat p \<le> unat P + 4096" using object_unat [OF k(3) i(1) sz] i(2) by simp
  moreover have "p \<noteq> 0" by (rule object_page(2) [OF k(3,4) sz])
  ultimately show ?thesis using k(1,3) by (auto simp: page_ok_def)
qed


end
