(* ===== verification/Exec.thy ===== *)
theory Exec
  imports Proc File
begin

text \<open>
  Running a program: \<^verbatim>\<open>src/kernel/sched/exec.c\<close> with the ELF structures of \<^verbatim>\<open>src/include/fs/elf.h\<close>. The image is read through
  the inode layer into memory from the bucket allocator. What was copied to which address is a part of the result.
\<close>

section \<open>ELF headers\<close>

definition ELF_MAGIC :: u32 where "ELF_MAGIC = 0x464C457F"
definition ELF_PROG_LOAD :: u32 where "ELF_PROG_LOAD = 1"

record elfhdr =
  eh_magic :: u32
  eh_elf :: "u8 list"
  eh_type :: u16
  eh_machine :: u16
  eh_version :: u32
  eh_entry :: u64
  eh_ph_off :: u64
  eh_shoff :: u64
  eh_flags :: u32
  eh_ehsize :: u16
  eh_phentsize :: u16
  eh_ph_num :: u16
  eh_shentsize :: u16
  eh_shnum :: u16
  eh_shstrndx :: u16

record proghdr =
  ph_type :: u32
  ph_flags :: u32
  ph_offset :: u64
  ph_vaddr :: u64
  ph_paddr :: u64
  ph_filesz :: u64
  ph_memsz :: u64
  ph_align :: u64

definition le64 :: "block \<Rightarrow> nat \<Rightarrow> u64" where
  "le64 b i = ucast (le32 b i) OR push_bit 32 (ucast (le32 b (i + 4)))"

definition elfhdr_of :: "block \<Rightarrow> elfhdr" where
  "elfhdr_of b =
     \<lparr>eh_magic = le32 b 0, eh_elf = take 12 (drop 4 b), eh_type = le16 b 16, eh_machine = le16 b 18, eh_version = le32 b 20,
      eh_entry = le64 b 24, eh_ph_off = le64 b 32, eh_shoff = le64 b 40, eh_flags = le32 b 48, eh_ehsize = le16 b 52,
      eh_phentsize = le16 b 54, eh_ph_num = le16 b 56, eh_shentsize = le16 b 58, eh_shnum = le16 b 60, eh_shstrndx = le16 b 62\<rparr>"

definition proghdr_of :: "block \<Rightarrow> proghdr" where
  "proghdr_of b =
     \<lparr>ph_type = le32 b 0, ph_flags = le32 b 4, ph_offset = le64 b 8, ph_vaddr = le64 b 16, ph_paddr = le64 b 24,
      ph_filesz = le64 b 32, ph_memsz = le64 b 40, ph_align = le64 b 48\<rparr>"

section \<open>Loading the segments\<close>

definition MAX_PROG_HEADERS :: nat where "MAX_PROG_HEADERS = 64"

text \<open>The addresses in \<^verbatim>\<open>allocated_mems\<close> and what was put there, or \<open>None\<close> for \<^verbatim>\<open>goto bad\<close>.\<close>

type_synonym loaded = "(u64 \<times> u8 list) list"

text \<open>
  One segment to load. \<^verbatim>\<open>malloc\<close> takes 32 bits, so from \<open>2 ^ 32\<close> bytes on the object is too small for what is copied and cleared.
\<close>

definition load_segment :: "nat \<Rightarrow> proghdr \<Rightarrow> mstate \<Rightarrow> fsstate \<Rightarrow> ((u64 \<times> u8 list) option \<times> mstate \<times> fsstate) res" where
  "load_segment p ph h s =
     (if ph_memsz ph < ph_filesz ph \<or> ph_vaddr ph + ph_memsz ph < ph_vaddr ph \<or> ph_vaddr ph mod 4096 \<noteq> 0 then Inr (None, h, s)
      else kbind (kmalloc (ucast (ph_memsz ph)) h) (\<lambda>(a, h).
        if a = 0 then Inr (None, h, s)
        else kbind (fat32_inode_read p (ucast (ph_offset ph)) (ucast (ph_filesz ph)) s) (\<lambda>(bytes, s).
          if length bytes > unat (ucast (ph_memsz ph) :: u32) then Inl OutOfBounds
          else if of_nat (length bytes) \<noteq> ph_filesz ph then kbind (kfree a 0 h) (\<lambda>h. Inr (None, h, s))
          else if unat (ph_memsz ph) \<ge> 2 ^ 32 then Inl OutOfBounds
          else Inr (Some (a, bytes @ replicate (unat (ph_memsz ph - ph_filesz ph)) 0), h, s))))"

fun load_segments :: "nat \<Rightarrow> u32 \<Rightarrow> nat \<Rightarrow> loaded \<Rightarrow> mstate \<Rightarrow> fsstate \<Rightarrow> (loaded option \<times> mstate \<times> fsstate) res" where
  "load_segments 0 off p img h s = Inr (Some img, h, s)"
| "load_segments (Suc n) off p img h s =
     kbind (fat32_inode_read p off 56 s) (\<lambda>(b, s).
       if length b \<noteq> 56 then Inr (None, h, s)
       else let ph = proghdr_of b
            in if ph_type ph \<noteq> ELF_PROG_LOAD then load_segments n (off + 56) p img h s
               else kbind (load_segment p ph h s) (\<lambda>(r, h, s). case r of
                      None \<Rightarrow> Inr (None, h, s)
                    | Some seg \<Rightarrow>
                        if length img + 1 \<ge> MAX_PROG_HEADERS then Inl (Panic ''huge size of elf,which can't load temporially!!'')
                        else load_segments n (off + 56) p (img @ [seg]) h s))"

text \<open>From the read of the header to the end of the loop: the address of the array \<^verbatim>\<open>allocated_mems\<close> and the segments.\<close>

definition load_elf :: "nat \<Rightarrow> mstate \<Rightarrow> fsstate \<Rightarrow> ((u64 \<times> loaded) option \<times> mstate \<times> fsstate) res" where
  "load_elf p h s =
     kbind (fat32_inode_read p 0 64 s) (\<lambda>(b, s).
       let elf = elfhdr_of b
       in if length b \<noteq> 64 \<or> eh_magic elf \<noteq> ELF_MAGIC then Inr (None, h, s)
          else kbind (kmalloc (of_nat (MAX_PROG_HEADERS * 8)) h) (\<lambda>(a, h).
            if a = 0 then Inr (None, h, s)
            else kbind (load_segments (unat (eh_ph_num elf)) (ucast (eh_ph_off elf)) p [] h s) (\<lambda>(r, h, s).
              Inr (map_option (\<lambda>img. (a, img)) r, h, s))))"

section \<open>The system call\<close>

text \<open>\<^verbatim>\<open>Returns\<close>: the call comes back with this value; \<^verbatim>\<open>Runs\<close>: \<^verbatim>\<open>switch_to\<close> enters the program.\<close>

datatype exec_result = Returns int | Runs loaded

definition exec_ctx :: "u64 \<Rightarrow> u64 \<Rightarrow> u64 \<Rightarrow> u64 \<Rightarrow> reg" where
  "exec_ctx ex sp argv entry =
     \<lparr>r_ra = ex, r_sp = sp, r_gp = 0, r_tp = 0, r_t0 = 0, r_t1 = 0, r_t2 = 0, r_s0 = 0, r_s1 = 0,
      r_a0 = 8 div 8, r_a1 = argv, r_a2 = 0, r_a3 = 0, r_a4 = 0, r_a5 = 0, r_a6 = 0, r_a7 = 0,
      r_s2 = 0, r_s3 = 0, r_s4 = 0, r_s5 = 0, r_s6 = 0, r_s7 = 0, r_s8 = 0, r_s9 = 0, r_s10 = 0, r_s11 = 0,
      r_t3 = 0, r_t4 = 0, r_t5 = 0, r_t6 = 0, r_epc = entry, r_temp = 0\<rparr>"

text \<open>The label \<^verbatim>\<open>bad\<close> with the value of \<^verbatim>\<open>ip\<close>.\<close>

definition exec_bad :: "nat option \<Rightarrow> kstate \<Rightarrow> vfs \<Rightarrow> (exec_result \<times> kstate \<times> vfs) res" where
  "exec_bad ip k v =
     (case ip of
        None \<Rightarrow> Inr (Returns (- 1), k, v)
      | Some p \<Rightarrow> kbind (on_fs0 (fat32_inode_unlock_put p) v) (\<lambda>v. Inr (Returns (- 1), k, v)))"

text \<open>The label \<^verbatim>\<open>context_restore\<close>; \<open>ex\<close> is the address of \<^verbatim>\<open>exit\<close> and \<open>argv0\<close> the word at \<open>argv\<close>.\<close>

definition exec_run :: "u64 \<Rightarrow> nat option \<Rightarrow> u64 \<Rightarrow> u64 \<Rightarrow> u64 \<Rightarrow> loaded \<Rightarrow> kstate \<Rightarrow> vfs \<Rightarrow> (exec_result \<times> kstate \<times> vfs) res" where
  "exec_run ex ip argv argv0 entry img k v =
     (if argv0 = 0 then exec_bad ip k v
      else kbind (the_task k (current k)) (\<lambda>c.
        Inr (Runs img, set_task (current k) (c\<lparr>ctx := exec_ctx ex (stack_top k (pcb_id c)) argv entry\<rparr>) k, v)))"

text \<open>
  \<^verbatim>\<open>do_execve\<close>. Without a path the entry is \<open>argv0\<close> and \<^verbatim>\<open>ip\<close> keeps the value \<open>ip0\<close> it happens to have on the stack; with a path the entry
  is the address of the array of segments, cut to 32 bits, and not the one of the ELF header.
\<close>

definition do_execve :: "u64 \<Rightarrow> nat option \<Rightarrow> u8 list option \<Rightarrow> u64 \<Rightarrow> u64 \<Rightarrow> kstate \<Rightarrow> vfs \<Rightarrow> (exec_result \<times> kstate \<times> vfs) res" where
  "do_execve ex ip0 filepath argv argv0 k v =
     (case filepath of
        None \<Rightarrow> exec_run ex ip0 argv argv0 argv0 [] k v
      | Some path \<Rightarrow>
          kbind (name_to_i path v) (\<lambda>(r, v). case r of
            None \<Rightarrow> Inr (Returns (- 1), k, v)
          | Some p \<Rightarrow>
              kbind (fat32_inode_lock (Some p) (fsys v)) (\<lambda>s.
              kbind (load_elf p (heap k) s) (\<lambda>(r, h, s).
                let k = k\<lparr>heap := h\<rparr>; v = v\<lparr>fsys := s\<rparr>
                in case r of
                     None \<Rightarrow> exec_bad (Some p) k v
                   | Some (a, img) \<Rightarrow>
                       kbind (on_fs0 (fat32_inode_unlock_put p) v) (\<lambda>v.
                         exec_run ex None argv argv0 (ucast (ucast a :: u32)) img k v)))))"

section \<open>What the call does to the tasks\<close>

lemma pinv_heap [simp]: "pinv (s\<lparr>heap := h\<rparr>) = pinv s"
  by (simp add: pinv_def sinv_def table_ok_def queues_ok_def task_ok_def queued_ok_def idents_def)

lemma set_ctx_pinv: "pinv s \<Longrightarrow> TASK s ! i = Some c \<Longrightarrow> pinv (set_task i (c\<lparr>ctx := x\<rparr>) s)"
  using keeps_pinv [OF keeps_set_task] by (simp add: view_def)

lemma exec_bad_Inr: "exec_bad ip k v = Inr (r, k', v') \<longleftrightarrow> r = Returns (- 1) \<and> k' = k \<and>
    (case ip of None \<Rightarrow> v' = v | Some p \<Rightarrow> on_fs0 (fat32_inode_unlock_put p) v = Inr v')"
  by (auto simp: exec_bad_def kbind_eq_Inr split: option.splits)

lemma load_elf_array: "load_elf p h s = Inr (Some (a, img), h', s') \<Longrightarrow> \<exists>h1. kmalloc 512 h = Inr (a, h1)"
  by (auto simp: load_elf_def Let_def kbind_eq_Inr MAX_PROG_HEADERS_def split: if_splits prod.splits)

definition entered :: "u64 \<Rightarrow> u64 \<Rightarrow> u64 \<Rightarrow> kstate \<Rightarrow> kstate \<Rightarrow> bool" where
  "entered ex argv entry k k' \<longleftrightarrow> (\<exists>c. TASK k ! current k = Some c \<and>
     TASK k' = (TASK k)[current k := Some (c\<lparr>ctx := exec_ctx ex (stack_top k (current k)) argv entry\<rparr>)])"

lemma exec_run_effect:
  assumes inv: "pinv k" and d: "exec_run ex ip argv argv0 entry img k v = Inr (r, k', v')"
  shows "pinv k' \<and> current k' = current k \<and> (r = Returns (- 1) \<and> TASK k' = TASK k \<and> argv0 = 0 \<or> r = Runs img \<and> v' = v \<and> entered ex argv entry k k' \<and> argv0 \<noteq> 0)"
proof -
  have sv: "sinv k" using inv by (simp add: pinv_def)
  obtain c where c: "the_task k (current k) = Inr c" "TASK k ! current k = Some c" "current k < 64" by (rule sinv_current [OF sv])
  have "pcb_id c = current k" using pinv_task(1) [OF inv c(3,2)] .
  then show ?thesis using d c inv set_ctx_pinv [OF inv c(2)]
    by (auto simp: exec_run_def exec_bad_Inr entered_def set_task_def split: if_splits)
qed

lemma execve_outcome:
  assumes inv: "pinv k" and d: "do_execve ex ip0 filepath argv argv0 k v = Inr (r, k', v')"
  shows "pinv k' \<and> current k' = current k \<and>
    (r = Returns (- 1) \<and> TASK k' = TASK k \<or>
     (\<exists>img entry. r = Runs img \<and> entered ex argv entry k k' \<and>
        (if filepath = None then entry = argv0 else \<exists>a h. kmalloc 512 (heap k) = Inr (a, h) \<and> entry = ucast (ucast a :: u32))))"
proof (cases filepath)
  case None
  then show ?thesis using d exec_run_effect [OF inv] by (fastforce simp: do_execve_def)
next
  case (Some path)
  from d [unfolded do_execve_def Some option.case] show ?thesis
  proof (elim kbind_InrE, goal_cases)
    case (1 x)
    obtain q w where x: "x = (q, w)" by fastforce
    show ?case
    proof (cases q)
      case None
      then show ?thesis using 1 x inv by simp
    next
      case p: (Some p)
      from 1(2) [unfolded x prod.case p option.case] show ?thesis
      proof (elim kbind_InrE, goal_cases)
        case (1 s y)
        obtain lr h s' where y: "y = (lr, h, s')" using prod_cases3 by blast
        have k1: "pinv (k\<lparr>heap := h\<rparr>)" "TASK (k\<lparr>heap := h\<rparr>) = TASK k" "current (k\<lparr>heap := h\<rparr>) = current k" using inv by simp_all
        show ?case
        proof (cases lr)
          case None
          then show ?thesis using 1(2,3) y k1 by (auto simp: Let_def exec_bad_Inr)
        next
          case l: (Some ai)
          obtain a img where ai: "ai = (a, img)" by fastforce
          obtain h1 where h1: "kmalloc 512 (heap k) = Inr (a, h1)" using load_elf_array 1(2) y l ai by blast
          obtain u where "exec_run ex None argv argv0 (ucast (ucast a :: u32)) img (k\<lparr>heap := h\<rparr>) u = Inr (r, k', v')"
            using 1(3) y l ai by (auto simp: Let_def kbind_eq_Inr)
          from exec_run_effect [OF k1(1) this] show ?thesis using h1 Some by (auto simp: entered_def stack_top_def)
        qed
      qed
    qed
  qed
qed



end
