(* ===== verification/Device.thy ===== *)
theory Device
  imports Uart Buffer Malloc
begin

text \<open>
  Memory-mapped devices: the addresses of \<^verbatim>\<open>src/include/platform.h\<close>, the interrupt controller \<^verbatim>\<open>src/trap/plic.c\<close>, the initialisation
  \<^verbatim>\<open>Init_virtio\<close> of \<^verbatim>\<open>src/driver/virtio.c\<close> and the control registers that \<^verbatim>\<open>src/trap/trap.c\<close>, \<^verbatim>\<open>src/timer/timer.c\<close> and \<^verbatim>\<open>plic.c\<close> set.
  A device is hardware. It is a parameter: a function that says what a read of a register returns after the accesses made so far. The state
  the code leaves behind is the list of accesses.
\<close>

section \<open>Registers\<close>

datatype access = Rd u64 | Wr u64 u32

type_synonym device = "access list \<Rightarrow> u64 \<Rightarrow> u32"

definition mm_read :: "device \<Rightarrow> u64 \<Rightarrow> access list \<Rightarrow> u32 \<times> access list" where
  "mm_read d a l = (d l a, l @ [Rd a])"

definition mm_write :: "u64 \<Rightarrow> u32 \<Rightarrow> access list \<Rightarrow> access list" where
  "mm_write a v l = l @ [Wr a v]"

definition UART0_IRQ :: u64 where "UART0_IRQ = 10"
definition VIRTIO0_IRQ :: u64 where "VIRTIO0_IRQ = 1"

definition PLIC_BASE :: u64 where "PLIC_BASE = 0x0C000000"
definition PLIC_PRIORITY :: "u64 \<Rightarrow> u64" where "PLIC_PRIORITY irq = PLIC_BASE + irq * 4"
definition PLIC_SENABLE :: "u64 \<Rightarrow> u64" where "PLIC_SENABLE hart = PLIC_BASE + 0x2000 + 0x80 + hart * 0x80"
definition PLIC_STHRESHOLD :: "u64 \<Rightarrow> u64" where "PLIC_STHRESHOLD hart = PLIC_BASE + 0x200000 + 0x1000 + hart * 0x1000"
definition PLIC_SCLAIM :: "u64 \<Rightarrow> u64" where "PLIC_SCLAIM hart = PLIC_BASE + 0x200004 + 0x1000 + hart * 0x1000"
definition PLIC_SCOMPLETE :: "u64 \<Rightarrow> u64" where "PLIC_SCOMPLETE hart = PLIC_BASE + 0x200004 + 0x1000 + hart * 0x1000"

definition SYS_CTL_ADDR :: u64 where "SYS_CTL_ADDR = 0x100000"
definition SYS_PASS :: u32 where "SYS_PASS = 1"
definition SYS_CTL :: "u32 \<Rightarrow> u32" where "SYS_CTL n = 0x3333 + n * 0x2222"

definition VIRTIO_BASE :: u64 where "VIRTIO_BASE = 0x10001000"
definition MAGIC_VALUE :: u64 where "MAGIC_VALUE = VIRTIO_BASE + 0x000"
definition DEVICE_VERSION :: u64 where "DEVICE_VERSION = VIRTIO_BASE + 0x004"
definition DEVICE_ID :: u64 where "DEVICE_ID = VIRTIO_BASE + 0x008"
definition VENDOR_ID :: u64 where "VENDOR_ID = VIRTIO_BASE + 0x00c"
definition DEVICE_FEATURES :: u64 where "DEVICE_FEATURES = VIRTIO_BASE + 0x010"
definition DRIVER_FEATURES :: u64 where "DRIVER_FEATURES = VIRTIO_BASE + 0x020"
definition QUEUE_SEL :: u64 where "QUEUE_SEL = VIRTIO_BASE + 0x030"
definition QUEUE_NUM_MAX :: u64 where "QUEUE_NUM_MAX = VIRTIO_BASE + 0x034"
definition QUEUE_NUM :: u64 where "QUEUE_NUM = VIRTIO_BASE + 0x038"
definition QUEUE_READY :: u64 where "QUEUE_READY = VIRTIO_BASE + 0x044"
definition DEVICE_STATUS :: u64 where "DEVICE_STATUS = VIRTIO_BASE + 0x070"
definition QUEUE_DESC_LOW :: u64 where "QUEUE_DESC_LOW = VIRTIO_BASE + 0x080"
definition QUEUE_DESC_HIGH :: u64 where "QUEUE_DESC_HIGH = VIRTIO_BASE + 0x084"
definition QUEUE_DRIVER_LOW :: u64 where "QUEUE_DRIVER_LOW = VIRTIO_BASE + 0x090"
definition QUEUE_DRIVER_HIGH :: u64 where "QUEUE_DRIVER_HIGH = VIRTIO_BASE + 0x094"
definition QUEUE_DEVICE_LOW :: u64 where "QUEUE_DEVICE_LOW = VIRTIO_BASE + 0x0A0"
definition QUEUE_DEVICE_HIGH :: u64 where "QUEUE_DEVICE_HIGH = VIRTIO_BASE + 0x0A4"

definition VIRTIO_MAGIC_VALUE :: u32 where "VIRTIO_MAGIC_VALUE = 0x74726976"
definition VIRTIO_DEVICE_VERSION :: u32 where "VIRTIO_DEVICE_VERSION = 2"
definition VIRTIO_DEVICE_ID :: u32 where "VIRTIO_DEVICE_ID = 2"
definition VIRTIO_VENDER_ID :: u32 where "VIRTIO_VENDER_ID = 0x554d4551"
definition VIRTIO_CONFIG_S_ACKNOWLEDGE :: u32 where "VIRTIO_CONFIG_S_ACKNOWLEDGE = 1"
definition VIRTIO_CONFIG_S_DRIVER :: u32 where "VIRTIO_CONFIG_S_DRIVER = 2"
definition VIRTIO_CONFIG_S_DRIVER_OK :: u32 where "VIRTIO_CONFIG_S_DRIVER_OK = 4"
definition VIRTIO_CONFIG_S_FEATURES_OK :: u32 where "VIRTIO_CONFIG_S_FEATURES_OK = 8"
definition VIRTIO_BLK_F_RO :: nat where "VIRTIO_BLK_F_RO = 5"
definition VIRTIO_BLK_F_SCSI :: nat where "VIRTIO_BLK_F_SCSI = 7"
definition VIRTIO_BLK_F_CONFIG_WCE :: nat where "VIRTIO_BLK_F_CONFIG_WCE = 11"
definition VIRTIO_BLK_F_MQ :: nat where "VIRTIO_BLK_F_MQ = 12"
definition VIRTIO_F_ANY_LAYOUT :: nat where "VIRTIO_F_ANY_LAYOUT = 27"
definition VIRTIO_RING_F_INDIRECT_DESC :: nat where "VIRTIO_RING_F_INDIRECT_DESC = 28"
definition VIRTIO_RING_F_EVENT_IDX :: nat where "VIRTIO_RING_F_EVENT_IDX = 29"

section \<open>The interrupt controller\<close>

text \<open>\<open>hart\<close> is the register \<^verbatim>\<open>tp\<close>.\<close>

definition claim :: "device \<Rightarrow> u64 \<Rightarrow> access list \<Rightarrow> u64 \<times> access list" where
  "claim d hart l = (case mm_read d (PLIC_SCLAIM hart) l of (v, l) \<Rightarrow> (ucast v, l))"

definition complete :: "u64 \<Rightarrow> u64 \<Rightarrow> access list \<Rightarrow> access list" where
  "complete hart irq l = mm_write (PLIC_SCOMPLETE hart) (ucast irq) l"

text \<open>The control registers of the hart.\<close>

record csrs =
  csr_sie :: u64
  csr_sstatus :: u64
  csr_stvec :: u64

definition EA :: u64 where "EA = push_bit 1 1"
definition STIE :: u64 where "STIE = push_bit 5 1"
definition SEIE :: u64 where "SEIE = push_bit 9 1"

definition Init_plic :: "u64 \<Rightarrow> access list \<times> csrs \<Rightarrow> access list \<times> csrs" where
  "Init_plic hart =
     (\<lambda>(l, c).
       let l = mm_write (PLIC_PRIORITY UART0_IRQ) 1 l;
           l = mm_write (PLIC_PRIORITY VIRTIO0_IRQ) 1 l;
           l = mm_write (PLIC_SENABLE hart) (push_bit (unat UART0_IRQ) 1 OR push_bit (unat VIRTIO0_IRQ) 1) l;
           l = mm_write (PLIC_STHRESHOLD hart) 0 l;
           c = c\<lparr>csr_sie := csr_sie c OR SEIE\<rparr>
       in (l, c\<lparr>csr_sstatus := csr_sstatus c OR EA\<rparr>))"

definition Init_trap :: "u64 \<Rightarrow> csrs \<Rightarrow> csrs" where
  "Init_trap trap_vector c = c\<lparr>csr_stvec := trap_vector\<rparr>"

definition Init_timer :: "csrs \<Rightarrow> csrs" where
  "Init_timer c = (let c = c\<lparr>csr_sstatus := csr_sstatus c OR EA\<rparr> in c\<lparr>csr_sie := csr_sie c OR STIE\<rparr>)"

definition sys_shutdown :: "access list \<Rightarrow> access list" where
  "sys_shutdown l = mm_write SYS_CTL_ADDR (SYS_CTL SYS_PASS) l"

section \<open>The disk\<close>

text \<open>
  \<^verbatim>\<open>Init_virtio\<close> up to the check of the queue size. The first four reads are the ones it prints.
\<close>

definition find_disk :: "device \<Rightarrow> access list \<Rightarrow> access list res" where
  "find_disk d l =
     (let (_, l) = mm_read d MAGIC_VALUE l; (_, l) = mm_read d DEVICE_VERSION l; (_, l) = mm_read d DEVICE_ID l; (_, l) = mm_read d VENDOR_ID l;
          no = Inl (Panic ''could not find virtio disk''); (v, l) = mm_read d MAGIC_VALUE l
      in if v \<noteq> VIRTIO_MAGIC_VALUE then no
         else let (v, l) = mm_read d DEVICE_VERSION l
              in if v \<noteq> VIRTIO_DEVICE_VERSION then no
                 else let (v, l) = mm_read d DEVICE_ID l
                      in if v \<noteq> VIRTIO_DEVICE_ID then no
                         else let (v, l) = mm_read d VENDOR_ID l in if v \<noteq> VIRTIO_VENDER_ID then no else Inr l)"

definition driver_features :: "u64 \<Rightarrow> u64" where
  "driver_features f =
     f AND NOT (push_bit VIRTIO_BLK_F_RO 1) AND NOT (push_bit VIRTIO_BLK_F_SCSI 1) AND NOT (push_bit VIRTIO_BLK_F_CONFIG_WCE 1)
       AND NOT (push_bit VIRTIO_BLK_F_MQ 1) AND NOT (push_bit VIRTIO_F_ANY_LAYOUT 1) AND NOT (push_bit VIRTIO_RING_F_EVENT_IDX 1)
       AND NOT (push_bit VIRTIO_RING_F_INDIRECT_DESC 1)"

definition negotiate :: "device \<Rightarrow> access list \<Rightarrow> (u32 \<times> access list) res" where
  "negotiate d l =
     (let status = 0; l = mm_write DEVICE_STATUS status l;
          status = status OR VIRTIO_CONFIG_S_ACKNOWLEDGE; l = mm_write DEVICE_STATUS status l;
          status = status OR VIRTIO_CONFIG_S_DRIVER; l = mm_write DEVICE_STATUS status l;
          (f, l) = mm_read d DEVICE_FEATURES l;
          l = mm_write DRIVER_FEATURES (ucast (driver_features (ucast f))) l;
          status = status OR VIRTIO_CONFIG_S_FEATURES_OK; l = mm_write DEVICE_STATUS status l;
          (status, l) = mm_read d DEVICE_STATUS l
      in if status AND VIRTIO_CONFIG_S_FEATURES_OK = 0 then Inl (Panic ''virtio disk FEATURES_OK unset'')
         else let l = mm_write QUEUE_SEL 0 l; (v, l) = mm_read d QUEUE_READY l
              in if v \<noteq> 0 then Inl (Panic ''virtio disk should not be ready'')
                 else let (mx, l) = mm_read d QUEUE_NUM_MAX l
                      in if mx = 0 then Inl (Panic ''virtio disk has no queue 0'')
                         else if mx < of_nat QUEUE_SIZE then Inl (Panic ''virtio disk max queue too short'')
                         else Inr (status, l))"

text \<open>The writes that give the queue to the device, for the addresses of its three parts.\<close>

definition publish_queue :: "u64 \<Rightarrow> u64 \<Rightarrow> u64 \<Rightarrow> access list \<Rightarrow> access list" where
  "publish_queue dp ap up l =
     mm_write QUEUE_READY 1 (mm_write QUEUE_DEVICE_HIGH (ucast (drop_bit 32 up)) (mm_write QUEUE_DEVICE_LOW (ucast up)
       (mm_write QUEUE_DRIVER_HIGH (ucast (drop_bit 32 ap)) (mm_write QUEUE_DRIVER_LOW (ucast ap)
         (mm_write QUEUE_DESC_HIGH (ucast (drop_bit 32 dp)) (mm_write QUEUE_DESC_LOW (ucast dp) (mm_write QUEUE_NUM (of_nat QUEUE_SIZE) l)))))))"

definition Init_virtio :: "device \<Rightarrow> access list \<Rightarrow> mstate \<Rightarrow> iostate \<Rightarrow> (access list \<times> mstate \<times> iostate) res" where
  "Init_virtio d l h s =
     kbind (find_disk d l) (\<lambda>l.
     kbind (negotiate d l) (\<lambda>(status, l).
     kbind (kmalloc 4096 h) (\<lambda>(dp, h).
     kbind (kmalloc 4096 h) (\<lambda>(ap, h).
     kbind (kmalloc 4096 h) (\<lambda>(up, h).
       if dp = 0 \<or> ap = 0 \<or> up = 0 then Inl (Panic ''virtio disk malloc error'')
       else Inr (mm_write DEVICE_STATUS (status OR VIRTIO_CONFIG_S_DRIVER_OK) (publish_queue dp ap up l), h,
                 s\<lparr>vlock := 0, desc := replicate QUEUE_SIZE desc0, avail_idx := 0, avail_ring := replicate QUEUE_SIZE 0,
                   used_dev_idx := 0, used_ring := replicate QUEUE_SIZE (0, 0), vfree := replicate QUEUE_SIZE True\<rparr>))))))"

section \<open>The handshake\<close>

text \<open>The features the driver accepts: what the device offers, less seven bits.\<close>

lemma bit_cleared: "bit (x AND NOT (push_bit k 1) :: u64) n \<longleftrightarrow> bit x n \<and> n \<noteq> k"
  by (auto simp: bit_simps bit_1_iff dest: bit_imp_le_length)

lemma driver_features_bit: "bit (driver_features f) n \<longleftrightarrow> bit f n \<and> n \<notin> {5, 7, 11, 12, 27, 28, 29}"
  unfolding driver_features_def and.assoc [symmetric] bit_cleared
  by (simp add: VIRTIO_BLK_F_RO_def VIRTIO_BLK_F_SCSI_def VIRTIO_BLK_F_CONFIG_WCE_def VIRTIO_BLK_F_MQ_def
      VIRTIO_F_ANY_LAYOUT_def VIRTIO_RING_F_INDIRECT_DESC_def VIRTIO_RING_F_EVENT_IDX_def conj_ac)

fun status_writes :: "access list \<Rightarrow> u32 list" where
  "status_writes [] = []"
| "status_writes (Rd r # l) = status_writes l"
| "status_writes (Wr r v # l) = (if r = DEVICE_STATUS then v # status_writes l else status_writes l)"

lemma status_writes_append [simp]: "status_writes (l @ l') = status_writes l @ status_writes l'"
  by (induction l rule: status_writes.induct) simp_all

lemma status_writes_write [simp]: "status_writes (mm_write r v l) = status_writes l @ (if r = DEVICE_STATUS then [v] else [])"
  by (simp add: mm_write_def)

lemmas virtio_regs = MAGIC_VALUE_def DEVICE_VERSION_def DEVICE_ID_def VENDOR_ID_def DEVICE_FEATURES_def DRIVER_FEATURES_def QUEUE_SEL_def
  QUEUE_NUM_MAX_def QUEUE_NUM_def QUEUE_READY_def DEVICE_STATUS_def QUEUE_DESC_LOW_def QUEUE_DESC_HIGH_def QUEUE_DRIVER_LOW_def
  QUEUE_DRIVER_HIGH_def QUEUE_DEVICE_LOW_def QUEUE_DEVICE_HIGH_def VIRTIO_BASE_def

lemma find_disk_status: "find_disk d l = Inr l' \<Longrightarrow> status_writes l' = status_writes l"
  by (auto simp: find_disk_def mm_read_def Let_def split: if_splits)

lemma negotiate_status: "negotiate d l = Inr (status, l') \<Longrightarrow> status_writes l' = status_writes l @ [0, 1, 3, 11]"
  by (auto simp: negotiate_def mm_read_def Let_def virtio_regs VIRTIO_CONFIG_S_ACKNOWLEDGE_def VIRTIO_CONFIG_S_DRIVER_def
      VIRTIO_CONFIG_S_FEATURES_OK_def split: if_splits)

lemma find_disk_error: "find_disk d l = Inl e \<Longrightarrow> \<exists>m. e = Panic m"
  by (auto simp: find_disk_def mm_read_def Let_def split: if_splits)

lemma negotiate_error: "negotiate d l = Inl e \<Longrightarrow> \<exists>m. e = Panic m"
  by (auto simp: negotiate_def mm_read_def Let_def split: if_splits)

text \<open>Set up, the disk has told the device \<open>DRIVER_OK\<close> last, the heap is sound and the queue is empty.\<close>

definition disk_reset :: "iostate \<Rightarrow> iostate" where
  "disk_reset s = s\<lparr>vlock := 0, desc := replicate QUEUE_SIZE desc0, avail_idx := 0, avail_ring := replicate QUEUE_SIZE 0,
     used_dev_idx := 0, used_ring := replicate QUEUE_SIZE (0, 0), vfree := replicate QUEUE_SIZE True\<rparr>"

lemma kmalloc_minv: "minv h \<Longrightarrow> unat len \<le> 4096 \<Longrightarrow> (\<exists>m. kmalloc len h = Inl (Panic m)) \<or> (\<exists>p h'. kmalloc len h = Inr (p, h') \<and> minv h')"
  using kmalloc_cases by blast

lemma Init_virtio_outcome:
  assumes "minv h"
  shows "(\<exists>m. Init_virtio d l h s = Inl (Panic m)) \<or>
    (\<exists>l' h' st. Init_virtio d l h s = Inr (l', h', disk_reset s) \<and> minv h' \<and>
       status_writes l' = status_writes l @ [0, 1, 3, 11, st OR VIRTIO_CONFIG_S_DRIVER_OK])"
proof (cases "find_disk d l")
  case (Inl e)
  then show ?thesis using find_disk_error by (fastforce simp: Init_virtio_def)
next
  case f: (Inr l1)
  show ?thesis
  proof (cases "negotiate d l1")
    case (Inl e)
    then show ?thesis using negotiate_error f by (fastforce simp: Init_virtio_def)
  next
    case n: (Inr sl)
    obtain st l2 where sl: "sl = (st, l2)" by fastforce
    have w: "status_writes l2 = status_writes l @ [0, 1, 3, 11]" using find_disk_status [OF f] negotiate_status n sl by simp
    have b: "unat (4096 :: u32) \<le> 4096" by simp
    have p: "status_writes (mm_write DEVICE_STATUS v (publish_queue dp ap up l2)) = status_writes l @ [0, 1, 3, 11, v]" for v dp ap up
      by (simp add: publish_queue_def virtio_regs w [unfolded virtio_regs])
    note unf = Init_virtio_def f n sl prod.case kbind_simps
    from kmalloc_minv [OF assms b] show ?thesis
    proof (elim disjE exE conjE)
      fix p1 h1 assume 1: "kmalloc 4096 h = Inr (p1, h1)" "minv h1"
      from kmalloc_minv [OF 1(2) b] show ?thesis
      proof (elim disjE exE conjE)
        fix p2 h2 assume 2: "kmalloc 4096 h1 = Inr (p2, h2)" "minv h2"
        from kmalloc_minv [OF 2(2) b] show ?thesis
        proof (elim disjE exE conjE)
          fix p3 h3 assume 3: "kmalloc 4096 h2 = Inr (p3, h3)" "minv h3"
          show ?thesis unfolding unf 1(1) 2(1) 3(1) disk_reset_def using 3(2) p by (cases "p1 = 0 \<or> p2 = 0 \<or> p3 = 0") (simp, simp, blast)
        qed (simp add: unf 1(1) 2(1))
      qed (simp add: unf 1(1))
    qed (simp add: unf)
  qed
qed

end
