(* ===== verification/Trap.thy ===== *)
theory Trap
  imports Exec Device
begin

text \<open>
  Entering and leaving the kernel: \<^verbatim>\<open>trap_handler\<close> and \<^verbatim>\<open>machine_interrupt_handler\<close> of \<^verbatim>\<open>src/trap/trap.c\<close>, the system call table of
  \<^verbatim>\<open>src/include/sys.h\<close> and \<^verbatim>\<open>do_syscall\<close> of \<^verbatim>\<open>src/kernel/sys.c\<close>, \<^verbatim>\<open>add_timer\<close> of \<^verbatim>\<open>src/timer/timer.c\<close>, and the assembly of
  \<^verbatim>\<open>src/kernel/switch.S\<close> that saves and restores the registers around them. Here the components meet: a trap reaches the scheduler, the process
  table, the file system, the serial port, the disk and the interrupt controller.
\<close>

section \<open>The machine\<close>

text \<open>\<open>port\<close> is the device state of the serial port, \<open>bus\<close> the accesses made to the other devices.\<close>

record 'u machine =
  kern :: kstate
  files :: vfs
  port :: 'u
  bus :: "access list"
  csr :: csrs
  MODE :: int
  timers :: "timer_list list"

text \<open>
  What is outside: the devices, the register \<^verbatim>\<open>tp\<close> that holds the number of the hart, the address of \<^verbatim>\<open>exit\<close>, the user's memory as far as
  \<^verbatim>\<open>execve\<close> reads it, the value an uninitialised pointer has there, and what a timer callback does.
\<close>

record 'u world =
  w_uart :: "'u uart_dev"
  w_dev :: device
  w_hart :: u64
  w_exit :: u64
  w_string :: "u64 \<Rightarrow> u8 list"
  w_word :: "u64 \<Rightarrow> u64"
  w_ip :: "nat option"
  w_fire :: "nat \<Rightarrow> kstate \<Rightarrow> kstate res"

section \<open>Timers\<close>

text \<open>\<^verbatim>\<open>add_timer\<close> appends to the list; the cell is a page of its own, and a failed allocation is not noticed before the store to it.\<close>

definition add_timer :: "u64 \<Rightarrow> nat \<Rightarrow> 'u machine \<Rightarrow> 'u machine res" where
  "add_timer wait fn m =
     (if fn = 0 then Inr m
      else kbind (page_alloc 1 (pg (heap (kern m)))) (\<lambda>(p, g).
        if p = 0 then Inl NullDeref
        else Inr (m\<lparr>kern := (kern m)\<lparr>heap := (heap (kern m))\<lparr>pg := g\<rparr>\<rparr>,
                    timers := timers m @ [\<lparr>tl_jiffies = jiffies (kern m), tl_fn = fn, tl_wait = wait\<rparr>]\<rparr>)))"

section \<open>System calls\<close>

definition NR_gethid :: u64 where "NR_gethid = 0"
definition NR_getpid :: u64 where "NR_getpid = 172"
definition NR_getppid :: u64 where "NR_getppid = 173"
definition NR_fork :: u64 where "NR_fork = 220"
definition NR_execve :: u64 where "NR_execve = 221"
definition NR_exit :: u64 where "NR_exit = 93"
definition NR_waitpid :: u64 where "NR_waitpid = 260"
definition NR_shutdown :: u64 where "NR_shutdown = 7"

text \<open>
  What a system call comes to: a result for register \<open>a0\<close>, with the word that \<^verbatim>\<open>waitpid\<close> stores through its pointer, or a switch to another
  task or program. \<^verbatim>\<open>sys_shutdown\<close> has no return statement; the value is what its last computation left.
\<close>

datatype sys_out = Result u64 "(u64 \<times> u64) option" | Gone

definition sys_gethid :: "'u world \<Rightarrow> u64" where "sys_gethid w = w_hart w"

definition sys_getpid :: "kstate \<Rightarrow> int res" where
  "sys_getpid k = kbind (the_task k (current k)) (\<lambda>t. Inr (pid t))"

definition sys_getppid :: "kstate \<Rightarrow> int res" where
  "sys_getppid k = kbind (the_task k (current k)) (\<lambda>t. Inr (father_pid t))"

definition sys_exit :: "i32 \<Rightarrow> kstate \<Rightarrow> kstate res" where
  "sys_exit error_code k = do_exit (sint error_code) k"

lemmas sys_small = sys_gethid_def sys_getpid_def sys_getppid_def sys_exit_def

definition sys_wait :: "u64 \<Rightarrow> u64 \<Rightarrow> kstate \<Rightarrow> (sys_out \<times> kstate) res" where
  "sys_wait p stat k =
     kbind (sys_waitpid (sint (ucast p :: i32)) k) (\<lambda>(r, k). case r of
       Blocked \<Rightarrow> Inr (Gone, k)
     | Returned q code \<Rightarrow>
         Inr (Result (of_int q) (case code of Some c \<Rightarrow> if stat \<noteq> 0 then Some (stat, of_int c) else None | None \<Rightarrow> None), k))"

definition sys_exec :: "'u world \<Rightarrow> u64 \<Rightarrow> u64 \<Rightarrow> 'u machine \<Rightarrow> (sys_out \<times> 'u machine) res" where
  "sys_exec w path argv m =
     kbind (do_execve (w_exit w) (w_ip w) (if path = 0 then None else Some (w_string w path)) argv (w_word w argv) (kern m) (files m))
       (\<lambda>(r, k, v). Inr (case r of Returns n \<Rightarrow> Result (of_int n) None | Runs img \<Rightarrow> Gone, m\<lparr>kern := k, files := v\<rparr>))"

text \<open>The function \<^verbatim>\<open>sys_call_table[a7]\<close>: the table has 261 entries, most of them null, and nothing checks the index.\<close>

definition sys_call :: "'u world \<Rightarrow> reg \<Rightarrow> 'u machine \<Rightarrow> (sys_out \<times> 'u machine) res" where
  "sys_call w c m =
     (let nr = r_a7 c; k = kern m; on = (\<lambda>k. m\<lparr>kern := k\<rparr>)
      in if nr = NR_gethid then Inr (Result (sys_gethid w) None, m)
         else if nr = NR_getpid then kbind (sys_getpid k) (\<lambda>p. Inr (Result (of_int p) None, m))
         else if nr = NR_getppid then kbind (sys_getppid k) (\<lambda>p. Inr (Result (of_int p) None, m))
         else if nr = NR_fork then kbind (sys_fork k) (\<lambda>(p, k). Inr (Result (of_int p) None, on k))
         else if nr = NR_execve then sys_exec w (r_a0 c) (r_a1 c) m
         else if nr = NR_exit then kbind (sys_exit (ucast (r_a0 c)) k) (\<lambda>k. Inr (Gone, on k))
         else if nr = NR_waitpid then kbind (sys_wait (r_a0 c) (r_a1 c) k) (\<lambda>(r, k). Inr (r, on k))
         else if nr = NR_shutdown then Inr (Result (ucast (SYS_CTL SYS_PASS)) None, m\<lparr>bus := sys_shutdown (bus m)\<rparr>)
         else if nr < 261 then Inl NullDeref
         else Inl OutOfBounds)"

definition set_ctx :: "nat \<Rightarrow> (reg \<Rightarrow> reg) \<Rightarrow> 'u machine \<Rightarrow> 'u machine res" where
  "set_ctx i f m = kbind (the_task (kern m) i) (\<lambda>t. Inr (m\<lparr>kern := set_task i (t\<lparr>ctx := f (ctx t)\<rparr>) (kern m)\<rparr>))"

text \<open>\<^verbatim>\<open>context\<close> is the context of the task that made the call.\<close>

definition do_syscall :: "'u world \<Rightarrow> 'u machine \<Rightarrow> (sys_out \<times> 'u machine) res" where
  "do_syscall w m =
     (let i = current (kern m)
      in kbind (the_task (kern m) i) (\<lambda>t.
         kbind (sys_call w (ctx t) m) (\<lambda>(r, m). case r of
           Gone \<Rightarrow> Inr (Gone, m)
         | Result v st \<Rightarrow> kbind (set_ctx i (\<lambda>c. c\<lparr>r_a0 := v\<rparr>) m) (\<lambda>m. Inr (Result v st, m)))))"

section \<open>Interrupts\<close>

text \<open>\<open>None\<close>: the serial port never gets ready.\<close>

definition serve_irq :: "'u world \<Rightarrow> u64 \<Rightarrow> 'u machine \<Rightarrow> 'u machine res option" where
  "serve_irq w irq m =
     (if irq = UART0_IRQ then map_option (\<lambda>u. Inr (m\<lparr>port := u\<rparr>)) (uart_console (w_uart w) (port m))
      else if irq = VIRTIO0_IRQ
      then Some (kbind (virtio_disk_interrupt_handler (io (fsys (files m)))) (\<lambda>d.
             Inr (m\<lparr>files := (files m)\<lparr>fsys := (fsys (files m))\<lparr>io := d\<rparr>\<rparr>\<rparr>)))
      else Some (Inr m))"

definition machine_interrupt_handler :: "'u world \<Rightarrow> 'u machine \<Rightarrow> 'u machine res option" where
  "machine_interrupt_handler w m =
     (case claim (w_dev w) (w_hart w) (bus m) of (irq, l) \<Rightarrow>
        map_option (\<lambda>r. kbind r (\<lambda>m. Inr (if irq \<noteq> 0 then m\<lparr>bus := complete (w_hart w) irq (bus m)\<rparr> else m)))
          (serve_irq w irq (m\<lparr>bus := l\<rparr>)))"

section \<open>Traps\<close>

text \<open>\<open>Back pc\<close>: the handler returns \<open>pc\<close> to the assembly; \<open>Away\<close>: another task or program runs instead.\<close>

datatype trap_out = Back u64 | Away

definition trap_interrupt :: "'u world \<Rightarrow> u64 \<Rightarrow> 'u machine \<Rightarrow> 'u machine res option" where
  "trap_interrupt w n m =
     (if n = 5 then Some (kbind (timer_interrupt_handler (w_fire w) (timers m) (kern m)) (\<lambda>k. Inr (m\<lparr>kern := k\<rparr>)))
      else if n = 9 then machine_interrupt_handler w m
      else Some (Inr m))"

definition trap_handler :: "'u world \<Rightarrow> u64 \<Rightarrow> u64 \<Rightarrow> 'u machine \<Rightarrow> (trap_out \<times> 'u machine) res option" where
  "trap_handler w cause epc m =
     (let n = cause AND 0xFFF
      in if cause AND 0x8000000000000000 \<noteq> 0
         then map_option (\<lambda>r. kbind r (\<lambda>m'. Inr (if current (kern m') = current (kern m) then Back epc else Away, m'))) (trap_interrupt w n m)
         else Some (if n = 8 then kbind (do_syscall w m) (\<lambda>(r, m). Inr (case r of Gone \<Rightarrow> Away | Result v st \<Rightarrow> Back (epc + 4), m))
                    else if n = 9 then Inl (Panic ''OOPS!!! it's forbiddened temporily ecall from S-mode'')
                    else if n = 11 then Inl (Panic ''OOPS!!! it's forbiddened temporily ecall from M-mode'')
                    else Inl (Panic ''encounter error'')))"

definition set_mode :: "int \<Rightarrow> 'u machine \<Rightarrow> 'u machine" where "set_mode x m = m\<lparr>MODE := x\<rparr>"

definition get_mode :: "'u machine \<Rightarrow> int" where "get_mode m = MODE m"

text \<open>
  \<^verbatim>\<open>trap_vector\<close>: the registers \<open>u\<close> of the interrupted program and its \<open>pc\<close> go to the context of the current task (the word \<^verbatim>\<open>temp\<close>
  is left alone), the stack pointer is checked, the handler runs; when it comes back, its result becomes the \<open>pc\<close> and the registers are
  restored from the context. The result is what the program continues with, or \<open>None\<close> when it does not continue now.
\<close>

definition reg_save :: "reg \<Rightarrow> u64 \<Rightarrow> reg \<Rightarrow> reg" where
  "reg_save u pc c = u\<lparr>r_epc := pc, r_temp := r_temp c\<rparr>"

definition trap_vector :: "'u world \<Rightarrow> u64 \<Rightarrow> u64 \<Rightarrow> reg \<Rightarrow> 'u machine \<Rightarrow> (reg option \<times> 'u machine) res option" where
  "trap_vector w cause pc u m =
     (let i = current (kern m)
      in case kbind (set_ctx i (reg_save u pc) m) (\<lambda>m. kbind (Dect_stack (r_sp u) (kern m)) (\<lambda>_. Inr (set_mode 1 m))) of
           Inl e \<Rightarrow> Some (Inl e)
         | Inr m \<Rightarrow>
             map_option (\<lambda>r. kbind r (\<lambda>(x, m). case x of
               Away \<Rightarrow> Inr (None, m)
             | Back pc \<Rightarrow>
                 kbind (set_ctx i (\<lambda>c. c\<lparr>r_epc := pc\<rparr>) m) (\<lambda>m.
                 kbind (the_task (kern m) i) (\<lambda>t. Inr (Some (ctx t), set_mode 0 m))))) (trap_handler w cause pc m))"

section \<open>What a trap keeps\<close>

definition mwf :: "'u machine \<Rightarrow> bool" where
  "mwf m \<longleftrightarrow> pinv (kern m) \<and> timers m = []"

text \<open>The caller goes on: it is still the current task and its saved registers are as they were.\<close>

definition keeps_caller :: "kstate \<Rightarrow> kstate \<Rightarrow> bool" where
  "keeps_caller k k' \<longleftrightarrow> current k' = current k \<and> map_option ctx (TASK k' ! current k) = map_option ctx (TASK k ! current k)"

lemma keeps_caller_refl [simp]: "keeps_caller k k"
  by (simp add: keeps_caller_def)

lemma set_ctx_Inr: "set_ctx i f m = Inr m' \<longleftrightarrow> i < length (TASK (kern m)) \<and>
    (\<exists>t. TASK (kern m) ! i = Some t \<and> m' = m\<lparr>kern := set_task i (t\<lparr>ctx := f (ctx t)\<rparr>) (kern m)\<rparr>)"
  by (auto simp: set_ctx_def the_task_def kbind_eq_Inr split: option.splits)

lemma set_ctx_mwf: "mwf m \<Longrightarrow> set_ctx i f m = Inr m' \<Longrightarrow> mwf m'"
  by (auto simp: set_ctx_Inr mwf_def intro: set_ctx_pinv)

lemma fork_caller: "pinv k \<Longrightarrow> sys_fork k = Inr (p, k') \<Longrightarrow> keeps_caller k k'"
proof -
  assume a: "pinv k" "sys_fork k = Inr (p, k')"
  then have sv: "sinv k" by (simp add: pinv_def)
  obtain i c addr h where f: "TASK k ! i = None" "TASK k ! current k = Some c"
    "k' = copy_memory (stack_top k i) (pcb_id c) (set_task i (child_task addr c (k\<lparr>NEW_PID := p, NEW_PCBID := i\<rparr>)) (k\<lparr>NEW_PID := p, NEW_PCBID := i, heap := h\<rparr>))"
    by (rule sys_fork_eq [OF sv a(2)])
  then have "i \<noteq> current k" by auto
  then show ?thesis using f by (simp add: keeps_caller_def)
qed

lemma release_caller: "release i k = Inr k' \<Longrightarrow> i \<noteq> current k \<Longrightarrow> keeps_caller k k'"
  by (auto simp: release_def kbind_eq_Inr keeps_caller_def split: if_splits)

lemma wait_caller: "pinv k \<Longrightarrow> sys_waitpid p k = Inr (Returned q code, k') \<Longrightarrow> keeps_caller k k'"
proof -
  assume a: "pinv k" "sys_waitpid p k = Inr (Returned q code, k')"
  have sv: "sinv k" using a(1) by (simp add: pinv_def)
  obtain c where c: "TASK k ! current k = Some c" "current k < 64" "length (TASK k) = 64" by (rule sinv_current [OF sv])
  obtain r where r: "waitpid_scan p 63 False k = Inr r" using a(2) by (auto simp: sys_waitpid_def kbind_eq_Inr MAX_TASK_def)
  note res = waitpid_scan_result [OF sv c(1) _ r, simplified]
  show ?thesis
  proof (cases r)
    case (Reaped q' code' s')
    then obtain i t where i: "wait_child p k i t" "release i (set_task (current k) (c\<lparr>time := time c + time t\<rparr>) k) = Inr s'" using res by auto
    have "i \<noteq> current k" using i(1) by (auto simp: wait_child_def)
    then have "keeps_caller (set_task (current k) (c\<lparr>time := time c + time t\<rparr>) k) s'" using release_caller [OF i(2)] by simp
    moreover have "s' = k'" using a(2) r Reaped by (simp add: sys_waitpid_def MAX_TASK_def)
    ultimately show ?thesis using c by (simp add: keeps_caller_def)
  qed (use a(2) r in \<open>auto simp: sys_waitpid_def MAX_TASK_def kbind_eq_Inr\<close>)
qed

lemma exec_caller: "pinv k \<Longrightarrow> do_execve ex ip0 path argv argv0 k v = Inr (Returns n, k', v') \<Longrightarrow> keeps_caller k k'"
  using execve_outcome by (fastforce simp: keeps_caller_def)

text \<open>Every system call keeps the machine well formed, and one that returns keeps the caller.\<close>

lemma sys_exec_facts:
  assumes "mwf m" "sys_exec w path argv m = Inr (r, m')"
  shows "mwf m'" "r = Result v st \<Longrightarrow> keeps_caller (kern m) (kern m')"
proof -
  have inv: "pinv (kern m)" using assms(1) by (simp add: mwf_def)
  obtain q k' v' where d: "do_execve (w_exit w) (w_ip w) (if path = 0 then None else Some (w_string w path)) argv (w_word w argv) (kern m) (files m) = Inr (q, k', v')"
    "r = (case q of Returns n \<Rightarrow> Result (of_int n) None | Runs img \<Rightarrow> Gone)" "m' = m\<lparr>kern := k', files := v'\<rparr>"
    using assms(2) by (auto simp: sys_exec_def kbind_eq_Inr)
  show "mwf m'" using execve_outcome [OF inv d(1)] assms(1) d(3) by (simp add: mwf_def)
  show "keeps_caller (kern m) (kern m')" if "r = Result v st"
    using exec_caller [OF inv] d that by (cases q) auto
qed

lemma sys_wait_facts:
  assumes "pinv k" "sys_wait p stat k = Inr (r, k')"
  shows "pinv k'" "r = Result v st \<Longrightarrow> keeps_caller k k'"
proof -
  obtain q k1 where q1: "sys_waitpid (sint (ucast p :: i32)) k = Inr (q, k1)" using assms(2) by (auto simp: sys_wait_def kbind_eq_Inr)
  have q: "sys_waitpid (sint (ucast p :: i32)) k = Inr (q, k')" "r = Result v st \<longrightarrow> (\<exists>n code. q = Returned n code)"
    using assms(2) q1 by (cases q; simp add: sys_wait_def)+
  show "pinv k'" by (rule sys_waitpid_pinv [OF assms(1) q(1)])
  show "keeps_caller k k'" if "r = Result v st" using q that wait_caller [OF assms(1)] by auto
qed

lemma sys_call_cases:
  assumes "sys_call w c m = Inr (r, m')"
  shows "kern m' = kern m \<and> timers m' = timers m \<or> (\<exists>p k. sys_fork (kern m) = Inr (p, k) \<and> m' = m\<lparr>kern := k\<rparr>) \<or>
    sys_exec w (r_a0 c) (r_a1 c) m = Inr (r, m') \<or> (\<exists>e k. do_exit e (kern m) = Inr k \<and> m' = m\<lparr>kern := k\<rparr> \<and> r = Gone) \<or>
    (\<exists>k. sys_wait (r_a0 c) (r_a1 c) (kern m) = Inr (r, k) \<and> m' = m\<lparr>kern := k\<rparr>)"
  using assms unfolding sys_call_def Let_def by (simp only: kbind_eq_Inr split: if_splits) (auto simp: sys_exit_def)

lemma sys_call_mwf:
  assumes "mwf m" "sys_call w c m = Inr (r, m')"
  shows "mwf m'"
  using sys_call_cases [OF assms(2)]
proof (elim disjE exE conjE)
  assume "sys_exec w (r_a0 c) (r_a1 c) m = Inr (r, m')"
  then show ?thesis by (rule sys_exec_facts(1) [OF assms(1)])
qed (use assms(1) in \<open>auto simp: mwf_def intro: sys_fork_pinv do_exit_pinv sys_wait_facts(1)\<close>)

lemma sys_call_caller:
  assumes "mwf m" "sys_call w c m = Inr (Result v st, m')"
  shows "keeps_caller (kern m) (kern m')"
  using sys_call_cases [OF assms(2)]
proof (elim disjE exE conjE)
  assume "sys_exec w (r_a0 c) (r_a1 c) m = Inr (Result v st, m')"
  then show ?thesis by (rule sys_exec_facts(2) [OF assms(1) _ refl])
qed (use assms(1) in \<open>auto simp: mwf_def keeps_caller_def [of "kern m" "kern m"] intro: fork_caller sys_wait_facts(2)\<close>)

lemma serve_irq_kern: "serve_irq w irq m = Some (Inr m') \<Longrightarrow> kern m' = kern m \<and> timers m' = timers m"
  by (auto simp: serve_irq_def kbind_eq_Inr split: if_splits)

lemma irq_kern: "machine_interrupt_handler w m = Some (Inr m') \<Longrightarrow> kern m' = kern m \<and> timers m' = timers m"
  by (auto simp: machine_interrupt_handler_def kbind_eq_Inr dest!: serve_irq_kern split: prod.splits if_splits)

lemma tick_caller:
  assumes "timer_interrupt_handler fire [] k = Inr k'" "current k' = current k"
  shows "keeps_caller k k'"
proof -
  let ?k = "timer_selfadd k"
  obtain c where c: "the_task ?k (current ?k) = Inr c" using assms(1) by (auto simp: timer_interrupt_handler_def do_timer_def kbind_eq_Inr)
  then have T: "TASK ?k ! current ?k = Some c" "current ?k < length (TASK ?k)" by (auto simp: the_task_def kbind_eq_Inr split: option.splits)
  have p: "proj ctx (set_task (current ?k) c' ?k) = proj ctx ?k" if "ctx c' = ctx c" for c' using proj_set_task [OF T(1) that] .
  have "proj ctx k' = proj ctx k"
    using assms(1) c p schedule_proj [OF blind_ctx]
    by (auto simp: timer_interrupt_handler_def do_timer_def Let_def timer_selfadd_def split: if_splits)
  then have "proj ctx k' ! current k = proj ctx k ! current k" "length (TASK k') = length (TASK k)" by (simp, metis length_map proj_def)
  then show ?thesis using assms(2) T(2) by (simp add: keeps_caller_def proj_def timer_selfadd_def)
qed

lemma do_syscall_facts:
  assumes "mwf m" "do_syscall w m = Inr (r, m')"
  shows "mwf m'" "r = Result v st \<Longrightarrow> current (kern m') = current (kern m) \<and>
    map_option ctx (TASK (kern m') ! current (kern m)) = map_option (\<lambda>t. (ctx t)\<lparr>r_a0 := v\<rparr>) (TASK (kern m) ! current (kern m))"
proof -
  let ?i = "current (kern m)"
  obtain t q m1 where d: "TASK (kern m) ! ?i = Some t" "sys_call w (ctx t) m = Inr (q, m1)"
    "(case q of Gone \<Rightarrow> Inr (Gone, m1) | Result v st \<Rightarrow> kbind (set_ctx ?i (\<lambda>c. c\<lparr>r_a0 := v\<rparr>) m1) (\<lambda>m. Inr (Result v st, m))) = Inr (r, m')"
    using assms(2) by (auto simp: do_syscall_def Let_def kbind_eq_Inr the_task_def split: option.splits)
  have m1: "mwf m1" by (rule sys_call_mwf [OF assms(1) d(2)])
  show "mwf m'" using d(3) m1 set_ctx_mwf by (cases q) (auto simp: kbind_eq_Inr)
  show "current (kern m') = ?i \<and> map_option ctx (TASK (kern m') ! ?i) = map_option (\<lambda>t. (ctx t)\<lparr>r_a0 := v\<rparr>) (TASK (kern m) ! ?i)" if "r = Result v st"
  proof -
    have q: "q = Result v st" "set_ctx ?i (\<lambda>c. c\<lparr>r_a0 := v\<rparr>) m1 = Inr m'" using d(3) that by (auto simp: kbind_eq_Inr split: sys_out.splits)
    have "keeps_caller (kern m) (kern m1)" using sys_call_caller [OF assms(1)] d(2) q(1) by simp
    then show ?thesis using q(2) d(1) by (auto simp: set_ctx_Inr keeps_caller_def)
  qed
qed

text \<open>The registers the handler leaves in the caller's context.\<close>

definition after_trap :: "u64 \<Rightarrow> reg \<Rightarrow> reg \<Rightarrow> bool" where
  "after_trap cause c c' \<longleftrightarrow> (if cause AND 0x8000000000000000 \<noteq> 0 then c' = c else \<exists>v. c' = c\<lparr>r_a0 := v\<rparr>)"

lemma trap_handler_facts:
  assumes "mwf m" "trap_handler w cause pc m = Some (Inr (x, m'))" "TASK (kern m) ! current (kern m) = Some t"
  shows "mwf m' \<and> (\<forall>e. x = Back e \<longrightarrow> current (kern m') = current (kern m) \<and> e = (if cause AND 0x8000000000000000 \<noteq> 0 then pc else pc + 4) \<and>
    (\<exists>t'. TASK (kern m') ! current (kern m) = Some t' \<and> after_trap cause (ctx t) (ctx t')))"
proof (cases "cause AND 0x8000000000000000 = 0")
  case False
  then have x: "trap_interrupt w (cause AND 0xFFF) m = Some (Inr m')" "x = (if current (kern m') = current (kern m) then Back pc else Away)"
    using assms(2) by (auto simp: trap_handler_def Let_def kbind_eq_Inr)
  consider "timer_interrupt_handler (w_fire w) [] (kern m) = Inr (kern m')" "timers m' = timers m"
    | "kern m' = kern m" "timers m' = timers m"
    using x(1) assms(1) by (auto simp: trap_interrupt_def kbind_eq_Inr mwf_def dest: irq_kern split: if_splits)
  then have "mwf m' \<and> (current (kern m') = current (kern m) \<longrightarrow> keeps_caller (kern m) (kern m'))"
    using assms(1) tick_pinv tick_caller by cases (auto simp: mwf_def)
  then show ?thesis using x(2) False assms(3) by (auto simp: keeps_caller_def after_trap_def map_option_eq_Some)
next
  case True
  then obtain r where r: "do_syscall w m = Inr (r, m')" "x = (case r of Gone \<Rightarrow> Away | Result v st \<Rightarrow> Back (pc + 4))"
    using assms(2) by (auto simp: trap_handler_def Let_def kbind_eq_Inr split: if_splits)
  show ?thesis
  proof (cases r)
    case (Result v st)
    then show ?thesis using do_syscall_facts [OF assms(1) r(1)] r(2) True assms(3) by (auto simp: after_trap_def)
  qed (use do_syscall_facts(1) [OF assms(1) r(1)] r(2) in simp)
qed

lemma after_trap_regs:
  assumes "after_trap cause (reg_save u pc c) c'"
  shows "\<exists>x. if cause AND 0x8000000000000000 \<noteq> 0
      then c'\<lparr>r_epc := if cause AND 0x8000000000000000 \<noteq> 0 then pc else pc + 4\<rparr> = u\<lparr>r_epc := pc, r_temp := x\<rparr>
      else \<exists>v. c'\<lparr>r_epc := if cause AND 0x8000000000000000 \<noteq> 0 then pc else pc + 4\<rparr> = u\<lparr>r_a0 := v, r_epc := pc + 4, r_temp := x\<rparr>"
proof (cases "cause AND 0x8000000000000000 = 0")
  case True
  then obtain v where "c' = (reg_save u pc c)\<lparr>r_a0 := v\<rparr>" using assms by (auto simp: after_trap_def)
  then have "c'\<lparr>r_epc := pc + 4\<rparr> = u\<lparr>r_a0 := v, r_epc := pc + 4, r_temp := r_temp c\<rparr>" by (simp add: reg_save_def)
  then show ?thesis using True by auto
next
  case False
  then have "c'\<lparr>r_epc := pc\<rparr> = u\<lparr>r_epc := pc, r_temp := r_temp c\<rparr>" using assms by (simp add: after_trap_def reg_save_def)
  then show ?thesis using False by auto
qed

lemma trap_vector_facts:
  assumes wf: "mwf m" and d: "trap_vector w cause pc u m = Some (Inr (r, m'))"
  shows "mwf m' \<and> (cause AND 0x8000000000000000 \<noteq> 0 \<or> cause AND 0xFFF = 8) \<and>
    (\<forall>u'. r = Some u' \<longrightarrow> current (kern m') = current (kern m) \<and> get_mode m' = 0 \<and>
       (\<exists>x. if cause AND 0x8000000000000000 \<noteq> 0 then u' = u\<lparr>r_epc := pc, r_temp := x\<rparr>
            else \<exists>v. u' = u\<lparr>r_a0 := v, r_epc := pc + 4, r_temp := x\<rparr>))"
proof -
  let ?i = "current (kern m)"
  obtain m1 where m1: "set_ctx ?i (reg_save u pc) m = Inr m1" using d by (auto simp: trap_vector_def Let_def kbind_def split: sum.splits)
  obtain x m2 where h: "trap_handler w cause pc (set_mode 1 m1) = Some (Inr (x, m2))"
    "(case x of Away \<Rightarrow> Inr (None, m2) | Back e \<Rightarrow> kbind (set_ctx ?i (\<lambda>c. c\<lparr>r_epc := e\<rparr>) m2) (\<lambda>m. kbind (the_task (kern m) ?i) (\<lambda>t. Inr (Some (ctx t), set_mode 0 m)))) = Inr (r, m')"
    using d m1 by (auto simp: trap_vector_def Let_def kbind_eq_Inr split: sum.splits)
  obtain t where t: "TASK (kern m) ! ?i = Some t" "?i < length (TASK (kern m))" "m1 = m\<lparr>kern := set_task ?i (t\<lparr>ctx := reg_save u pc (ctx t)\<rparr>) (kern m)\<rparr>"
    using m1 by (auto simp: set_ctx_Inr)
  have w1: "mwf (set_mode 1 m1)" using set_ctx_mwf [OF wf m1] by (simp add: mwf_def set_mode_def)
  have c1: "TASK (kern (set_mode 1 m1)) ! current (kern (set_mode 1 m1)) = Some (t\<lparr>ctx := reg_save u pc (ctx t)\<rparr>)" "current (kern (set_mode 1 m1)) = ?i"
    using t by (simp_all add: set_mode_def)
  note f = trap_handler_facts [OF w1 h(1) c1(1), unfolded c1(2)]
  have eq: "ctx (t\<lparr>ctx := reg_save u pc (ctx t)\<rparr>) = reg_save u pc (ctx t)" by simp
  have f': "mwf m2 \<and> (\<forall>e. x = Back e \<longrightarrow> current (kern m2) = ?i \<and> e = (if cause AND 0x8000000000000000 \<noteq> 0 then pc else pc + 4) \<and>
      (\<exists>t'. TASK (kern m2) ! ?i = Some t' \<and> after_trap cause (reg_save u pc (ctx t)) (ctx t')))"
    using f unfolding eq .
  have g: "cause AND 0x8000000000000000 \<noteq> 0 \<or> cause AND 0xFFF = 8" using h(1) by (auto simp: trap_handler_def Let_def split: if_splits)
  show ?thesis
  proof (cases x)
    case Away
    then show ?thesis using f' h(2) g by simp
  next
    case (Back e)
    obtain t2 where t2: "current (kern m2) = ?i" "e = (if cause AND 0x8000000000000000 \<noteq> 0 then pc else pc + 4)"
      "TASK (kern m2) ! ?i = Some t2" "after_trap cause (reg_save u pc (ctx t)) (ctx t2)"
      using f' [THEN conjunct2, THEN spec, THEN mp, OF Back] by blast
    obtain m3 where m3: "set_ctx ?i (\<lambda>c. c\<lparr>r_epc := e\<rparr>) m2 = Inr m3" "kbind (the_task (kern m3) ?i) (\<lambda>t. Inr (Some (ctx t), set_mode 0 m3)) = Inr (r, m')"
      using h(2) unfolding Back trap_out.case by (rule kbind_InrE)
    have lt: "?i < length (TASK (kern m2))" using m3(1) by (simp add: set_ctx_Inr)
    have r: "r = Some ((ctx t2)\<lparr>r_epc := e\<rparr>)" "m' = set_mode 0 (m2\<lparr>kern := set_task ?i (t2\<lparr>ctx := (ctx t2)\<lparr>r_epc := e\<rparr>\<rparr>) (kern m2)\<rparr>)"
      using m3 lt t2(3) by (simp_all add: set_ctx_Inr the_task_def)
    have "mwf m'" using f' [THEN conjunct1] set_ctx_pinv [OF _ t2(3)] unfolding r(2) by (simp add: mwf_def set_mode_def)
    moreover have "current (kern m') = ?i" "get_mode m' = 0" using t2(1) unfolding r(2) by (simp_all add: set_mode_def get_mode_def)
    moreover note after_trap_regs [OF t2(4), folded t2(2)]
    ultimately show ?thesis using r(1) g by simp
  qed
qed


text \<open>The first task asks for its process number.\<close>

definition demo_world :: "(u8 list \<times> u8 list \<times> nat) world" where
  "demo_world = \<lparr>w_uart = demo_port, w_dev = (\<lambda>_ _. 0), w_hart = 0, w_exit = 0x80200000, w_string = (\<lambda>_. []), w_word = (\<lambda>_. 0),
     w_ip = None, w_fire = (\<lambda>_. Inr)\<rparr>"

definition demo_machine :: "(u8 list \<times> u8 list \<times> nat) machine" where
  "demo_machine = \<lparr>kern = boot_state, files = demo_vfs, port = ([], [], 0), bus = [], csr = \<lparr>csr_sie = 0, csr_sstatus = 0, csr_stvec = 0\<rparr>,
     MODE = 0, timers = []\<rparr>"

definition demo_regs :: reg where
  "demo_regs = (exec_ctx 0 0x80600800 0 0)\<lparr>r_a0 := 99, r_a7 := NR_getpid\<rparr>"


end
