(* ===== verification/Boot.thy ===== *)
theory Boot
  imports Trap
begin

text \<open>
  Start-up: the initialisation that \<^verbatim>\<open>kernel_start\<close> of \<^verbatim>\<open>src/kernel/kernel.c\<close> runs on hart 0, in its order, and the property that it
  establishes the invariants which the other theories assume of a running kernel.
\<close>

section \<open>The start of hart 0\<close>

definition kernel_init :: "'u world \<Rightarrow> u64 \<Rightarrow> 'u machine \<Rightarrow> 'u machine res" where
  "kernel_init w vector m =
     (let k = kern m
      in kbind (Init_page (pg (heap k))) (\<lambda>g.
         kbind (Init_block_desc ((heap k)\<lparr>pg := g\<rparr>)) (\<lambda>h.
           let u = Init_uart (w_uart w) (port m);
               c = Init_trap vector (csr m);
               k = Init_sched k;
               (l, c) = Init_plic (w_hart w) (bus m, c);
               c = Init_timer c;
               d = Init_buffer (io (fsys (files m)))
           in kbind (Init_virtio (w_dev w) l h d) (\<lambda>(l, h, d).
              Inr (m\<lparr>kern := k\<lparr>heap := h\<rparr>, port := u, csr := c, bus := l, files := (files m)\<lparr>fsys := (fsys (files m))\<lparr>io := d\<rparr>\<rparr>\<rparr>)))))"

text \<open>
  \<^verbatim>\<open>kernel_start\<close> up to the message that all is initialised: hart 0 initialises and releases \<open>start_lock\<close>, which starts out taken; another hart takes and
  releases it. The firmware calls that it makes before are added by \<open>kernel_main\<close> of the theory \<open>Start\<close>.
\<close>

definition kernel_start :: "'u world \<Rightarrow> u64 \<Rightarrow> u64 \<Rightarrow> u32 \<times> 'u machine \<Rightarrow> (u32 \<times> 'u machine) res" where
  "kernel_start w vector hartid =
     (\<lambda>(start_lock, m).
       if hartid = 0 then kbind (kernel_init w vector m) (\<lambda>m. Inr (spin_unlock start_lock, m))
       else kbind (spin_lock start_lock) (\<lambda>l. Inr (spin_unlock l, m)))"

text \<open>
  The first process: \<^verbatim>\<open>Init\<close> of \<^verbatim>\<open>src/init/init.c\<close> up to its test programs, which mounts the volume and enters the root directory.
\<close>

definition Init_root :: "vfs \<Rightarrow> vfs res" where
  "Init_root v =
     kbind (fat32_fs_mount ROOTDEV (inode_table_init (fsys v))) (\<lambda>s.
     kbind (fat32_inode_dup ROOT s) (\<lambda>(p, s). Inr (v\<lparr>fsys := s, v_cwd := Some p\<rparr>)))"

definition wait :: "u64 \<Rightarrow> kstate \<Rightarrow> (sys_out \<times> kstate) res" where
  "wait wait_stat k = sys_wait (- 1) wait_stat k"

section \<open>Room for the allocations\<close>

definition used_pages :: "pgstate \<Rightarrow> nat" where "used_pages g = card (live_pages g)"

lemma live_pages_image: "live_pages g = page_addr g ` {i. i < unat (num_pages g) \<and> \<not> page_is_free (descs g ! i)}"
  by (auto simp: live_pages_def)

lemma finite_live: "finite (live_pages g)"
  unfolding live_pages_image by simp

lemma used_alloc: "single_pages g \<Longrightarrow> page_alloc1 g = Some (p, g') \<Longrightarrow> used_pages g' = Suc (used_pages g) \<and> num_pages g' = num_pages g \<and> single_pages g'"
  using page_pool.alloc_fresh page_pool.alloc_live page_pool.alloc_inv page_alloc1_step
  by (metis card_insert_disjoint finite_live used_pages_def)

lemma used_full:
  assumes sp: "single_pages g" and n: "page_alloc1 g = None"
  shows "unat (num_pages g) \<le> used_pages g"
proof -
  obtain bs where n0: "0 < unat (num_pages g)" and bs: "pg_abs g bs" "set bs \<subseteq> {FreePage, Block 0}" using sp by (auto simp: single_pages_def)
  have p0: "page_alloc 1 g = Inr (0, g)" using n page_alloc_one [OF sp] by (metis option.distinct(1))
  have "1 \<le> unat (num_pages g)" using n0 by simp
  note pc = page_alloc_cases [OF bs(1) zero_less_one this]
  have "bs ! i = Block 0" if i: "i < length bs" for i
  proof (rule ccontr)
    assume "bs ! i \<noteq> Block 0"
    then have "bs ! i = FreePage" using bs(2) nth_mem [OF i] by auto
    then have "bs = take i bs @ replicate 1 FreePage @ drop (Suc i) bs" using id_take_nth_drop [OF i] by simp
    then obtain pre post where pp: "bs = pre @ replicate 1 FreePage @ post" "page_alloc 1 g = Inr (page_addr g (length (table_of pre)), g\<lparr>descs :=
       table_of (pre @ Block (1 - 1) # post) @ drop (unat (num_pages g)) (descs g)\<rparr>)" using pc by auto
    have "set pre \<subseteq> {FreePage, Block 0}" using bs(2) pp(1) by auto
    then have "length (table_of pre) < unat (num_pages g)" using table_of_singles pp(1) live_pages_abs(2) [OF bs] by fastforce
    then have "page_addr g (length (table_of pre)) \<noteq> 0" by (rule page_addr_facts(2) [OF bs(1)])
    then show False using pp(2) p0 by simp
  qed
  then have "live_pages g = page_addr g ` {..<unat (num_pages g)}" using live_pages_abs [OF bs] by auto
  moreover have "inj_on (page_addr g) {..<unat (num_pages g)}" using page_addr_inj [OF bs(1)] by (auto intro: inj_onI)
  ultimately show ?thesis by (simp add: used_pages_def card_image)
qed

lemma two_pages: "single_pages g \<Longrightarrow> used_pages g + 2 \<le> unat (num_pages g) \<Longrightarrow> take_slots page_alloc1 2 g \<noteq> None"
proof -
  assume a: "single_pages g" "used_pages g + 2 \<le> unat (num_pages g)"
  obtain p g1 where 1: "page_alloc1 g = Some (p, g1)" using used_full [OF a(1)] a(2) by (cases "page_alloc1 g") auto
  note u = used_alloc [OF a(1) 1]
  obtain q g2 where 2: "page_alloc1 g1 = Some (q, g2)" using used_full [of g1] u a(2) by (cases "page_alloc1 g1") auto
  show ?thesis using 1 2 by (simp add: take_slots_numeral)
qed

text \<open>An allocation of any size takes at most two pages.\<close>

definition page_cost :: "nat \<Rightarrow> mstate \<Rightarrow> mstate \<Rightarrow> bool" where
  "page_cost n h h' \<longleftrightarrow> used_pages (pg h') \<le> used_pages (pg h) + n \<and> num_pages (pg h') = num_pages (pg h)"

lemma used_hmem [simp]: "used_pages (g\<lparr>hmem := x\<rparr>) = used_pages g"
  by (simp add: used_pages_def live_pages_def page_addr_def)

lemma page_alloc_cost:
  assumes "single_pages g" "page_alloc 1 g = Inr (p, g')"
  shows "used_pages g' \<le> Suc (used_pages g) \<and> num_pages g' = num_pages g \<and> single_pages g'"
  using assms(1)
proof (cases rule: page_alloc_one)
  case (2 q ds)
  then show ?thesis using used_alloc [OF assms(1) 2(3)] assms(2) by simp
qed (use assms in simp)

lemma Init_block_desc_cost:
  assumes "single_pages (pg h)" "Init_block_desc h = Inr h'"
  shows "page_cost 1 h h' \<and> single_pages (pg h')"
proof -
  obtain p g where g: "page_alloc 1 (pg h) = Inr (p, g)" "pg h' = g"
    using assms(2) by (auto simp: Init_block_desc_def kbind_eq_Inr split: if_splits)
  show ?thesis using page_alloc_cost [OF assms(1) g(1)] g(2) by (simp add: page_cost_def)
qed

lemma new_desc_cost:
  assumes sp: "single_pages (pg h)" and d: "new_desc sz b h = Inr h'"
  shows "page_cost 2 h h'"
proof -
  obtain h1 where h1: "(if free_block_desc h = [] then Init_block_desc h else Inr h) = Inr h1" using d by (auto simp: new_desc_def kbind_eq_Inr)
  have c1: "page_cost 1 h h1 \<and> single_pages (pg h1)"
    using h1 Init_block_desc_cost [OF sp] sp by (auto simp: page_cost_def split: if_splits)
  obtain da rest where fd: "free_block_desc h1 = da # rest" using d h1 by (auto simp: new_desc_def kbind_eq_Inr split: list.splits)
  obtain cp g where g: "page_alloc 1 (pg h1) = Inr (cp, g)" using d h1 fd by (auto simp: new_desc_def kbind_eq_Inr)
  have "used_pages (pg h') = used_pages g \<and> num_pages (pg h') = num_pages g"
    using d h1 fd g by (auto simp: new_desc_def kbind_eq_Inr Let_def split: if_splits prod.splits)
  then show ?thesis using c1 page_alloc_cost [OF conjunct2 [OF c1] g] by (simp add: page_cost_def)
qed

lemma take_object_cost: "take_object b k h = Inr (p, h') \<Longrightarrow> pg h' = pg h"
  by (auto simp: take_object_def kbind_eq_Inr Let_def split: prod.splits)

lemma kmalloc_cost:
  assumes "single_pages (pg h)" "kmalloc len h = Inr (p, h')"
  shows "page_cost 2 h h'"
proof -
  obtain b sz ds where "(case find_free_desc ds 0 of Some k \<Rightarrow> take_object b k h | None \<Rightarrow> kbind (new_desc sz b h) (take_object b 0)) = Inr (p, h')"
    using assms(2) by (auto simp: kmalloc_def kbind_eq_Inr case_prod_unfold)
  then consider k where "take_object b k h = Inr (p, h')" | h1 where "new_desc sz b h = Inr h1" "take_object b 0 h1 = Inr (p, h')"
    by (auto simp: kbind_eq_Inr split: option.splits)
  then show ?thesis
  proof cases
    case 1
    then show ?thesis using take_object_cost by (simp add: page_cost_def)
  next
    case 2
    then show ?thesis using new_desc_cost [OF assms(1) 2(1)] take_object_cost [OF 2(2)] by (simp add: page_cost_def)
  qed
qed

lemma kmalloc_room:
  assumes "minv h" "unat len \<le> 4096" "used_pages (pg h) + 2 \<le> unat (num_pages (pg h))"
  shows "\<exists>p h'. kmalloc len h = Inr (p, h') \<and> p \<noteq> 0 \<and> minv h' \<and> page_cost 2 h h'"
proof -
  have sp: "single_pages (pg h)" using assms(1) by (simp add: minv_def)
  from kmalloc_cases [OF assms(1,2)] two_pages [OF sp assms(3)] obtain p h' b P
    where k: "kmalloc len h = Inr (p, h')" "minv h'" "b < 10" "page_ok P" "p \<in> objects P (sizes ! b)" by blast
  have "p \<noteq> 0" using object_page(2) [OF k(4,5)] sizes_facts(2) [OF k(3)] by simp
  then show ?thesis using k kmalloc_cost [OF sp k(1)] by blast
qed

section \<open>The disk answers\<close>

text \<open>
  What the driver relies on: the identification registers, a queue that is not in use before the driver has enabled it and is long enough, and a status
  register that reads back what was written last.
\<close>

definition disk_present :: "device \<Rightarrow> bool" where
  "disk_present d \<longleftrightarrow>
     (\<forall>l. d l MAGIC_VALUE = VIRTIO_MAGIC_VALUE \<and> d l DEVICE_VERSION = VIRTIO_DEVICE_VERSION \<and> d l DEVICE_ID = VIRTIO_DEVICE_ID \<and>
        d l VENDOR_ID = VIRTIO_VENDER_ID \<and> of_nat QUEUE_SIZE \<le> d l QUEUE_NUM_MAX) \<and>
     (\<forall>l. (\<forall>v. Wr QUEUE_READY v \<notin> set l) \<longrightarrow> d l QUEUE_READY = 0) \<and>
     (\<forall>l. status_writes l \<noteq> [] \<longrightarrow> d l DEVICE_STATUS = last (status_writes l))"

lemma find_disk_present:
  assumes "disk_present d"
  shows "\<exists>rs. find_disk d l = Inr (l @ map Rd rs)"
proof -
  have "find_disk d l = Inr (l @ map Rd [MAGIC_VALUE, DEVICE_VERSION, DEVICE_ID, VENDOR_ID, MAGIC_VALUE, DEVICE_VERSION, DEVICE_ID, VENDOR_ID])"
    using assms by (simp add: disk_present_def find_disk_def mm_read_def)
  then show ?thesis by blast
qed

lemma negotiate_present:
  assumes p: "disk_present d" and l: "\<forall>v. Wr QUEUE_READY v \<notin> set l"
  shows "\<exists>l'. negotiate d l = Inr (11, l')"
proof -
  let ?l = "l @ [Wr DEVICE_STATUS 0, Wr DEVICE_STATUS 1, Wr DEVICE_STATUS 3, Rd DEVICE_FEATURES,
      Wr DRIVER_FEATURES (ucast (driver_features (ucast (d (l @ [Wr DEVICE_STATUS 0, Wr DEVICE_STATUS 1, Wr DEVICE_STATUS 3]) DEVICE_FEATURES)))), Wr DEVICE_STATUS 11]"
  have st: "d ?l DEVICE_STATUS = 11" using p by (simp add: disk_present_def virtio_regs)
  have rdy: "d (?l @ [Rd DEVICE_STATUS, Wr QUEUE_SEL 0]) QUEUE_READY = 0" using p l by (auto simp: disk_present_def virtio_regs)
  have mx: "of_nat QUEUE_SIZE \<le> d x QUEUE_NUM_MAX" for x using p by (simp add: disk_present_def)
  have "d x QUEUE_NUM_MAX \<noteq> 0" for x using mx [of x] by (auto simp: QUEUE_SIZE_def)
  then show ?thesis using st rdy mx
    by (simp add: negotiate_def mm_read_def mm_write_def VIRTIO_CONFIG_S_ACKNOWLEDGE_def VIRTIO_CONFIG_S_DRIVER_def VIRTIO_CONFIG_S_FEATURES_OK_def not_less)
qed

lemma Init_virtio_ok:
  assumes d: "disk_present d" and l: "\<forall>v. Wr QUEUE_READY v \<notin> set l" and h: "minv h" and room: "used_pages (pg h) + 6 \<le> unat (num_pages (pg h))"
  shows "\<exists>l' h'. Init_virtio d l h s = Inr (l', h', disk_reset s) \<and> minv h' \<and> page_cost 6 h h' \<and> status_writes l' = status_writes l @ [0, 1, 3, 11, 15]"
proof -
  have b: "unat (4096 :: u32) \<le> 4096" by simp
  obtain rs where f: "find_disk d l = Inr (l @ map Rd rs)" using find_disk_present [OF d] by blast
  have "\<forall>v. Wr QUEUE_READY v \<notin> set (l @ map Rd rs)" using l by auto
  then obtain l2 where n: "negotiate d (l @ map Rd rs) = Inr (11, l2)" using negotiate_present [OF d] by blast
  obtain p1 h1 where 1: "kmalloc 4096 h = Inr (p1, h1)" "p1 \<noteq> 0" "minv h1" "page_cost 2 h h1" using kmalloc_room [OF h b] room by auto
  have "used_pages (pg h1) + 4 \<le> unat (num_pages (pg h1))" using 1(4) room by (simp add: page_cost_def)
  then obtain p2 h2 where 2: "kmalloc 4096 h1 = Inr (p2, h2)" "p2 \<noteq> 0" "minv h2" "page_cost 2 h1 h2" using kmalloc_room [OF 1(3) b] by auto
  have "used_pages (pg h2) + 2 \<le> unat (num_pages (pg h2))" using 1(4) 2(4) room by (simp add: page_cost_def)
  then obtain p3 h3 where 3: "kmalloc 4096 h2 = Inr (p3, h3)" "p3 \<noteq> 0" "minv h3" "page_cost 2 h2 h3" using kmalloc_room [OF 2(3) b] by auto
  have c: "page_cost 6 h h3" using 1(4) 2(4) 3(4) by (simp add: page_cost_def)
  have w: "status_writes l2 = status_writes l @ [0, 1, 3, 11]" using find_disk_status [OF f] negotiate_status [OF n] by simp
  have "status_writes (mm_write DEVICE_STATUS (11 OR VIRTIO_CONFIG_S_DRIVER_OK) (publish_queue p1 p2 p3 l2)) = status_writes l @ [0, 1, 3, 11, 15]"
    using w by (simp add: publish_queue_def virtio_regs VIRTIO_CONFIG_S_DRIVER_OK_def)
  then show ?thesis using f n c 1(1-3) 2(1-3) 3(1-3) by (simp add: Init_virtio_def disk_reset_def)
qed

section \<open>The loaded image\<close>

text \<open>
  The kernel as it is loaded, with its static data as the compiler initialises them: a heap of \<open>n\<close> pages, an empty allocator, the task table with only
  the first task, zeroed buffers and disk structure, no access to a device yet.
\<close>

definition boot_image :: "nat \<Rightarrow> 'u machine \<Rightarrow> bool" where
  "boot_image n m \<longleftrightarrow>
     (let k = kern m; h = heap k; g = pg h; d = io (fsys (files m))
      in unat (heap_size g) = 4096 * n \<and> n - 8 \<le> length (descs g) \<and> unat (heap_start g) + 4096 * n + 4095 < 2 ^ 32 \<and>
         block_dir h = block_dir0 \<and> free_block_desc h = [] \<and>
         (\<exists>a stk. take 1 (TASK k) = [Some (init_task a stk)]) \<and> current k = 0 \<and> queue_head k = replicate 5 [] \<and> length (tail k) = 5 \<and> NEW_PID k = 0 \<and>
         bufs d = replicate BUFFER_NUM buf0 \<and> bcache_lock d = 0 \<and> used_idx d = 0 \<and> dev_avail d = 0 \<and> length (info d) = QUEUE_SIZE \<and> length (ops d) = QUEUE_SIZE \<and>
         bus m = [] \<and> timers m = [])"

lemma fresh_heap:
  assumes "pg_abs g (replicate n FreePage)" "unat (num_pages g) = n" "0 < n" "unat (alloc_start g) mod 4096 = 0"
  shows "minv \<lparr>pg = g, block_dir = block_dir0, free_block_desc = []\<rparr>" "used_pages g = 0"
proof -
  have sp: "single_pages g" unfolding single_pages_def using assms(1-3) by (intro conjI exI [of _ "replicate n FreePage"]) auto
  have "block_dir0 = block_dir0[9 := (4096, [])]" by (simp add: block_dir0_def bucket_sizes_def)
  then show "minv \<lparr>pg = g, block_dir = block_dir0, free_block_desc = []\<rparr>"
    using minv_bucket9 [OF sp, of "[]" "[]"] assms(4) by (simp add: dvd_eq_mod_eq_0)
  have "set (replicate n FreePage) \<subseteq> {FreePage, Block 0}" by auto
  then have "live_pages g = {}" using live_pages_abs(1) [OF assms(1)] assms(2) by simp
  then show "used_pages g = 0" by (simp add: used_pages_def)
qed

lemma Init_block_desc_ok:
  assumes inv: "minv h" and room: "used_pages (pg h) < unat (num_pages (pg h))"
  shows "\<exists>h'. Init_block_desc h = Inr h' \<and> minv h' \<and> page_cost 1 h h'"
proof -
  have sp: "single_pages (pg h)" using inv by (simp add: minv_def)
  then show ?thesis
  proof (cases rule: page_alloc_one)
    case 1
    then show ?thesis using used_full [OF sp] room by simp
  next
    case (2 p ds)
    then have i: "Init_block_desc h = Inr (h\<lparr>pg := (pg h)\<lparr>descs := ds\<rparr>, free_block_desc := map (\<lambda>i. p + of_nat (32 * i)) [0..<DESCS_PER_PAGE] @ free_block_desc h\<rparr>)"
      by (simp add: Init_block_desc_def)
    show ?thesis using i minv_more_pages(1) [OF inv 2(3)] Init_block_desc_cost [OF sp i] by blast
  qed
qed

lemma fresh_disk:
  assumes "bufs d = replicate BUFFER_NUM buf0" "bcache_lock d = 0" "used_idx d = 0" "dev_avail d = 0" "length (info d) = QUEUE_SIZE" "length (ops d) = QUEUE_SIZE"
    "dev \<noteq> 0"
  shows "binv dev (disk_reset (Init_buffer d))"
proof -
  have b: "bufs (disk_reset (Init_buffer d)) = bufs (boot_io (media d))" using assms(1) by (simp add: disk_reset_def Init_buffer_def boot_io_def idle_disk_def)
  have v: "vidle (disk_reset (Init_buffer d))" "bcache_lock (disk_reset (Init_buffer d)) = 0"
    using assms by (simp_all add: vidle_def disk_reset_def Init_buffer_def)
  show ?thesis using v assms(7) by (simp add: binv_def coherent_def b boot_io_length boot_io_buf)
qed

lemma boot_room:
  assumes img: "boot_image n m" and n: "15 \<le> n" and d: "disk_present (w_dev w)" and hart: "w_hart w = 0"
  shows "\<exists>m'. kernel_start w vector 0 (1, m) = Inr (0, m') \<and> mwf m' \<and> booted (kern m') \<and> minv (heap (kern m')) \<and>
    (\<forall>dev. dev \<noteq> 0 \<longrightarrow> binv dev (io (fsys (files m')))) \<and> media (io (fsys (files m'))) = media (io (fsys (files m))) \<and>
    status_writes (bus m') = [0, 1, 3, 11, 15] \<and>
    csr_stvec (csr m') = vector \<and> csr_sie (csr m') = csr_sie (csr m) OR SEIE OR STIE \<and> csr_sstatus (csr m') = csr_sstatus (csr m) OR EA \<and>
    used_pages (pg (heap (kern m'))) \<le> 7 \<and> unat (num_pages (pg (heap (kern m')))) = n - 8 \<and> task_stack (kern m') = task_stack (kern m)"
proof -
  let ?k = "kern m" and ?io = "io (fsys (files m))"
  have img': "unat (heap_size (pg (heap ?k))) = 4096 * n" "n - 8 \<le> length (descs (pg (heap ?k)))" "unat (heap_start (pg (heap ?k))) + 4096 * n + 4095 < 2 ^ 32"
    "block_dir (heap ?k) = block_dir0" "free_block_desc (heap ?k) = []" "timers m = []" "bus m = []"
    using img by (simp_all add: boot_image_def Let_def)
  obtain g where g: "Init_page (pg (heap ?k)) = Inr g" "pg_abs g (replicate (n - 8) FreePage)" "unat (num_pages g) = n - 8" "unat (alloc_start g) mod 4096 = 0"
    using Init_page_pool [OF img'(1) _ img'(2,3)] n by auto
  have hp: "(heap ?k)\<lparr>pg := g\<rparr> = \<lparr>pg = g, block_dir = block_dir0, free_block_desc = []\<rparr>" using img'(4,5) by simp
  note fresh = fresh_heap [OF g(2,3) _ g(4)]
  obtain h where h: "Init_block_desc ((heap ?k)\<lparr>pg := g\<rparr>) = Inr h" "minv h" "page_cost 1 ((heap ?k)\<lparr>pg := g\<rparr>) h"
    using Init_block_desc_ok [of "(heap ?k)\<lparr>pg := g\<rparr>"] fresh g(3) n unfolding hp by auto
  have room: "used_pages (pg h) + 6 \<le> unat (num_pages (pg h))" using h(3) fresh(2) g(3) n unfolding page_cost_def by simp linarith
  obtain l c where pl: "Init_plic (w_hart w) (bus m, Init_trap vector (csr m)) = (l, c)" by fastforce
  have lc: "l = [Wr (PLIC_PRIORITY UART0_IRQ) 1, Wr (PLIC_PRIORITY VIRTIO0_IRQ) 1, Wr (PLIC_SENABLE 0) 0x402, Wr (PLIC_STHRESHOLD 0) 0]"
    "csr_stvec c = vector" "csr_sie c = csr_sie (csr m) OR SEIE" "csr_sstatus c = csr_sstatus (csr m) OR EA"
    using pl hart img'(7) by (auto simp: Init_plic_def Init_trap_def mm_write_def UART0_IRQ_def VIRTIO0_IRQ_def)
  have l: "\<forall>v. Wr QUEUE_READY v \<notin> set l" "status_writes l = []"
    unfolding lc(1) by (simp_all add: virtio_regs PLIC_PRIORITY_def PLIC_SENABLE_def PLIC_STHRESHOLD_def PLIC_BASE_def UART0_IRQ_def VIRTIO0_IRQ_def)
  obtain l' h' where v: "Init_virtio (w_dev w) l h (Init_buffer ?io) = Inr (l', h', disk_reset (Init_buffer ?io))" "minv h'" "status_writes l' = [0, 1, 3, 11, 15]" "page_cost 6 h h'"
    using Init_virtio_ok [OF d l(1) h(2) room, of "Init_buffer ?io"] unfolding l(2) append_Nil by blast
  have u: "used_pages (pg h') \<le> 7" "unat (num_pages (pg h')) = n - 8"
    using v(4) h(3) fresh(2) g(3) n unfolding page_cost_def by simp_all
  let ?m = "m\<lparr>kern := (Init_sched ?k)\<lparr>heap := h'\<rparr>, port := Init_uart (w_uart w) (port m), csr := Init_timer c, bus := l',
      files := (files m)\<lparr>fsys := (fsys (files m))\<lparr>io := disk_reset (Init_buffer ?io)\<rparr>\<rparr>\<rparr>"
  have s: "kernel_start w vector 0 (1, m) = Inr (0, ?m)"
    using g(1) h(1) pl v(1) by (simp add: kernel_start_def kernel_init_def Let_def spin_unlock_def)
  have "booted (kern ?m)" using img by (auto simp: boot_image_def Let_def booted_def Init_sched_def MAX_TASK_def)
  moreover have "binv dev (io (fsys (files ?m)))" if "dev \<noteq> 0" for dev
    using fresh_disk [OF _ _ _ _ _ _ that] img by (simp add: boot_image_def Let_def)
  moreover have "media (disk_reset (Init_buffer ?io)) = media ?io" by (simp add: disk_reset_def Init_buffer_def)
  moreover have "mwf ?m" using booted_pinv [OF calculation(1)] img'(6) by (simp add: mwf_def)
  moreover have "task_stack (kern ?m) = task_stack ?k" by (simp add: Init_sched_def)
  ultimately show ?thesis using s v(1-3) u lc by (intro exI [of _ ?m]) (simp add: Init_timer_def or.assoc)
qed

lemma boot_facts:
  assumes img: "boot_image n m" and n: "15 \<le> n" and d: "disk_present (w_dev w)" and hart: "w_hart w = 0"
  shows "\<exists>m'. kernel_start w vector 0 (1, m) = Inr (0, m') \<and> mwf m' \<and> booted (kern m') \<and> minv (heap (kern m')) \<and>
    (\<forall>dev. dev \<noteq> 0 \<longrightarrow> binv dev (io (fsys (files m')))) \<and> media (io (fsys (files m'))) = media (io (fsys (files m))) \<and>
    status_writes (bus m') = [0, 1, 3, 11, 15] \<and>
    csr_stvec (csr m') = vector \<and> csr_sie (csr m') = csr_sie (csr m) OR SEIE OR STIE \<and> csr_sstatus (csr m') = csr_sstatus (csr m) OR EA"
  using boot_room [OF assms] by blast

text \<open>
  C8. The kernel boots into a sound state: with a heap of at least 15 pages and a disk that answers, the initialisation of hart 0 ends without panic. Then
  the allocators, the process table and the block cache satisfy their invariants, the disk was brought up in the prescribed order of
  status writes (reset, acknowledge, driver, features accepted, driver ready) with its queue idle, the trap vector is set and the timer and external interrupts
  are enabled.
\<close>

theorem kernel_boots:
  assumes img: "boot_image n m" and n: "15 \<le> n" and d: "disk_present (w_dev w)" and hart: "w_hart w = 0"
  shows "\<exists>m'. kernel_start w vector 0 (1, m) = Inr (0, m') \<and> mwf m' \<and> booted (kern m') \<and> minv (heap (kern m')) \<and>
    (\<forall>dev. dev \<noteq> 0 \<longrightarrow> binv dev (io (fsys (files m')))) \<and> media (io (fsys (files m'))) = media (io (fsys (files m))) \<and>
    status_writes (bus m') = [0, 1, 3, 11, 15] \<and>
    csr_stvec (csr m') = vector \<and> csr_sie (csr m') = csr_sie (csr m) OR SEIE OR STIE \<and> csr_sstatus (csr m') = csr_sstatus (csr m) OR EA"
  by (rule boot_facts [OF assms])

text \<open>A machine with fifteen pages of heap and a disk that offers a queue of eight.\<close>

definition demo_disk :: device where
  "demo_disk l a =
     (if a = MAGIC_VALUE then VIRTIO_MAGIC_VALUE else if a = DEVICE_VERSION then VIRTIO_DEVICE_VERSION else if a = DEVICE_ID then VIRTIO_DEVICE_ID
      else if a = VENDOR_ID then VIRTIO_VENDER_ID else if a = QUEUE_NUM_MAX then 8 else if a = DEVICE_STATUS then last (0 # status_writes l) else 0)"

definition demo_boot :: "(u8 list \<times> u8 list \<times> nat) machine" where
  "demo_boot = demo_machine\<lparr>
     kern := boot_state\<lparr>heap := heap_empty\<lparr>pg := pool4\<lparr>heap_size := 4096 * 15, descs := replicate 7 0\<rparr>\<rparr>\<rparr>,
     files := demo_vfs\<lparr>fsys := (fsys demo_vfs)\<lparr>io := idle_disk (replicate BUFFER_NUM buf0) (\<lambda>_. None)\<rparr>\<rparr>\<rparr>"

lemma demo_boots:
  "boot_image 15 demo_boot" "disk_present (w_dev (demo_world\<lparr>w_dev := demo_disk\<rparr>))" "w_hart (demo_world\<lparr>w_dev := demo_disk\<rparr>) = 0"
proof -
  show "boot_image 15 demo_boot"
    by (auto simp: boot_image_def Let_def demo_boot_def demo_machine_def boot_state_def heap_empty_def pool4_def idle_disk_def QUEUE_SIZE_def)
  show "disk_present (w_dev (demo_world\<lparr>w_dev := demo_disk\<rparr>))"
    by (simp add: disk_present_def demo_disk_def virtio_regs QUEUE_SIZE_def)
  show "w_hart (demo_world\<lparr>w_dev := demo_disk\<rparr>) = 0" by (simp add: demo_world_def)
qed

theorem kernel_boots_witness:
  "\<exists>m'. kernel_start (demo_world\<lparr>w_dev := demo_disk\<rparr>) 0x80200800 0 (1, demo_boot) = Inr (0, m') \<and> mwf m' \<and> csr_sie (csr m') = 0x220"
proof -
  have c: "csr demo_boot = \<lparr>csr_sie = 0, csr_sstatus = 0, csr_stvec = 0\<rparr>" by (simp add: demo_boot_def demo_machine_def)
  obtain m' where "kernel_start (demo_world\<lparr>w_dev := demo_disk\<rparr>) 0x80200800 0 (1, demo_boot) = Inr (0, m')" "mwf m'"
    "csr_sie (csr m') = csr_sie (csr demo_boot) OR SEIE OR STIE"
    using kernel_boots [where vector = "0x80200800", OF demo_boots(1) _ demo_boots(2,3)] by auto
  then show ?thesis unfolding c by (simp add: SEIE_def STIE_def)
qed

end
