(* ===== verification/Userlib.thy ===== *)
theory Userlib
  imports Printf
begin

text \<open>
  The C library that the user programs are linked with: \<^verbatim>\<open>src/user/lib/string.c\<close> and \<^verbatim>\<open>src/user/lib/stdio.c\<close>. Its string routines read and
  write eight bytes at a time where the addresses are aligned; the reference for them are the byte-wise routines of the kernel (\<open>Kstring\<close>). Names that the
  kernel's library has too start with \<open>u\<close> here. Addresses and counts are natural numbers below the width of a pointer, a scan that finds no end is a partial
  function with value \<open>None\<close>.
\<close>

section \<open>Words in memory\<close>

text \<open>A \<open>size_t\<close> at an address, the lowest byte first.\<close>

fun bytes_le :: "bmem \<Rightarrow> nat \<Rightarrow> nat \<Rightarrow> int" where
  "bytes_le m a 0 = 0"
| "bytes_le m a (Suc n) = uint (m a) + 256 * bytes_le m (Suc a) n"

definition load_word :: "bmem \<Rightarrow> nat \<Rightarrow> u64" where
  "load_word m a = word_of_int (bytes_le m a 8)"

fun store_bytes :: "bmem \<Rightarrow> nat \<Rightarrow> nat \<Rightarrow> u64 \<Rightarrow> bmem" where
  "store_bytes m a 0 x = m"
| "store_bytes m a (Suc n) x = store_bytes (m(a := ucast x)) (Suc a) n (drop_bit 8 x)"

definition store_word :: "bmem \<Rightarrow> nat \<Rightarrow> u64 \<Rightarrow> bmem" where
  "store_word m a x = store_bytes m a 8 x"

definition SS :: nat where "SS = 8"
definition ONES :: u64 where "ONES = 0xffffffffffffffff div 0xff"
definition HIGHS :: u64 where "HIGHS = ONES * (0xff div 2 + 1)"
definition HASZERO :: "u64 \<Rightarrow> u64" where "HASZERO x = ((x - ONES) AND NOT x AND HIGHS)"

section \<open>Length\<close>

text \<open>
  The three loops of \<^verbatim>\<open>strlen\<close>: bytes up to a word boundary, where \<open>Inl\<close> is the early return; words without a zero byte; bytes of the last word.
\<close>

function strlen_align :: "bmem \<Rightarrow> nat \<Rightarrow> nat + nat" where
  "strlen_align m s = (if s mod SS \<noteq> 0 then (if m s = 0 then Inl s else strlen_align m (Suc s)) else Inr s)"
  by pat_completeness auto
termination
  by (relation "measure (\<lambda>(m, s). (SS - s mod SS) mod SS)") (auto simp: SS_def mod_Suc split: if_splits)

partial_function (option) word_scan :: "bmem \<Rightarrow> nat \<Rightarrow> nat option" where
  "word_scan m w = (if HASZERO (load_word m w) = 0 then word_scan m (w + SS) else Some w)"

partial_function (option) byte_scan :: "bmem \<Rightarrow> nat \<Rightarrow> nat option" where
  "byte_scan m s = (if m s \<noteq> 0 then byte_scan m (Suc s) else Some s)"

definition ustrlen :: "bmem \<Rightarrow> nat \<Rightarrow> nat option" where
  "ustrlen m a =
     (case strlen_align m a of
        Inl s \<Rightarrow> Some (s - a)
      | Inr s \<Rightarrow> (case word_scan m s of None \<Rightarrow> None
          | Some s \<Rightarrow> (case byte_scan m s of None \<Rightarrow> None | Some s \<Rightarrow> Some (s - a))))"

section \<open>Search and comparison\<close>

text \<open>\<^verbatim>\<open>memchr\<close> in three loops; each leaves the address and the count it stopped with. The result \<open>None\<close> is NULL.\<close>

function memchr_align :: "bmem \<Rightarrow> u8 \<Rightarrow> nat \<Rightarrow> nat \<Rightarrow> nat \<times> nat" where
  "memchr_align m c s n = (if s mod SS \<noteq> 0 \<and> n \<noteq> 0 \<and> m s \<noteq> c then memchr_align m c (Suc s) (n - 1) else (s, n))"
  by pat_completeness auto
termination
  by (relation "measure (\<lambda>(m, c, s, n). n)") auto

function memchr_words :: "bmem \<Rightarrow> u64 \<Rightarrow> nat \<Rightarrow> nat \<Rightarrow> nat \<times> nat" where
  "memchr_words m k w n = (if n \<ge> SS \<and> HASZERO (load_word m w XOR k) = 0 then memchr_words m k (w + SS) (n - SS) else (w, n))"
  by pat_completeness auto
termination
  by (relation "measure (\<lambda>(m, k, w, n). n)") (auto simp: SS_def)

function memchr_bytes :: "bmem \<Rightarrow> u8 \<Rightarrow> nat \<Rightarrow> nat \<Rightarrow> nat \<times> nat" where
  "memchr_bytes m c s n = (if n \<noteq> 0 \<and> m s \<noteq> c then memchr_bytes m c (Suc s) (n - 1) else (s, n))"
  by pat_completeness auto
termination
  by (relation "measure (\<lambda>(m, c, s, n). n)") auto

definition umemchr :: "bmem \<Rightarrow> nat \<Rightarrow> i32 \<Rightarrow> nat \<Rightarrow> nat option" where
  "umemchr m src ch n =
     (let c = ucast ch :: u8;
          (s, n) = memchr_align m c src n;
          (s, n) = (if n \<noteq> 0 \<and> m s \<noteq> c then memchr_words m (ONES * ucast c) s n else (s, n));
          (s, n) = memchr_bytes m c s n
      in if n \<noteq> 0 then Some s else None)"

definition ustrnlen :: "bmem \<Rightarrow> nat \<Rightarrow> nat \<Rightarrow> nat" where
  "ustrnlen m s n = (case umemchr m s 0 n of Some p \<Rightarrow> p - s | None \<Rightarrow> n)"

definition byte_diff :: "bmem \<Rightarrow> nat \<Rightarrow> nat \<Rightarrow> int" where
  "byte_diff m l r = int (unat (m l)) - int (unat (m r))"

partial_function (option) ustrcmp :: "bmem \<Rightarrow> nat \<Rightarrow> nat \<Rightarrow> int option" where
  "ustrcmp m l r = (if m l = m r \<and> m l \<noteq> 0 then ustrcmp m (Suc l) (Suc r) else Some (byte_diff m l r))"

fun strncmp_loop :: "bmem \<Rightarrow> nat \<Rightarrow> nat \<Rightarrow> nat \<Rightarrow> int" where
  "strncmp_loop m l r 0 = byte_diff m l r"
| "strncmp_loop m l r (Suc n) = (if m l \<noteq> 0 \<and> m r \<noteq> 0 \<and> m l = m r then strncmp_loop m (Suc l) (Suc r) n else byte_diff m l r)"

definition ustrncmp :: "bmem \<Rightarrow> nat \<Rightarrow> nat \<Rightarrow> nat \<Rightarrow> int" where
  "ustrncmp m l r n = (case n of 0 \<Rightarrow> 0 | Suc n \<Rightarrow> strncmp_loop m l r n)"

section \<open>Filling and copying\<close>

text \<open>\<^verbatim>\<open>memset\<close> returns its first argument.\<close>

fun umemset :: "bmem \<Rightarrow> nat \<Rightarrow> i32 \<Rightarrow> nat \<Rightarrow> bmem" where
  "umemset m p c 0 = m"
| "umemset m p c (Suc n) = umemset (m(p := ucast c)) (Suc p) c n"

text \<open>
  \<^verbatim>\<open>strcpy\<close> and \<^verbatim>\<open>strncpy\<close>: the memory and the pointer they return, which is where they stopped writing the string.
\<close>

function strcpy_align :: "bmem \<Rightarrow> nat \<Rightarrow> nat \<Rightarrow> bmem \<times> nat + bmem \<times> nat \<times> nat" where
  "strcpy_align m d s =
     (if s mod SS \<noteq> 0
      then let c = m s; m' = m(d := c) in if c = 0 then Inl (m', d) else strcpy_align m' (Suc d) (Suc s)
      else Inr (m, d, s))"
  by pat_completeness auto
termination
  by (relation "measure (\<lambda>(m, d, s). (SS - s mod SS) mod SS)") (auto simp: SS_def mod_Suc split: if_splits)

partial_function (option) strcpy_words :: "bmem \<Rightarrow> nat \<Rightarrow> nat \<Rightarrow> (bmem \<times> nat \<times> nat) option" where
  "strcpy_words m wd ws =
     (if HASZERO (load_word m ws) = 0 then strcpy_words (store_word m wd (load_word m ws)) (wd + SS) (ws + SS) else Some (m, wd, ws))"

partial_function (option) strcpy_bytes :: "bmem \<Rightarrow> nat \<Rightarrow> nat \<Rightarrow> (bmem \<times> nat) option" where
  "strcpy_bytes m d s = (if m s \<noteq> 0 then strcpy_bytes (m(d := m s)) (Suc d) (Suc s) else Some (m(d := m s), d))"

definition ustrcpy :: "bmem \<Rightarrow> nat \<Rightarrow> nat \<Rightarrow> (bmem \<times> nat) option" where
  "ustrcpy m d s =
     (if s mod SS = d mod SS
      then (case strcpy_align m d s of
              Inl r \<Rightarrow> Some r
            | Inr (m, d, s) \<Rightarrow> (case strcpy_words m d s of None \<Rightarrow> None | Some (m, d, s) \<Rightarrow> strcpy_bytes m d s))
      else strcpy_bytes m d s)"

text \<open>The byte loops of \<^verbatim>\<open>strncpy\<close>, the first of which also stops at a word boundary.\<close>

function strncpy_align :: "bmem \<Rightarrow> nat \<Rightarrow> nat \<Rightarrow> nat \<Rightarrow> bmem \<times> nat \<times> nat \<times> nat" where
  "strncpy_align m d s n =
     (if s mod SS \<noteq> 0 \<and> n \<noteq> 0
      then let c = m s; m' = m(d := c) in if c \<noteq> 0 then strncpy_align m' (Suc d) (Suc s) (n - 1) else (m', d, s, n)
      else (m, d, s, n))"
  by pat_completeness auto
termination
  by (relation "measure (\<lambda>(m, d, s, n). n)") auto

function strncpy_words :: "bmem \<Rightarrow> nat \<Rightarrow> nat \<Rightarrow> nat \<Rightarrow> bmem \<times> nat \<times> nat \<times> nat" where
  "strncpy_words m wd ws n =
     (if n \<ge> SS \<and> HASZERO (load_word m ws) = 0
      then strncpy_words (store_word m wd (load_word m ws)) (wd + SS) (ws + SS) (n - SS) else (m, wd, ws, n))"
  by pat_completeness auto
termination
  by (relation "measure (\<lambda>(m, wd, ws, n). n)") (auto simp: SS_def)

fun strncpy_bytes :: "bmem \<Rightarrow> nat \<Rightarrow> nat \<Rightarrow> nat \<Rightarrow> bmem \<times> nat \<times> nat \<times> nat" where
  "strncpy_bytes m d s 0 = (m, d, s, 0)"
| "strncpy_bytes m d s (Suc n) =
     (let c = m s; m' = m(d := c) in if c \<noteq> 0 then strncpy_bytes m' (Suc d) (Suc s) n else (m', d, s, Suc n))"

definition ustrncpy :: "bmem \<Rightarrow> nat \<Rightarrow> nat \<Rightarrow> nat \<Rightarrow> bmem \<times> nat" where
  "ustrncpy m d s n =
     (let (m, d, s, n) =
        (if s mod SS = d mod SS
         then let (m, d, s, n) = strncpy_align m d s n
              in if n = 0 \<or> m s = 0 then (m, d, s, n)
                 else let (m, d, s, n) = strncpy_words m d s n in strncpy_bytes m d s n
         else strncpy_bytes m d s n)
      in (umemset m d 0 n, d))"

section \<open>Numbers\<close>

definition uisspace :: "i32 \<Rightarrow> bool" where
  "uisspace c \<longleftrightarrow> c = 32 \<or> c - 9 < 5"

definition uisdigit :: "i32 \<Rightarrow> bool" where
  "uisdigit c \<longleftrightarrow> c - 48 < 10"

partial_function (option) skip_space :: "bmem \<Rightarrow> nat \<Rightarrow> nat option" where
  "skip_space m s = (if uisspace (ucast (m s)) then skip_space m (Suc s) else Some s)"

partial_function (option) atoi_digits :: "bmem \<Rightarrow> nat \<Rightarrow> i32 \<Rightarrow> i32 option" where
  "atoi_digits m s n =
     (if uisdigit (ucast (m s)) then atoi_digits m (Suc s) (10 * n - (ucast (m s) - 48)) else Some n)"

text \<open>The number is computed as a negative one, so that the smallest \<open>int\<close> fits.\<close>

definition atoi :: "bmem \<Rightarrow> nat \<Rightarrow> i32 option" where
  "atoi m s =
     (case skip_space m s of
        None \<Rightarrow> None
      | Some s \<Rightarrow>
          let neg = (m s = 45); s = (if m s = 45 \<or> m s = 43 then Suc s else s)
          in map_option (\<lambda>n. if neg then n else - n) (atoi_digits m s 0))"

section \<open>Output\<close>

text \<open>
  The calls of \<^verbatim>\<open>write\<close>, with the file number and the bytes. \<^verbatim>\<open>printint\<close> fills its buffer of 17 bytes from the end; \<open>Suc i\<close> in \<open>digit_loop\<close> is the
  index \<open>i\<close>, a store below index 0 or a digit outside the table is an error.
\<close>

type_synonym wlog = "(nat \<times> u8 list) list"

definition out :: "nat \<Rightarrow> u8 list \<Rightarrow> wlog \<Rightarrow> wlog" where "out f s w = w @ [(f, s)]"

definition ustdout :: nat where "ustdout = 1"

text \<open>\<^verbatim>\<open>getchar\<close>, where \<open>got\<close> is the byte that its call of \<^verbatim>\<open>read\<close> stored, if any: an empty input gives 0.\<close>

definition getchar :: "u8 option \<Rightarrow> i32" where "getchar got = (case got of Some byte \<Rightarrow> ucast byte | None \<Rightarrow> 0)"

definition putchar :: "u8 \<Rightarrow> wlog \<Rightarrow> wlog" where "putchar c w = out ustdout [c] w"

text \<open>\<^verbatim>\<open>puts\<close>, where \<open>r\<close> is what its call of \<^verbatim>\<open>write\<close> returned.\<close>

definition puts :: "i64 \<Rightarrow> bmem \<Rightarrow> nat \<Rightarrow> wlog \<Rightarrow> (int \<times> wlog) option" where
  "puts r m s w = map_option (\<lambda>n. (- (if sint r < 0 then 1 else 0), out ustdout (map m [s..<s + n]) w)) (ustrlen m s)"

definition digits :: "u8 list" where "digits = map of_nat ([48..<58] @ [97..<103])"

fun digit_loop :: "u32 \<Rightarrow> u8 list \<Rightarrow> nat \<Rightarrow> u32 \<Rightarrow> (u8 list \<times> nat) res" where
  "digit_loop base buf 0 x = Inl OutOfBounds"
| "digit_loop base buf (Suc i) x =
     kbind (kget digits (unat (x mod base))) (\<lambda>c.
     kbind (kput buf i c) (\<lambda>buf. let x = x div base in if x \<noteq> 0 then digit_loop base buf i x else Inr (buf, i)))"

definition printint :: "i32 \<Rightarrow> u32 \<Rightarrow> bool \<Rightarrow> wlog \<Rightarrow> wlog res" where
  "printint xx base sign w =
     (let neg = (sign \<and> sint xx < 0); x = (if neg then - xx else xx)
      in kbind (digit_loop base (replicate 17 0) 16 x) (\<lambda>(buf, i).
         kbind (if \<not> neg then Inr (buf, i) else if i = 0 then Inl OutOfBounds else Inr (buf[i - 1 := 45], i - 1)) (\<lambda>(buf, i).
         Inr (out ustdout (take (16 - i) (drop i buf)) w))))"

fun hex_digits :: "nat \<Rightarrow> u64 \<Rightarrow> u8 list" where
  "hex_digits 0 x = []"
| "hex_digits (Suc j) x = digits ! unat (drop_bit 60 x) # hex_digits j (push_bit 4 x)"

definition printptr :: "u64 \<Rightarrow> wlog \<Rightarrow> wlog" where
  "printptr x w = out ustdout ([48, 120] @ hex_digits 16 x) w"

text \<open>One conversion of \<^verbatim>\<open>printf\<close>: the character after the percent sign and the remaining arguments.\<close>

definition uconv :: "bmem \<Rightarrow> u8 \<Rightarrow> u64 list \<Rightarrow> wlog \<Rightarrow> (u64 list \<times> wlog) res" where
  "uconv m c args w =
     (if c \<in> {100, 120, 112, 115}
      then (case args of
              [] \<Rightarrow> Inl OutOfBounds
            | x # args \<Rightarrow>
                if c = 100 then kbind (printint (ucast x) 10 True w) (\<lambda>w. Inr (args, w))
                else if c = 120 then kbind (printint (ucast x) 16 True w) (\<lambda>w. Inr (args, w))
                else if c = 112 then Inr (args, printptr x w)
                else if x = 0 then Inr (args, out ustdout [40, 110, 117, 108, 108, 41] w)
                else let a = unat x in Inr (args, out ustdout (map m [a..<a + ustrnlen m a 200]) w))
      else Inr (args, putchar c (putchar 37 w)))"

text \<open>The run of doubled percent signs: their number and the rest.\<close>

fun pct_run :: "u8 list \<Rightarrow> nat \<times> u8 list" where
  "pct_run (c # d # s) = (if c = 37 \<and> d = 37 then (case pct_run s of (k, r) \<Rightarrow> (Suc k, r)) else (0, c # d # s))"
| "pct_run s = (0, s)"

lemma pct_run_len: "length (snd (pct_run s)) + 2 * fst (pct_run s) = length s"
  by (induction s rule: pct_run.induct) (auto simp: split_def)

lemma pct_len: "(k, s') = pct_run (dropWhile P s) \<Longrightarrow> length s = length (takeWhile P s) + (length s' + 2 * k)"
  using pct_run_len [of "dropWhile P s"] by (metis fst_conv length_append snd_conv takeWhile_dropWhile_id)

function uprintf :: "bmem \<Rightarrow> u8 list \<Rightarrow> u64 list \<Rightarrow> wlog \<Rightarrow> wlog res" where
  "uprintf m s args w =
     (if s = [] then Inr w
      else let a = takeWhile (\<lambda>c. c \<noteq> 37) s;
               (k, s') = pct_run (dropWhile (\<lambda>c. c \<noteq> 37) s);
               chunk = a @ replicate k 37;
               w = out ustdout chunk w
           in if chunk \<noteq> [] then uprintf m s' args w
              else if length s' < 2 then Inr w
              else kbind (uconv m (s' ! 1) args w) (\<lambda>(args, w). uprintf m (drop 2 s') args w))"
  by pat_completeness auto
termination
  by (relation "measure (\<lambda>(m, s, args, w). length s)") (auto dest!: pct_len simp flip: length_greater_0_conv)

section \<open>The zero-byte test\<close>

lemma ONES_val: "ONES = 0x0101010101010101" by (simp add: ONES_def)
lemma HIGHS_val: "HIGHS = 0x8080808080808080" by (simp add: HIGHS_def ONES_val)

fun ones :: "nat \<Rightarrow> int" where
  "ones 0 = 0" | "ones (Suc n) = 1 + 256 * ones n"

lemma bit_low_high:
  fixes b y :: int
  assumes "0 \<le> b" "b < 256"
  shows "bit (b + 256 * y) (8 + k) = bit y k" and "k < 8 \<Longrightarrow> bit (b + 256 * y) k = bit b k"
proof -
  have "(b + 256 * y) div 2 ^ (8 + k) = (b + 256 * y) div 256 div 2 ^ k" by (simp add: power_add zdiv_zmult2_eq)
  also have "\<dots> = y div 2 ^ k" using assms by simp
  finally show "bit (b + 256 * y) (8 + k) = bit y k" by (simp add: bit_iff_odd)
  assume "k < 8"
  then obtain j where "8 = Suc (k + j)" using less_imp_Suc_add by blast
  then have "(2 :: int) ^ 8 = 2 ^ k * (2 * 2 ^ j)" by (simp only: power_add power_Suc)
  then have e: "b + 256 * y = b + 2 ^ k * (2 * (2 ^ j * y))" by simp
  have "(b + 256 * y) div 2 ^ k = b div 2 ^ k + 2 * (2 ^ j * y)" unfolding e by (subst div_mult_self2) simp_all
  then show "bit (b + 256 * y) k = bit b k" by (simp add: bit_iff_odd)
qed

text \<open>A byte other than zero has its top bit clear or stays at least 128 minus one: no borrow reaches the next byte.\<close>

lemma haszero_bytes:
  "(\<exists>i<n. bit (bytes_le m a n - ones n) (8 * i + 7) \<and> \<not> bit (bytes_le m a n) (8 * i + 7)) \<longleftrightarrow> (\<exists>i<n. m (a + i) = 0)"
proof (induction n arbitrary: a)
  case (Suc n)
  let ?b = "uint (m a)" and ?y = "bytes_le m (Suc a) n"
  have b: "0 \<le> ?b" "?b < 256" using uint_bounded [of "m a"] by simp_all
  have top: "bit x 7 \<longleftrightarrow> 128 \<le> x" if "0 \<le> x" "x < 256" for x :: int
  proof -
    have "x div 128 = (if 128 \<le> x then 1 else 0)" using that by auto
    then show ?thesis by (simp add: bit_iff_odd)
  qed
  show ?case
  proof (cases "m a = 0")
    case True
    have e: "bytes_le m a (Suc n) - ones (Suc n) = 255 + 256 * (?y - ones n - 1)" using True by simp
    have "bit (bytes_le m a (Suc n) - ones (Suc n)) 7" unfolding e using top [of 255] by (subst bit_low_high(2)) simp_all
    moreover have "\<not> bit (bytes_le m a (Suc n)) 7" using bit_low_high(2) [OF b, of 7 ?y] top [OF b] True by simp
    ultimately show ?thesis using True by (metis add.right_neutral add_0 mult_0_right zero_less_Suc)
  next
    case False
    then have p: "0 < ?b" using b(1) by (metis order_le_less uint_0_iff)
    have d: "bytes_le m a (Suc n) - ones (Suc n) = (?b - 1) + 256 * (?y - ones n)" by simp
    have b1: "0 \<le> ?b - 1" "?b - 1 < 256" using p b by simp_all
    have low: "\<not> (bit (bytes_le m a (Suc n) - ones (Suc n)) 7 \<and> \<not> bit (bytes_le m a (Suc n)) 7)"
      unfolding d using bit_low_high(2) [OF b, of 7 ?y] bit_low_high(2) [OF b1, of 7 "?y - ones n"] top [OF b] top [OF b1] by simp
    have ix: "8 * Suc i + 7 = 8 + (8 * i + 7)" for i by simp
    have high: "bit (bytes_le m a (Suc n) - ones (Suc n)) (8 * Suc i + 7) = bit (?y - ones n) (8 * i + 7)"
      "bit (bytes_le m a (Suc n)) (8 * Suc i + 7) = bit ?y (8 * i + 7)" for i
      unfolding d ix by (rule bit_low_high(1) [OF b1]) (simp only: bytes_le.simps bit_low_high(1) [OF b])
    show ?thesis unfolding Ex_less_Suc2 high Suc.IH using low False by (simp del: bytes_le.simps ones.simps) blast
  qed
qed simp

lemma HIGHS_bits: "\<forall>k\<in>set [0..<64]. bit HIGHS k = (k mod 8 = 7)"
  unfolding HIGHS_val by (simp add: upt_rec)

lemma bytes_le_bound: "0 \<le> bytes_le m a n \<and> bytes_le m a n < 256 ^ n"
proof (induction n arbitrary: a)
  case (Suc n)
  have "0 \<le> uint (m a)" "uint (m a) < 256" using uint_bounded [of "m a"] by simp_all
  then show ?case using Suc [of "Suc a"] by simp
qed simp

lemma uint_load_word: "uint (load_word m a) = bytes_le m a 8"
  using bytes_le_bound [of m a 8] by (simp add: load_word_def unsigned_of_int take_bit_int_eq_self)

lemma bit_word_diff: "bit (x - y :: u64) k \<longleftrightarrow> k < 64 \<and> bit (uint x - uint y) k"
proof -
  have "uint (x - y) = take_bit 64 (uint x - uint y)" by (simp add: uint_word_ariths take_bit_eq_mod)
  then have "bit (uint (x - y)) k = (k < 64 \<and> bit (uint x - uint y) k)" by (simp add: bit_take_bit_iff)
  then show ?thesis by (auto simp: bit_uint_iff dest: bit_imp_le_length)
qed

lemma HASZERO_iff: "HASZERO (load_word m a) \<noteq> 0 \<longleftrightarrow> (\<exists>i<8. m (a + i) = 0)"
proof -
  let ?x = "load_word m a"
  have "ones 8 = 0x0101010101010101" by (simp add: numeral_eq_Suc)
  then have o: "uint ONES = ones 8" by (simp add: ONES_val)
  have k: "k < 64 \<and> k mod 8 = 7 \<longleftrightarrow> (\<exists>i<8. k = 8 * i + 7)" for k :: nat
  proof
    assume "k < 64 \<and> k mod 8 = 7"
    then have "k div 8 < 8 \<and> k = 8 * (k div 8) + 7" using div_mult_mod_eq [of k 8] by auto
    then show "\<exists>i<8. k = 8 * i + 7" by blast
  qed auto
  have h: "k < 64 \<and> bit HIGHS k \<longleftrightarrow> (\<exists>i<8. k = 8 * i + 7)" for k unfolding k [symmetric] using HIGHS_bits by auto
  have "HASZERO ?x \<noteq> 0 \<longleftrightarrow> (\<exists>k. bit (HASZERO ?x) k)" using bit_imp_le_length by (fastforce simp: bit_eq_iff)
  also have "\<dots> \<longleftrightarrow> (\<exists>k. (k < 64 \<and> bit HIGHS k) \<and> bit (?x - ONES) k \<and> \<not> bit ?x k)"
    by (auto simp: HASZERO_def bit_and_iff bit_not_iff dest: bit_imp_le_length)
  also have "\<dots> \<longleftrightarrow> (\<exists>i<8. bit (bytes_le m a 8 - ones 8) (8 * i + 7) \<and> \<not> bit (bytes_le m a 8) (8 * i + 7))"
    unfolding h by (auto simp: bit_word_diff o bit_uint_iff simp flip: uint_load_word)
  finally show ?thesis unfolding haszero_bytes .
qed

section \<open>The word-wise length\<close>

text \<open>\<open>stops m s k\<close>: the first zero from \<open>s\<close> on is at distance \<open>k\<close>.\<close>

definition stops :: "bmem \<Rightarrow> nat \<Rightarrow> nat \<Rightarrow> bool" where
  "stops m s k \<longleftrightarrow> (\<forall>i<k. m (s + i) \<noteq> 0) \<and> m (s + k) = 0"

lemma stops_later: "stops m s k \<Longrightarrow> j \<le> k \<Longrightarrow> stops m (s + j) (k - j)"
  unfolding stops_def by (auto simp: add.assoc)

lemma stops_0: "m s = 0 \<Longrightarrow> stops m s 0"
  by (simp add: stops_def)

lemma stops_Suc: "m s \<noteq> 0 \<Longrightarrow> stops m (Suc s) k \<Longrightarrow> stops m s (Suc k)"
  unfolding stops_def by (auto simp: less_Suc_eq_0_disj)

lemma stops_unique: "stops m s k \<Longrightarrow> stops m s k' \<Longrightarrow> k = k'"
  unfolding stops_def by (metis nat_neq_iff)

lemma stops_ex: "m r = 0 \<Longrightarrow> s \<le> r \<Longrightarrow> \<exists>k. stops m s k"
proof (induction "r - s" arbitrary: s)
  case (Suc n)
  show ?case
  proof (cases "m s = 0")
    case False
    have "n = r - Suc s" "Suc s \<le> r" using Suc.hyps(2) by linarith+
    then show ?thesis using Suc.hyps(1) Suc.prems(1) stops_Suc [of m s] False by blast
  qed (use stops_0 in blast)
qed (use stops_0 in force)

lemma strlen_stops: "strlen m s = Some k \<longleftrightarrow> stops m s k"
proof
  assume "strlen m s = Some k"
  then show "stops m s k" using strlen_from_Some [of m s 0 k] by (simp add: strlen_def stops_def)
next
  assume "stops m s k"
  then have "cstr m s (map (\<lambda>i. m (s + i)) [0..<k])" unfolding cstr_iff by (simp add: stops_def)
  from strlen_cstr [OF this] show "strlen m s = Some k" by simp
qed

lemma byte_scan_stops: "stops m s k \<Longrightarrow> byte_scan m s = Some (s + k)"
proof (induction k arbitrary: s)
  case 0
  then show ?case by (simp add: stops_def byte_scan.simps [of m s])
next
  case (Suc k)
  have "m s \<noteq> 0" using Suc.prems by (auto simp: stops_def)
  then show ?case using Suc.IH [of "Suc s"] stops_later [OF Suc.prems, of 1] by (simp add: byte_scan.simps [of m s])
qed

lemma word_scan_stops: "stops m s k \<Longrightarrow> \<exists>j\<le>k. word_scan m s = Some (s + j)"
proof (induction k arbitrary: s rule: less_induct)
  case (less k)
  show ?case
  proof (cases "\<exists>i<8. m (s + i) = 0")
    case True
    then have "word_scan m s = Some (s + 0)" unfolding HASZERO_iff [symmetric] by (subst word_scan.simps) simp
    then show ?thesis by blast
  next
    case False
    then have k: "8 \<le> k" using less.prems not_le unfolding stops_def by blast
    have w: "word_scan m s = word_scan m (s + 8)" using False unfolding HASZERO_iff [symmetric] by (subst word_scan.simps) (simp add: SS_def)
    have "k - 8 < k" using k by simp
    then obtain j where "j \<le> k - 8" "word_scan m (s + 8) = Some (s + 8 + j)" using less.IH stops_later [OF less.prems k] by blast
    then show ?thesis unfolding w using k by (intro exI [of _ "8 + j"]) auto
  qed
qed

declare strlen_align.simps [simp del]

lemma strlen_align_stops: "stops m s k \<Longrightarrow> strlen_align m s = Inl (s + k) \<or> (\<exists>j\<le>k. strlen_align m s = Inr (s + j))"
proof (induction k arbitrary: s)
  case 0
  then show ?case by (simp add: stops_def strlen_align.simps [of m s])
next
  case (Suc k)
  have nz: "m s \<noteq> 0" using Suc.prems by (auto simp: stops_def)
  have "stops m (Suc s) k" using stops_later [OF Suc.prems, of 1] by simp
  then have "strlen_align m (Suc s) = Inl (s + Suc k) \<or> (\<exists>j\<le>k. strlen_align m (Suc s) = Inr (s + Suc j))" using Suc.IH [of "Suc s"] by simp
  then show ?case using nz by (auto simp: strlen_align.simps [of m s] intro: exI [of _ 0])
qed

lemma ustrlen_stops: "stops m s k \<Longrightarrow> ustrlen m s = Some k"
proof -
  assume k: "stops m s k"
  from strlen_align_stops [OF k] show ?thesis
  proof (elim disjE exE conjE)
    fix j assume j: "j \<le> k" "strlen_align m s = Inr (s + j)"
    note k1 = stops_later [OF k j(1)]
    obtain i where i: "i \<le> k - j" "word_scan m (s + j) = Some (s + j + i)" using word_scan_stops [OF k1] by blast
    have "byte_scan m (s + j + i) = Some (s + k)" using byte_scan_stops [OF stops_later [OF k1 i(1)]] i(1) j(1) by simp
    then show ?thesis using j(2) i(2) by (simp add: ustrlen_def)
  qed (simp add: ustrlen_def)
qed

lemma byte_scan_ge: "byte_scan m s = Some r \<Longrightarrow> m r = 0 \<and> s \<le> r"
  by (rule byte_scan.raw_induct) (auto split: if_splits dest: Suc_leD)

lemma word_scan_ge: "word_scan m s = Some r \<Longrightarrow> s \<le> r"
  by (rule word_scan.raw_induct) (auto split: if_splits dest: add_leD1)

lemma strlen_align_ge: "(strlen_align m s = Inl r \<longrightarrow> m r = 0 \<and> s \<le> r) \<and> (strlen_align m s = Inr r \<longrightarrow> s \<le> r)"
proof (induction m s rule: strlen_align.induct)
  case (1 m s)
  then show ?case by (subst (1 2) strlen_align.simps) (auto dest: Suc_leD)
qed

lemma ustrlen_end: "ustrlen m s = Some k \<Longrightarrow> \<exists>r\<ge>s. m r = 0"
  by (auto simp: ustrlen_def split: sum.splits option.splits dest!: byte_scan_ge word_scan_ge)
     (metis strlen_align_ge le_trans)+

text \<open>
  C39. The word-wise \<open>strlen\<close> of the user library agrees with the byte-wise one of the kernel in every memory and at every address, aligned or not: it
  returns the same length where there is a terminator, and it ends exactly when there is one.
\<close>

theorem ustrlen_equiv: "ustrlen m s = strlen m s"
proof (cases "\<exists>r\<ge>s. m r = 0")
  case True
  then obtain k where "stops m s k" using stops_ex by blast
  then show ?thesis using ustrlen_stops [of m s k] strlen_stops [of m s k] by simp
next
  case False
  then have "\<not> stops m s k" for k by (auto simp: stops_def)
  then have "strlen m s = None" using strlen_stops by (cases "strlen m s") auto
  then show ?thesis using ustrlen_end [of m s] False by (cases "ustrlen m s") auto
qed

section \<open>Search\<close>

lemma xor_low_high:
  fixes b c y z :: int
  assumes "0 \<le> b" "b < 256" "0 \<le> c" "c < 256"
  shows "(b + 256 * y) XOR (c + 256 * z) = (b XOR c) + 256 * (y XOR z)"
proof (rule bit_eqI)
  fix k
  have "take_bit 8 (b XOR c) = b XOR c" using assms by (simp add: take_bit_xor take_bit_int_eq_self)
  then have bc: "0 \<le> b XOR c" "b XOR c < 256" using take_bit_nonnegative [of 8 "b XOR c"] take_bit_int_less_exp [of 8 "b XOR c"] by simp_all
  show "bit ((b + 256 * y) XOR (c + 256 * z)) k = bit ((b XOR c) + 256 * (y XOR z)) k"
  proof (cases "k < 8")
    case True
    then show ?thesis using assms bc by (simp add: bit_xor_iff bit_low_high(2))
  next
    case False
    then obtain j where "k = 8 + j" using le_Suc_ex not_less by blast
    then show ?thesis using assms bc by (simp add: bit_xor_iff bit_low_high(1))
  qed
qed

lemma bytes_le_xor: "bytes_le m a n XOR (ones n * uint c) = bytes_le (\<lambda>b. m b XOR c) a n"
proof (induction n arbitrary: a)
  case (Suc n)
  have c: "0 \<le> uint c" "uint c < 256" "0 \<le> uint (m a)" "uint (m a) < 256" using uint_bounded [of c] uint_bounded [of "m a"] by simp_all
  have "ones (Suc n) * uint c = uint c + 256 * (ones n * uint c)" by (simp add: algebra_simps)
  then show ?case using xor_low_high [OF c(3,4,1,2)] Suc by (simp add: uint_xor)
qed simp

lemma ONES_ones: "ONES = word_of_int (ones 8)"
  unfolding ONES_val by (simp add: numeral_eq_Suc)

lemma HASZERO_xor: "HASZERO (load_word m a XOR ONES * ucast c) \<noteq> 0 \<longleftrightarrow> (\<exists>i<8. m (a + i) = c)"
proof -
  have "ONES * ucast c = word_of_int (ones 8 * uint c)" by (simp add: ONES_ones unsigned_def)
  then have "load_word m a XOR ONES * ucast c = load_word (\<lambda>b. m b XOR c) a"
    by (simp only: load_word_def of_int_xor_eq [symmetric] bytes_le_xor)
  moreover have "x XOR c = 0 \<longleftrightarrow> x = c" for x :: u8 by (metis xor.assoc xor_self_eq xor.right_neutral)
  ultimately show ?thesis using HASZERO_iff [of "\<lambda>b. m b XOR c" a] by simp
qed

declare memchr_align.simps [simp del] memchr_words.simps [simp del] memchr_bytes.simps [simp del]

text \<open>What every loop of the search leaves: it skipped bytes other than \<open>c\<close> only.\<close>

definition skipped :: "bmem \<Rightarrow> u8 \<Rightarrow> nat \<times> nat \<Rightarrow> nat \<times> nat \<Rightarrow> bool" where
  "skipped m c = (\<lambda>(s, n) (s', n'). s \<le> s' \<and> s' + n' = s + n \<and> (\<forall>a. s \<le> a \<longrightarrow> a < s' \<longrightarrow> m a \<noteq> c))"

lemma skipped_refl: "skipped m c x x"
  by (auto simp: skipped_def)

lemma skipped_step: "\<forall>i<k. m (s + i) \<noteq> c \<Longrightarrow> k \<le> n \<Longrightarrow> skipped m c (s + k, n - k) x \<Longrightarrow> skipped m c (s, n) x"
  unfolding skipped_def by (auto simp: split_def) (metis add_diff_cancel_left' le_add_diff_inverse nat_add_left_cancel_less not_le)

lemma skipped_trans: "skipped m c x y \<Longrightarrow> skipped m c y z \<Longrightarrow> skipped m c x z"
  unfolding skipped_def by (auto simp: split_def) (metis not_le)

lemma memchr_align_skips: "skipped m c (s, n) (memchr_align m c s n)"
proof (induction m c s n rule: memchr_align.induct)
  case (1 m c s n)
  then show ?case using skipped_step [of 1 m s c n] by (subst memchr_align.simps) (auto simp: skipped_refl)
qed

lemma memchr_words_skips: "skipped m c (s, n) (memchr_words m (ONES * ucast c) s n)"
proof (induction m "ONES * ucast c :: u64" s n rule: memchr_words.induct)
  case (1 m s n)
  then show ?case using skipped_step [of 8 m s c n "memchr_words m (ONES * ucast c) (s + 8) (n - 8)"] HASZERO_xor [of m s c]
    by (subst memchr_words.simps) (auto simp: skipped_refl SS_def)
qed

lemma memchr_bytes_skips:
  "skipped m c (s, n) (memchr_bytes m c s n) \<and> (snd (memchr_bytes m c s n) \<noteq> 0 \<longrightarrow> m (fst (memchr_bytes m c s n)) = c)"
proof (induction m c s n rule: memchr_bytes.induct)
  case (1 m c s n)
  then show ?case using skipped_step [of 1 m s c n] by (subst (1 2 3) memchr_bytes.simps) (auto simp: skipped_refl)
qed

lemma first_index_eqI: "lo \<le> i \<Longrightarrow> i < hi \<Longrightarrow> P i \<Longrightarrow> (\<And>j. lo \<le> j \<Longrightarrow> j < i \<Longrightarrow> \<not> P j) \<Longrightarrow> first_index P lo hi = Some i"
  by (cases "first_index P lo hi") (auto simp: first_index_None dest!: first_index_Some, metis linorder_neqE_nat)

text \<open>The search returns the first of the \<open>n\<close> bytes that equals the character, NULL when there is none.\<close>

lemma umemchr_first: "umemchr m s ch n = first_index (\<lambda>a. m a = ucast ch) s (s + n)"
proof -
  let ?c = "ucast ch :: u8"
  obtain s1 n1 where 1: "memchr_align m ?c s n = (s1, n1)" by fastforce
  obtain s2 n2 where 2: "(if n1 \<noteq> 0 \<and> m s1 \<noteq> ?c then memchr_words m (ONES * ucast ?c) s1 n1 else (s1, n1)) = (s2, n2)" by fastforce
  obtain s3 n3 where 3: "memchr_bytes m ?c s2 n2 = (s3, n3)" by fastforce
  have r: "umemchr m s ch n = (if n3 \<noteq> 0 then Some s3 else None)" using 1 2 3 by (simp add: umemchr_def Let_def)
  have "skipped m ?c (s, n) (s1, n1)" using memchr_align_skips [of m ?c s n] 1 by simp
  moreover have "skipped m ?c (s1, n1) (s2, n2)" using memchr_words_skips [of m ?c s1 n1] 2 skipped_refl by (auto split: if_splits)
  moreover have 3: "skipped m ?c (s2, n2) (s3, n3)" "n3 \<noteq> 0 \<longrightarrow> m s3 = ?c" using memchr_bytes_skips [of m ?c s2 n2] 3 by simp_all
  ultimately have "skipped m ?c (s, n) (s3, n3)" using skipped_trans by blast
  then have sk: "s \<le> s3" "s3 + n3 = s + n" "\<forall>a. s \<le> a \<longrightarrow> a < s3 \<longrightarrow> m a \<noteq> ?c" by (auto simp: skipped_def)
  show ?thesis
  proof (cases "n3 = 0")
    case True
    then have "first_index (\<lambda>a. m a = ?c) s (s + n) = None" using sk unfolding first_index_None by auto
    then show ?thesis using r True by simp
  next
    case False
    then have "first_index (\<lambda>a. m a = ?c) s (s + n) = Some s3" using sk 3(2) by (intro first_index_eqI) auto
    then show ?thesis using r False by simp
  qed
qed

lemma ustrnlen_stops: "ustrnlen m s n = (case strlen m s of Some k \<Rightarrow> min k n | None \<Rightarrow> n)"
proof (cases "first_index (\<lambda>a. m a = 0) s (s + n)")
  case None
  then have nz: "\<forall>a. s \<le> a \<longrightarrow> a < s + n \<longrightarrow> m a \<noteq> 0" by (simp add: first_index_None)
  have "n \<le> k" if "strlen m s = Some k" for k
    using nz [rule_format, of "s + k"] that by (simp add: strlen_stops stops_def not_le) (use not_le in blast)
  then show ?thesis using None by (auto simp: ustrnlen_def umemchr_first split: option.splits)
next
  case (Some a)
  note f = first_index_Some [OF Some]
  have "stops m s (a - s)" unfolding stops_def using f by auto
  then have "strlen m s = Some (a - s)" by (simp add: strlen_stops)
  then show ?thesis using Some f by (auto simp: ustrnlen_def umemchr_first min_def)
qed

section \<open>Comparison\<close>

lemma byte_diff_sgn: "byte_diff m l r = 0 \<longleftrightarrow> m l = m r" "byte_diff m l r < 0 \<longleftrightarrow> m l < m r"
  by (simp_all add: byte_diff_def word_uint_eq_iff word_less_def)

lemma strncmp_loop_order:
  "cstr m l xs \<Longrightarrow> cstr m r ys \<Longrightarrow>
   (strncmp_loop m l r n = 0 \<longleftrightarrow> take (Suc n) xs = take (Suc n) ys) \<and>
   (strncmp_loop m l r n < 0 \<longleftrightarrow> ord_class.lexordp (take (Suc n) xs) (take (Suc n) ys))"
proof (induction n arbitrary: l r xs ys)
  case 0
  then show ?case by (cases xs; cases ys) (auto simp: byte_diff_sgn word_gt_0)
next
  case (Suc n)
  show ?case
  proof (cases "\<exists>x xs' ys'. xs = x # xs' \<and> ys = x # ys'")
    case True
    then obtain x xs' ys' where x: "xs = x # xs'" "ys = x # ys'" by blast
    then have "strncmp_loop m l r (Suc n) = strncmp_loop m (Suc l) (Suc r) n" using Suc.prems by simp
    then show ?thesis using Suc.IH [of "Suc l" xs' "Suc r" ys'] Suc.prems x by simp
  next
    case False
    then have "strncmp_loop m l r (Suc n) = byte_diff m l r" using Suc.prems by (cases xs; cases ys) auto
    then show ?thesis using False Suc.prems by (cases xs; cases ys) (auto simp: byte_diff_sgn word_gt_0)
  qed
qed

text \<open>
  \<open>strncmp\<close> of the user library orders two strings by their first \<open>n\<close> characters as unsigned bytes: zero exactly when these are the same,
  negative exactly when the first string comes first in the dictionary order.
\<close>

lemma ustrncmp_order:
  assumes "cstr m l xs" and "cstr m r ys"
  shows "(ustrncmp m l r n = 0 \<longleftrightarrow> take n xs = take n ys) \<and> (ustrncmp m l r n < 0 \<longleftrightarrow> ord_class.lexordp (take n xs) (take n ys))"
  using strncmp_loop_order [OF assms] by (cases n) (simp_all add: ustrncmp_def)

lemma ustrncmp_example:
  "let m = (\<lambda>a. if a = 0 then 97 else if a = 1 then 98 else if a = 8 then 97 else if a = 9 then 200 else 0) in
   ustrncmp m 0 8 1 = 0 \<and> ustrncmp m 0 8 2 < 0"
proof -
  let ?m = "\<lambda>a :: nat. if a = 0 then 97 else if a = 1 then 98 else if a = 8 then 97 else if a = 9 then 200 else 0 :: u8"
  have c: "cstr ?m 0 [97, 98]" "cstr ?m 8 [97, 200]" by simp_all
  show ?thesis using ustrncmp_order [OF c, of 1] ustrncmp_order [OF c, of 2] by (simp add: Let_def)
qed

lemma ustrcmp_order: "cstr m l xs \<Longrightarrow> cstr m r ys \<Longrightarrow> \<exists>d. ustrcmp m l r = Some d \<and> (d = 0 \<longleftrightarrow> xs = ys) \<and> (d < 0 \<longleftrightarrow> ord_class.lexordp xs ys)"
proof (induction xs arbitrary: l r ys)
  case Nil
  then show ?case by (cases ys) (simp_all add: ustrcmp.simps [of m l r] byte_diff_sgn word_gt_0)
next
  case (Cons x xs)
  show ?case
  proof (cases "\<exists>ys'. ys = x # ys'")
    case True
    then obtain ys' where y: "ys = x # ys'" by blast
    then have "ustrcmp m l r = ustrcmp m (Suc l) (Suc r)" using Cons.prems by (simp add: ustrcmp.simps [of m l r])
    then show ?thesis using Cons.IH [of "Suc l" "Suc r" ys'] Cons.prems y by simp
  next
    case False
    then have "ustrcmp m l r = Some (byte_diff m l r)" using Cons.prems by (cases ys) (auto simp: ustrcmp.simps [of m l r])
    then show ?thesis using False Cons.prems by (cases ys) (auto simp: byte_diff_sgn word_gt_0)
  qed
qed

section \<open>Copies\<close>

lemma umemset_zero: "umemset m p 0 n = zero_fill m p n"
  by (induction n arbitrary: m p) simp_all

lemma bytes_le_bit: "i < n \<Longrightarrow> k < 8 \<Longrightarrow> bit (bytes_le m a n) (8 * i + k) = bit (m (a + i)) k"
proof (induction n arbitrary: a i)
  case (Suc n)
  have b: "0 \<le> uint (m a)" "uint (m a) < 256" using uint_bounded [of "m a"] by simp_all
  show ?case
  proof (cases i)
    case 0
    then show ?thesis using bit_low_high(2) [OF b Suc.prems(2)] Suc.prems(2) by (simp add: bit_uint_iff)
  next
    case (Suc j)
    have "8 * Suc j + k = 8 + (8 * j + k)" by simp
    then show ?thesis using Suc.IH [of j "Suc a"] Suc.prems Suc by (simp only: bytes_le.simps bit_low_high(1) [OF b]) simp
  qed
qed simp

lemma load_byte:
  assumes "i < 8"
  shows "ucast (drop_bit (8 * i) (load_word m a)) = m (a + i)"
proof (rule bit_word_eqI)
  fix k assume "k < LENGTH(8)"
  then have k: "k < 8" by simp
  then have "8 * i + k < 64" using assms by simp
  then have "bit (load_word m a) (8 * i + k) = bit (uint (load_word m a)) (8 * i + k)" by (simp add: bit_uint_iff)
  also have "\<dots> = bit (m (a + i)) k" unfolding uint_load_word by (rule bytes_le_bit [OF assms k])
  finally show "bit (ucast (drop_bit (8 * i) (load_word m a)) :: u8) k = bit (m (a + i)) k" using k by (simp add: bit_ucast_iff bit_drop_bit_eq)
qed

lemma store_bytes_eq: "store_bytes m a n x b = (if a \<le> b \<and> b < a + n then ucast (drop_bit (8 * (b - a)) x) else m b)"
proof (induction n arbitrary: m a x)
  case (Suc n)
  have e: "drop_bit (8 * (b - Suc a)) (drop_bit 8 x) = drop_bit (8 * (b - a)) x" if "Suc a \<le> b"
  proof -
    have "8 * (b - Suc a) + 8 = 8 * (b - a)" using that by simp
    then show ?thesis by simp
  qed
  show ?case unfolding store_bytes.simps Suc.IH using e by auto
qed auto

lemma copy_word:
  assumes "d \<le> s \<or> s + 8 \<le> d"
  shows "store_word m d (load_word m s) = copy_up m d s 8"
proof
  fix b
  show "store_word m d (load_word m s) b = copy_up m d s 8 b"
    unfolding store_word_def store_bytes_eq copy_up_eq [OF assms] using load_byte [of "b - d" m s] by auto
qed

text \<open>Copying a prefix first does not matter when the regions do not overlap.\<close>

lemma copy_up_add: "copy_up (copy_up m d s j) (d + j) (s + j) n = copy_up m d s (j + n)"
proof (induction j arbitrary: m d s)
  case (Suc j)
  then show ?case using Suc [of "m(d := m s)" "Suc d" "Suc s"] by (simp del: fun_upd_apply)
qed simp

lemma copy_up_other: "a < d \<or> d + n \<le> a \<Longrightarrow> copy_up m d s n a = m a"
  by (induction n arbitrary: m d s) auto

definition apart :: "nat \<Rightarrow> nat \<Rightarrow> nat \<Rightarrow> bool" where
  "apart d s n \<longleftrightarrow> d + n \<le> s \<or> s + n \<le> d"

lemma apart_later: "apart d s n \<Longrightarrow> k \<le> n \<Longrightarrow> apart (d + k) (s + k) (n - k)"
  by (auto simp: apart_def)

lemma stops_copy:
  assumes "stops m s k" "apart d s (Suc k)" "j \<le> k"
  shows "stops (copy_up m d s j) (s + j) (k - j)"
proof -
  have "copy_up m d s j (s + i) = m (s + i)" if "i \<le> k" for i using assms(2,3) that by (intro copy_up_other) (auto simp: apart_def)
  then show ?thesis using stops_later [OF assms(1,3)] assms(3) unfolding stops_def by (auto simp: add.assoc)
qed

lemma strcpy_bytes_copies: "stops m s k \<Longrightarrow> apart d s (Suc k) \<Longrightarrow> strcpy_bytes m d s = Some (copy_up m d s (Suc k), d + k)"
proof (induction k arbitrary: m d s)
  case 0
  then show ?case by (simp add: stops_def strcpy_bytes.simps [of m d s] fun_upd_def)
next
  case (Suc k)
  have nz: "m s \<noteq> 0" using Suc.prems(1) by (auto simp: stops_def)
  have "stops (m(d := m s)) (Suc s) k" using stops_copy [OF Suc.prems, of 1] by simp
  moreover have "apart (Suc d) (Suc s) (Suc k)" using apart_later [OF Suc.prems(2), of 1] by simp
  ultimately have "strcpy_bytes (m(d := m s)) (Suc d) (Suc s) = Some (copy_up (m(d := m s)) (Suc d) (Suc s) (Suc k), Suc d + k)" by (rule Suc.IH)
  then show ?case unfolding copy_up.simps(2) [of m d s] using nz by (simp add: strcpy_bytes.simps [of m d s] del: copy_up.simps)
qed

lemma strcpy_words_copies: "stops m s k \<Longrightarrow> apart d s (Suc k) \<Longrightarrow> \<exists>j\<le>k. strcpy_words m d s = Some (copy_up m d s j, d + j, s + j)"
proof (induction k arbitrary: m d s rule: less_induct)
  case (less k)
  show ?case
  proof (cases "\<exists>i<8. m (s + i) = 0")
    case True
    then have "strcpy_words m d s = Some (copy_up m d s 0, d + 0, s + 0)" unfolding HASZERO_iff [symmetric] by (subst strcpy_words.simps) simp
    then show ?thesis by blast
  next
    case False
    then have k: "8 \<le> k" using less.prems(1) not_le unfolding stops_def by blast
    have "d \<le> s \<or> s + 8 \<le> d" using less.prems(2) k by (auto simp: apart_def)
    then have w: "strcpy_words m d s = strcpy_words (copy_up m d s 8) (d + 8) (s + 8)"
      using False unfolding HASZERO_iff [symmetric] by (subst strcpy_words.simps) (simp add: SS_def copy_word)
    have "Suc k - 8 = Suc (k - 8)" using k by simp
    then have "apart (d + 8) (s + 8) (Suc (k - 8))" using apart_later [OF less.prems(2), of 8] k by (simp only:)
    then obtain j where j: "j \<le> k - 8" "strcpy_words (copy_up m d s 8) (d + 8) (s + 8) = Some (copy_up (copy_up m d s 8) (d + 8) (s + 8) j, d + 8 + j, s + 8 + j)"
      using less.IH [OF _ stops_copy [OF less.prems k]] k by (metis diff_less le_zero_eq not_gr_zero zero_less_numeral zero_neq_numeral)
    then show ?thesis unfolding w copy_up_add using k by (intro exI [of _ "8 + j"]) auto
  qed
qed

declare strcpy_align.simps [simp del]

lemma strcpy_align_copies:
  "stops m s k \<Longrightarrow> apart d s (Suc k) \<Longrightarrow>
   strcpy_align m d s = Inl (copy_up m d s (Suc k), d + k) \<or> (\<exists>j\<le>k. strcpy_align m d s = Inr (copy_up m d s j, d + j, s + j))"
proof (induction k arbitrary: m d s)
  case 0
  then show ?case by (simp add: stops_def strcpy_align.simps [of m d s] fun_upd_def)
next
  case (Suc k)
  have nz: "m s \<noteq> 0" using Suc.prems(1) by (auto simp: stops_def)
  have "stops (m(d := m s)) (Suc s) k" using stops_copy [OF Suc.prems, of 1] by simp
  moreover have "apart (Suc d) (Suc s) (Suc k)" using apart_later [OF Suc.prems(2), of 1] by simp
  ultimately have IH: "strcpy_align (m(d := m s)) (Suc d) (Suc s) = Inl (copy_up m d s (Suc (Suc k)), d + Suc k) \<or>
      (\<exists>j\<le>k. strcpy_align (m(d := m s)) (Suc d) (Suc s) = Inr (copy_up m d s (Suc j), d + Suc j, s + Suc j))"
    using Suc.IH [of "m(d := m s)" "Suc s" "Suc d"] unfolding copy_up.simps(2) [of m d s] add_Suc_right add_Suc by blast
  show ?case
  proof (cases "s mod SS = 0")
    case True
    then have "strcpy_align m d s = Inr (copy_up m d s 0, d + 0, s + 0)" by (simp add: strcpy_align.simps [of m d s])
    then show ?thesis by blast
  next
    case False
    then have "strcpy_align m d s = strcpy_align (m(d := m s)) (Suc d) (Suc s)" using nz by (simp add: strcpy_align.simps [of m d s] Let_def)
    then show ?thesis using IH by (metis Suc_le_mono)
  qed
qed

text \<open>
  \<open>strcpy\<close> copies the string with its terminator and nothing else, whatever the alignment of the two buffers; the pointer it returns is that of the
  terminator and not the destination.
\<close>

lemma ustrcpy_copies:
  assumes k: "stops m s k" and ap: "apart d s (Suc k)"
  shows "ustrcpy m d s = Some (copy_up m d s (Suc k), d + k)"
proof (cases "s mod SS = d mod SS")
  case True
  from strcpy_align_copies [OF assms] show ?thesis
  proof (elim disjE exE conjE)
    fix j assume j: "j \<le> k" "strcpy_align m d s = Inr (copy_up m d s j, d + j, s + j)"
    note k1 = stops_copy [OF assms j(1)]
    have a1: "apart (d + j) (s + j) (Suc (k - j))" using apart_later [OF ap, of j] j(1) by (simp add: Suc_diff_le)
    obtain i where i: "i \<le> k - j" "strcpy_words (copy_up m d s j) (d + j) (s + j) = Some (copy_up m d s (j + i), d + j + i, s + j + i)"
      using strcpy_words_copies [OF k1 a1] unfolding copy_up_add by blast
    have ji: "j + i \<le> k" using i(1) j(1) by simp
    have "apart (d + (j + i)) (s + (j + i)) (Suc (k - (j + i)))" using apart_later [OF ap, of "j + i"] ji by (simp add: Suc_diff_le)
    from strcpy_bytes_copies [OF stops_copy [OF assms ji] this]
    have "strcpy_bytes (copy_up m d s (j + i)) (d + j + i) (s + j + i) = Some (copy_up m d s (Suc k), d + k)"
      using ji by (simp add: copy_up_add add.assoc del: copy_up.simps)
    then show ?thesis using True j(2) i(2) by (simp add: ustrcpy_def del: copy_up.simps)
  qed (use True in \<open>simp add: ustrcpy_def\<close>)
next
  case False
  then show ?thesis using strcpy_bytes_copies [OF assms] by (simp add: ustrcpy_def)
qed

text \<open>
  The loops of \<open>strncpy\<close> each do some of the steps of the byte-wise routine: what is left is the same copy from where they stopped.
\<close>

lemma strncpy_prefix: "\<forall>i<k. m (s + i) \<noteq> 0 \<Longrightarrow> k \<le> n \<Longrightarrow> apart d s n \<Longrightarrow> strncpy m d s n = strncpy (copy_up m d s k) (d + k) (s + k) (n - k)"
proof (induction k arbitrary: m d s n)
  case (Suc k)
  obtain n' where n: "n = Suc n'" using Suc.prems(2) by (cases n) auto
  have "m s \<noteq> 0" using Suc.prems(1) by auto
  moreover have "\<forall>i<k. (m(d := m s)) (Suc s + i) \<noteq> 0" using Suc.prems n by (auto simp: apart_def)
  moreover have "apart (Suc d) (Suc s) n'" using apart_later [OF Suc.prems(3), of 1] n by simp
  ultimately show ?case using Suc.IH [of "m(d := m s)" "Suc s" n' "Suc d"] Suc.prems(2) n by (simp add: Let_def del: fun_upd_apply)
qed simp

lemma strncpy_end: "n = 0 \<or> m s = 0 \<Longrightarrow> strncpy m d s n = zero_fill m d n"
  by (cases n) (simp_all add: Let_def)

lemma strncpy_again: "m s = 0 \<Longrightarrow> strncpy (m(d := 0)) d s (Suc n) = strncpy m d s (Suc n)"
  by (simp add: Let_def)

declare strncpy_align.simps [simp del] strncpy_words.simps [simp del]

lemma strncpy_align_part:
  "strncpy_align m d s n = (m', d', s', n') \<Longrightarrow> apart d s n \<Longrightarrow> strncpy m d s n = strncpy m' d' s' n' \<and> apart d' s' n'"
proof (induction m d s n rule: strncpy_align.induct)
  case (1 m d s n)
  show ?case
  proof (cases "s mod SS \<noteq> 0 \<and> n \<noteq> 0")
    case True
    then obtain k where n: "n = Suc k" by (cases n) auto
    show ?thesis
    proof (cases "m s = 0")
      case False
      have e: "strncpy_align (m(d := m s)) (Suc d) (Suc s) (n - 1) = (m', d', s', n')" using "1.prems"(1) True False by (simp add: strncpy_align.simps [of m d s n] Let_def)
      have "apart (Suc d) (Suc s) (n - 1)" using apart_later [OF "1.prems"(2), of 1] n by simp
      then show ?thesis using "1.IH" [OF True refl refl False e] n False by (simp add: Let_def del: fun_upd_apply)
    next
      case z: True
      then have "m' = m(d := 0)" "d' = d" "s' = s" "n' = n" using "1.prems"(1) True by (auto simp: strncpy_align.simps [of m d s n] Let_def)
      then show ?thesis using strncpy_again [of m s d k] z n "1.prems"(2) by (simp only:)
    qed
  next
    case False
    then have "(m, d, s, n) = (m', d', s', n')" using "1.prems"(1) by (simp only: strncpy_align.simps [of m d s n] if_False)
    then show ?thesis using "1.prems"(2) by simp
  qed
qed

lemma strncpy_words_part:
  "strncpy_words m d s n = (m', d', s', n') \<Longrightarrow> apart d s n \<Longrightarrow> strncpy m d s n = strncpy m' d' s' n' \<and> apart d' s' n'"
proof (induction m d s n rule: strncpy_words.induct)
  case (1 m d s n)
  show ?case
  proof (cases "n \<ge> SS \<and> HASZERO (load_word m s) = 0")
    case True
    then have nz: "\<forall>i<8. m (s + i) \<noteq> 0" "8 \<le> n" using HASZERO_iff [of m s] by (auto simp: SS_def)
    have "d \<le> s \<or> s + 8 \<le> d" using "1.prems"(2) nz(2) by (auto simp: apart_def)
    note cw = copy_word [OF this, of m]
    have e: "strncpy_words (store_word m d (load_word m s)) (d + SS) (s + SS) (n - SS) = (m', d', s', n')"
      using "1.prems"(1) by (subst (asm) strncpy_words.simps) (simp only: True if_True simp_thms)
    have "apart (d + SS) (s + SS) (n - SS)" using apart_later [OF "1.prems"(2) nz(2)] by (simp add: SS_def)
    from "1.IH" [OF True e this] show ?thesis using strncpy_prefix [OF nz "1.prems"(2)] by (simp add: cw SS_def)
  next
    case False
    then have "(m, d, s, n) = (m', d', s', n')" using "1.prems"(1) by (simp only: strncpy_words.simps [of m d s n] if_False)
    then show ?thesis using "1.prems"(2) by simp
  qed
qed

lemma strncpy_bytes_part:
  "strncpy_bytes m d s n = (m', d', s', n') \<Longrightarrow> strncpy m d s n = strncpy m' d' s' n' \<and> (n' = 0 \<or> m' s' = 0)"
proof (induction n arbitrary: m d s)
  case (Suc n)
  show ?case
  proof (cases "m s = 0")
    case True
    then have "m' = m(d := 0)" "d' = d" "s' = s" "n' = Suc n" using Suc.prems by (auto simp: Let_def)
    then show ?thesis using strncpy_again [of m s d n] True by (simp del: strncpy.simps fun_upd_apply) simp
  next
    case False
    then have "strncpy_bytes (m(d := m s)) (Suc d) (Suc s) n = (m', d', s', n')" using Suc.prems by (simp add: Let_def)
    from Suc.IH [OF this] show ?thesis using False by (simp add: Let_def del: fun_upd_apply)
  qed
qed simp

text \<open>
  The word-wise \<open>strncpy\<close> of the user library leaves the same memory as the byte-wise one of the kernel, for all buffers that do not overlap, whatever
  their alignment: the string up to \<open>n\<close> characters, then zeros up to \<open>n\<close>, and nothing beyond.
\<close>

lemma ustrncpy_equiv:
  assumes "d + n \<le> s \<or> s + n \<le> d"
  shows "fst (ustrncpy m d s n) = strncpy m d s n"
proof -
  have ap: "apart d s n" using assms by (simp add: apart_def)
  let ?b = "\<lambda>m d s n. strncpy_bytes m d s n"
  obtain m1 d1 s1 n1 where 1: "strncpy_align m d s n = (m1, d1, s1, n1)" by (metis prod_cases4)
  obtain m2 d2 s2 n2 where 2: "strncpy_words m1 d1 s1 n1 = (m2, d2, s2, n2)" by (metis prod_cases4)
  obtain m3 d3 s3 n3 where 3: "strncpy_bytes m2 d2 s2 n2 = (m3, d3, s3, n3)" by (metis prod_cases4)
  obtain m4 d4 s4 n4 where 4: "strncpy_bytes m d s n = (m4, d4, s4, n4)" by (metis prod_cases4)
  note p1 = strncpy_align_part [OF 1 ap]
  note p2 = strncpy_words_part [OF 2 conjunct2 [OF p1]]
  note p3 = strncpy_bytes_part [OF 3] and p4 = strncpy_bytes_part [OF 4]
  have e: "zero_fill m' d' n' = strncpy m d s n" if "strncpy m d s n = strncpy m' d' s' n' \<and> (n' = 0 \<or> m' s' = 0)" for m' d' s' n'
    using that strncpy_end by metis
  show ?thesis
  proof (cases "s mod SS = d mod SS")
    case True
    then show ?thesis using 1 2 3 p1 p2 p3 e [of m1 d1 s1 n1] e [of m3 d3 s3 n3] by (auto simp: ustrncpy_def umemset_zero)
  next
    case False
    then show ?thesis using 4 e [OF p4] by (simp add: ustrncpy_def umemset_zero)
  qed
qed

lemma ustrncpy_example:
  "let m = (\<lambda>a. if a = 33 then 52 else if a = 34 then 48 else if a = 35 then 52 else 7 :: u8) in fst (ustrncpy m 1 33 3) 2 = 48"
proof -
  let ?m = "\<lambda>a :: nat. if a = 33 then 52 else if a = 34 then 48 else if a = 35 then 52 else 7 :: u8"
  have "strncpy ?m 1 33 (Suc (Suc (Suc 0))) 2 = 48" by (simp add: Let_def)
  then have "strncpy ?m 1 33 3 2 = 48" by (simp only: numeral_3_eq_3)
  moreover have "fst (ustrncpy ?m 1 33 3) = strncpy ?m 1 33 3" by (rule ustrncpy_equiv) simp
  ultimately show ?thesis by (simp only: Let_def)
qed

section \<open>Decimal numbers\<close>

lemma below_ten: "d < 10 \<Longrightarrow> d = 0 \<or> d = 1 \<or> d = 2 \<or> d = 3 \<or> d = 4 \<or> d = 5 \<or> d = 6 \<or> d = 7 \<or> d = 8 \<or> d = 9" for d :: nat
  by presburger

lemma digits_dec: "d < 10 \<Longrightarrow> digits ! d = of_nat (48 + d)"
  by (drule below_ten) (auto simp: digits_def)

lemma digits_len: "length digits = 16"
  by (simp add: digits_def)

text \<open>The digits of a number in a base.\<close>

function num_text :: "nat \<Rightarrow> nat \<Rightarrow> u8 list" where
  "num_text b n = (if n < b \<or> b < 2 then [digits ! n] else num_text b (n div b) @ [digits ! (n mod b)])"
  by pat_completeness auto
termination
  by (relation "measure (\<lambda>(b, n). n)") auto

declare num_text.simps [simp del]

lemma num_text_dec: "num_text 10 n = dec_nat n"
proof (induction n rule: dec_nat.induct)
  case (1 n)
  then show ?case using digits_dec [of n] digits_dec [of "n mod 10"]
    by (cases "n < 10") (simp_all add: num_text.simps [of 10 n] dec_nat.simps [of n] del: of_nat_add)
qed

lemma num_text_nonempty: "num_text b n \<noteq> []"
  by (subst num_text.simps) simp

lemma num_text_len: "2 \<le> b \<Longrightarrow> 0 < i \<Longrightarrow> n < b ^ i \<Longrightarrow> length (num_text b n) \<le> i"
proof (induction i arbitrary: n)
  case (Suc i)
  show ?case
  proof (cases "n < b")
    case False
    then have "0 < i" using Suc.prems by (cases i) auto
    moreover have "n div b < b ^ i" using Suc.prems(3) by (simp add: less_mult_imp_div_less mult.commute)
    ultimately show ?thesis using Suc.IH Suc.prems(1) False by (simp add: num_text.simps [of b n])
  qed (simp add: num_text.simps [of b n])
qed simp

lemma digit_loop_text:
  assumes "2 \<le> unat b" "unat b \<le> 16"
  shows "length (num_text (unat b) (unat x)) \<le> i \<Longrightarrow> i \<le> length buf \<Longrightarrow>
   digit_loop b buf i x =
     Inr (take (i - length (num_text (unat b) (unat x))) buf @ num_text (unat b) (unat x) @ drop i buf, i - length (num_text (unat b) (unat x)))"
proof (induction i arbitrary: buf x)
  case 0
  then show ?case using num_text_nonempty by simp
next
  case (Suc i)
  let ?b = "unat b" and ?n = "unat x"
  have u: "unat (x mod b) = ?n mod ?b" "unat (x div b) = ?n div ?b" by (simp_all add: unat_mod unat_div)
  have "?n mod ?b < 16" using assms by (meson less_le_trans mod_less_divisor zero_less_numeral)
  then have c: "kget digits (unat (x mod b)) = Inr (digits ! (?n mod ?b))" unfolding u by (simp add: digits_len)
  have z: "x div b = 0 \<longleftrightarrow> ?n < ?b" using u(2) assms(1) by (metis div_eq_0_iff le_zero_eq unat_eq_zero zero_neq_numeral)
  have i: "i < length buf" using Suc.prems(2) by simp
  let ?u = "buf[i := digits ! (?n mod ?b)]"
  have db: "drop i ?u = digits ! (?n mod ?b) # drop (Suc i) buf" using i by (simp add: Cons_nth_drop_Suc [symmetric])
  show ?case
  proof (cases "?n < ?b")
    case True
    then have "digit_loop b buf (Suc i) x = Inr (?u, i)" using c i z by simp
    moreover have "?u = take i buf @ digits ! ?n # drop (Suc i) buf" using i True by (simp add: upd_conv_take_nth_drop)
    ultimately show ?thesis using True by (simp add: num_text.simps [of ?b ?n])
  next
    case False
    have d: "num_text ?b ?n = num_text ?b (unat (x div b)) @ [digits ! (?n mod ?b)]" unfolding u using False assms(1) by (subst num_text.simps) simp
    have l: "length (num_text ?b (unat (x div b))) \<le> i" "i \<le> length ?u" using Suc.prems d by simp_all
    have "digit_loop b buf (Suc i) x = digit_loop b ?u i (x div b)" using False c i z by simp
    also have "\<dots> = Inr (take (i - length (num_text ?b (unat (x div b)))) ?u @ num_text ?b (unat (x div b)) @ drop i ?u, i - length (num_text ?b (unat (x div b))))"
      by (rule Suc.IH [OF l])
    finally show ?thesis unfolding db d by simp
  qed
qed

lemma sint_neg: "sint x < 0 \<Longrightarrow> unat (- x) = nat (- sint x)" for x :: i32
proof -
  assume n: "sint x < 0"
  have "- sint x \<le> 2 ^ 31" using sint_greater_eq [of x] by simp
  then have b: "nat (- sint x) < 2 ^ 32" by simp
  have "- x = of_int (- sint x)" by simp
  also have "\<dots> = of_nat (nat (- sint x))" using n by (simp add: of_nat_nat)
  finally show ?thesis using b by (simp add: unat_of_nat)
qed

lemma sint_pos: "\<not> sint x < 0 \<Longrightarrow> unat x = nat (sint x)" for x :: i32
proof -
  assume "\<not> sint x < 0"
  then have "x = of_nat (nat (sint x))" by (simp add: of_nat_nat)
  moreover have "nat (sint x) < 2 ^ 32" using sint_less [of x] by simp
  then have "unat (of_nat (nat (sint x)) :: i32) = nat (sint x)" by (simp add: unat_of_nat)
  ultimately show ?thesis by (simp only:)
qed

definition signed_text :: "nat \<Rightarrow> i32 \<Rightarrow> u8 list" where
  "signed_text b x = (if sint x < 0 then 45 # num_text b (unat (- x)) else num_text b (unat x))"

lemma signed_dec: "signed_text 10 x = dec_string (sint x)"
  using sint_neg [of x] sint_pos [of x] by (simp add: signed_text_def dec_string_def num_text_dec)

lemma printint_text:
  assumes b: "10 \<le> unat b" "unat b \<le> 16"
  shows "printint xx b True w = Inr (w @ [(ustdout, signed_text (unat b) xx)])"
proof -
  let ?x = "if sint xx < 0 then - xx else xx" and ?t = "num_text (unat b)"
  have "unat ?x < 10 ^ 10" using unat_bound [of ?x] by simp
  also have "(10 :: nat) ^ 10 \<le> unat b ^ 10" using b(1) by (rule power_mono) simp
  finally have l: "length (?t (unat ?x)) \<le> 10" using b(1) by (intro num_text_len) simp_all
  define k where "k = 16 - length (?t (unat ?x))"
  have k: "k + length (?t (unat ?x)) = 16" "0 < k" using l by (simp_all add: k_def)
  have d: "digit_loop b (replicate 17 0) 16 ?x = Inr (replicate k 0 @ ?t (unat ?x) @ [0], k)"
    using digit_loop_text [OF _ b(2), of ?x 16 "replicate 17 0"] b(1) l by (simp add: k_def)
  show ?thesis
  proof (cases "sint xx < 0")
    case True
    have r: "(replicate k 0 @ ?t (unat ?x) @ [0])[k - 1 := 45] = replicate (k - 1) 0 @ (45 # ?t (unat ?x)) @ [0]"
    proof -
      have "replicate k 0 = replicate (k - 1) 0 @ [0 :: u8]" using k(2) by (cases k) (simp_all add: replicate_append_same)
      then show ?thesis by (simp add: list_update_append)
    qed
    have "printint xx b True w = Inr (out ustdout (take (16 - (k - 1)) (drop (k - 1) (replicate (k - 1) 0 @ (45 # ?t (unat ?x)) @ [0]))) w)"
      unfolding r [symmetric] using True d k(2) by (simp add: printint_def Let_def)
    moreover have "16 - (k - 1) = Suc (length (?t (unat ?x)))" using k by simp
    ultimately show ?thesis using True by (simp add: out_def signed_text_def)
  next
    case False
    then show ?thesis using d k by (simp add: printint_def Let_def out_def signed_text_def)
  qed
qed

lemma printint_dec: "printint xx 10 True w = Inr (w @ [(ustdout, dec_string (sint xx))])"
  using printint_text [of 10 xx w] by (simp add: signed_dec)

section \<open>Reading a number\<close>

lemma digit_ucast: "d < 10 \<Longrightarrow> (ucast (of_nat (48 + d) :: u8) :: i32) - 48 = of_nat d \<and> uisdigit (ucast (of_nat (48 + d) :: u8)) \<and> \<not> uisspace (ucast (of_nat (48 + d) :: u8))
    \<and> (of_nat (48 + d) :: u8) \<noteq> 45 \<and> (of_nat (48 + d) :: u8) \<noteq> 43"
  by (drule below_ten) (auto simp: uisdigit_def uisspace_def)

lemma dec_nat_digits: "c \<in> set (dec_nat n) \<Longrightarrow> \<exists>d<10. c = of_nat (48 + d)"
proof (induction n rule: dec_nat.induct)
  case (1 n)
  have "\<exists>d<10. of_nat (48 + n mod 10) = (of_nat (48 + d) :: u8)" by (intro exI [of _ "n mod 10"]) simp
  then show ?case using 1 by (cases "n < 10") (auto simp: dec_nat.simps [of n] simp del: of_nat_add)
qed

lemma atoi_digits_fold:
  "cstr m s xs \<Longrightarrow> \<forall>c\<in>set xs. uisdigit (ucast c) \<Longrightarrow> atoi_digits m s n = Some (foldl (\<lambda>n c. 10 * n - (ucast c - 48)) n xs)"
proof (induction xs arbitrary: s n)
  case Nil
  then show ?case by (simp add: atoi_digits.simps [of m s] uisdigit_def)
next
  case (Cons x xs)
  then show ?case by (simp add: atoi_digits.simps [of m s])
qed

lemma fold_dec: "foldl (\<lambda>n c. 10 * n - (ucast c - 48)) 0 (dec_nat k) = - (of_nat k :: i32)"
proof (induction k rule: dec_nat.induct)
  case (1 k)
  have u: "ucast (of_nat (48 + k mod 10) :: u8) - 48 = (of_nat (k mod 10) :: i32)" using digit_ucast [of "k mod 10"] by simp
  show ?case
  proof (cases "k < 10")
    case True
    then have f: "foldl (\<lambda>n c. 10 * n - (ucast c - 48)) 0 (dec_nat k) = 0 - (ucast (of_nat (48 + k) :: u8) - 48 :: i32)" by (simp add: dec_nat.simps [of k] del: of_nat_add)
    have "ucast (of_nat (48 + k) :: u8) - 48 = (of_nat k :: i32)" using u True by (simp del: of_nat_add)
    then show ?thesis unfolding f by (simp only: diff_0)
  next
    case False
    have "foldl (\<lambda>n c. 10 * n - (ucast c - 48)) 0 (dec_nat k) = 10 * - of_nat (k div 10) - (of_nat (k mod 10) :: i32)"
      using 1 [OF False] False u by (simp add: dec_nat.simps [of k] del: of_nat_add)
    also have "\<dots> = - of_nat (10 * (k div 10) + k mod 10)" by (simp only: of_nat_add of_nat_mult) simp
    finally show ?thesis by simp
  qed
qed

lemma atoi_dec_nat:
  assumes "cstr m s (dec_nat k)"
  shows "atoi_digits m s 0 = Some (- of_nat k)" and "\<not> uisspace (ucast (m s))" and "m s \<noteq> 45" and "m s \<noteq> 43"
proof -
  have d: "\<forall>c\<in>set (dec_nat k). uisdigit (ucast c)" using dec_nat_digits digit_ucast by blast
  show "atoi_digits m s 0 = Some (- of_nat k)" using atoi_digits_fold [OF assms d] fold_dec by simp
  obtain c cs where c: "dec_nat k = c # cs" using dec_nat_nonempty by (meson neq_Nil_conv)
  then obtain e where "e < 10" "c = of_nat (48 + e)" using dec_nat_digits [of c k] by auto
  then show "\<not> uisspace (ucast (m s))" "m s \<noteq> 45" "m s \<noteq> 43" using digit_ucast [of e] assms c by simp_all
qed



section \<open>Formatted output\<close>

lemma hex_nibble: "k \<le> 60 \<Longrightarrow> unat (drop_bit 60 (push_bit k x)) = nat (uint x div 2 ^ (60 - k) mod 16)" for x :: u64
proof -
  assume k: "k \<le> 60"
  have "drop_bit 60 (push_bit k x) = take_bit 4 (drop_bit (60 - k) x)"
    by (rule bit_word_eqI) (use k in \<open>auto simp: bit_simps\<close>)
  then have "uint (drop_bit 60 (push_bit k x)) = uint x div 2 ^ (60 - k) mod 16"
    using uint_bounded [of x] by (simp only: unsigned_take_bit_eq unsigned_drop_bit_eq) (simp add: drop_bit_eq_div take_bit_eq_mod)
  then show ?thesis by (metis nat_uint_eq)
qed

lemma digits_hex: "0 \<le> d \<Longrightarrow> d < 16 \<Longrightarrow> digits ! nat d = hex_digit d"
proof -
  assume "0 \<le> d" "d < 16"
  then have "d \<in> {0, 1, 2, 3, 4, 5, 6, 7, 8, 9, 10, 11, 12, 13, 14, 15}" unfolding insert_iff empty_iff by presburger
  then show ?thesis by (auto simp: digits_def hex_digit_def)
qed

lemma hex_digits_text: "hex_digits 16 x = hex_string (uint x) 16"
proof -
  have h: "digits ! unat (drop_bit 60 (push_bit k x)) = hex_digit (uint x div 2 ^ (60 - k) mod 16)" if "k \<le> 60" for k
    unfolding hex_nibble [OF that] by (rule digits_hex) simp_all
  have s: "hex_digits j (push_bit (4 * i) x) = map (\<lambda>l. hex_digit (uint x div 2 ^ (60 - 4 * (i + l)) mod 16)) [0..<j]" if "i + j \<le> 16" for i j
    using that
  proof (induction j arbitrary: i)
    case (Suc j)
    have "push_bit 4 (push_bit (4 * i) x) = push_bit (4 * Suc i) x" by (simp add: add.commute)
    then show ?case using Suc.IH [of "Suc i"] Suc.prems h [of "4 * i"]
      by (simp add: upt_conv_Cons map_Suc_upt [symmetric] comp_def add.assoc del: upt_Suc)
  qed simp
  show ?thesis using s [of 0 16] by (simp add: hex_string_def upt_rec)
qed

text \<open>The text of a conversion, and the text of a format; \<open>None\<close> when there are too few arguments.\<close>

definition utext :: "bmem \<Rightarrow> u8 \<Rightarrow> u64 \<Rightarrow> u8 list" where
  "utext m c x =
     (if c = 100 then dec_string (sint (ucast x :: i32)) else if c = 120 then signed_text 16 (ucast x)
      else if c = 112 then [48, 120] @ hex_string (uint x) 16
      else if x = 0 then [40, 110, 117, 108, 108, 41]
      else map m [unat x..<unat x + (case strlen m (unat x) of Some k \<Rightarrow> min k 200 | None \<Rightarrow> 200)])"

fun urender :: "bmem \<Rightarrow> u8 list \<Rightarrow> u64 list \<Rightarrow> u8 list option" where
  "urender m [] args = Some []"
| "urender m [c] args = Some (if c = 37 then [] else [c])"
| "urender m (c # d # s) args =
     (if c \<noteq> 37 then map_option ((#) c) (urender m (d # s) args)
      else if d = 37 then map_option ((#) 37) (urender m s args)
      else if d \<in> {100, 120, 112, 115}
      then (case args of [] \<Rightarrow> None | x # args \<Rightarrow> map_option ((@) (utext m d x)) (urender m s args))
      else map_option (\<lambda>t. 37 # d # t) (urender m s args))"

lemma urender_plain: "c \<noteq> 37 \<Longrightarrow> urender m (c # s) args = map_option ((#) c) (urender m s args)"
  by (cases s) simp_all

lemma map_option_prefix: "map_option ((@) []) y = y" "map_option ((@) (x # xs)) y = map_option (\<lambda>t. x # xs @ t) y"
  by (cases y; simp)+

lemma urender_text: "37 \<notin> set a \<Longrightarrow> urender m (a @ s) args = map_option ((@) a) (urender m s args)"
  by (induction a) (auto simp: urender_plain option.map_comp comp_def map_option_prefix)

lemma urender_pct: "urender m s args = map_option ((@) (replicate (fst (pct_run s)) 37)) (urender m (snd (pct_run s)) args)"
  by (induction s rule: pct_run.induct) (auto simp: split_def option.map_comp comp_def map_option_prefix)

lemma pct_run_stop: "snd (pct_run s) = c # d # r \<Longrightarrow> c \<noteq> 37 \<or> d \<noteq> 37"
  by (induction s rule: pct_run.induct) (auto simp: split_def split: if_splits)

lemma pct_run_none: "fst (pct_run s) = 0 \<Longrightarrow> snd (pct_run s) = s"
  by (induction s rule: pct_run.induct) (auto simp: split_def split: if_splits)

text \<open>\<open>printed w t w'\<close>: from \<open>w\<close> to \<open>w'\<close> the text \<open>t\<close> was written, all of it to the standard output.\<close>

definition printed :: "wlog \<Rightarrow> u8 list \<Rightarrow> wlog \<Rightarrow> bool" where
  "printed w t w' \<longleftrightarrow> (\<exists>v. w' = w @ v \<and> concat (map snd v) = t \<and> fst ` set v \<subseteq> {ustdout})"

lemma printed_refl: "printed w [] w"
  by (simp add: printed_def)

lemma printed_out: "printed w t (w @ [(ustdout, t)])"
  by (simp add: printed_def)

lemma printed_trans: "printed w s v \<Longrightarrow> printed v t u \<Longrightarrow> printed w (s @ t) u"
  unfolding printed_def by force

lemma uconv_printed:
  assumes "d \<in> {100, 120, 112, 115} \<Longrightarrow> args = x # as"
  shows "\<exists>w'. uconv m d args w = Inr (if d \<in> {100, 120, 112, 115} then as else args, w') \<and>
    printed w (if d \<in> {100, 120, 112, 115} then utext m d x else [37, d]) w'"
proof (cases "d \<in> {100, 120, 112, 115}")
  case True
  have "\<exists>w'. uconv m d (x # as) w = Inr (as, w') \<and> w' = w @ [(ustdout, utext m d x)]"
    using True by (auto simp: uconv_def printint_dec printint_text printptr_def out_def utext_def hex_digits_text ustrnlen_stops Let_def split: option.splits)
  then show ?thesis using True assms printed_out by auto
next
  case False
  have "printed w [37, d] (putchar d (putchar 37 w))"
    using printed_trans [OF printed_out [of w "[37]"] printed_out [of _ "[d]"]] by (simp add: putchar_def out_def)
  then show ?thesis using False by (simp add: uconv_def)
qed

lemma puts_writes: "cstr m s xs \<Longrightarrow> \<exists>k. puts r m s w = Some (k, w @ [(ustdout, xs)])"
proof -
  assume c: "cstr m s xs"
  then have "ustrlen m s = Some (length xs)" by (metis strlen_cstr strlen_stops ustrlen_stops)
  moreover have "map m [s..<s + length xs] = xs" using c by (auto simp: cstr_iff intro: nth_equalityI)
  ultimately show ?thesis by (simp add: puts_def out_def)
qed

text \<open>
  \<open>printf\<close> of the user library writes the text its format denotes, character by character, to the standard output, however the text is cut into calls of
  \<^verbatim>\<open>write\<close>: plain text, doubled percent signs as one, signed decimal and signed hexadecimal numbers, pointers, strings of at most 200 characters, and
  unknown conversions as they stand.
\<close>

lemma uprintf_renders:
  assumes "urender m s args = Some t"
  shows "\<exists>w'. uprintf m s args w = Inr w' \<and> printed w t w'"
  using assms
proof (induction m s args w arbitrary: t rule: uprintf.induct)
  case (1 m s args w)
  let ?P = "\<lambda>c :: u8. c \<noteq> 37"
  define a where "a = takeWhile ?P s"
  define k where "k = fst (pct_run (dropWhile ?P s))"
  define s' where "s' = snd (pct_run (dropWhile ?P s))"
  define w1 where "w1 = out ustdout (a @ replicate k 37) w"
  have p: "pct_run (dropWhile ?P s) = (k, s')" by (simp add: k_def s'_def)
  have "urender m s args = map_option ((@) a) (urender m (dropWhile ?P s) args)"
    unfolding a_def using urender_text [of "takeWhile ?P s"] by (metis (mono_tags, lifting) set_takeWhileD takeWhile_dropWhile_id)
  also have "\<dots> = map_option ((@) a) (map_option ((@) (replicate k 37)) (urender m s' args))" unfolding urender_pct [of m "dropWhile ?P s"] p fst_conv snd_conv ..
  finally have "map_option ((@) a) (map_option ((@) (replicate k 37)) (urender m s' args)) = Some t" using "1.prems" by simp
  then obtain t' where t: "urender m s' args = Some t'" "t = (a @ replicate k 37) @ t'" by (auto simp: map_option_eq_Some)
  have w1: "printed w (a @ replicate k 37) w1" using printed_out by (simp add: w1_def out_def)
  note u = uprintf.simps [of m s args w, folded a_def, unfolded Let_def p prod.case, folded w1_def]
  consider (1) "s = []" | (2) "s \<noteq> []" "a @ replicate k 37 \<noteq> []" | (3) "s \<noteq> []" "a @ replicate k 37 = []" "length s' < 2"
    | (4) c d r where "s \<noteq> []" "a @ replicate k 37 = []" "s' = c # d # r"
    using list.exhaust [of s'] list.exhaust [of "tl s'"] by (metis One_nat_def Suc_1 Suc_less_eq2 length_0_conv length_Suc_conv lessI list.sel(3) list.size(4) zero_less_Suc)
  note cs = this
  have whole: "s' = s \<and> hd s = 37" if "s \<noteq> []" "a @ replicate k 37 = []"
    using that pct_run_none [of "dropWhile ?P s"] by (cases s) (auto simp: a_def k_def s'_def split: if_splits)
  from cs show ?case
  proof cases
    case 1
    then show ?thesis using "1.prems" printed_refl by (subst u) simp
  next
    case 2
    then obtain w' where "uprintf m s' args w1 = Inr w'" "printed w1 t' w'"
      using "1.IH"(1) [OF 2(1) a_def refl p [symmetric] refl w1_def 2(2) t(1)] by blast
    then show ?thesis using printed_trans [OF w1] t(2) 2 by (subst u) auto
  next
    case 3
    then have "s' = [37]" using whole by (cases s') (auto simp: Suc_less_eq2)
    then show ?thesis using 3 t w1 by (subst u) auto
  next
    case (4 c d r)
    then have cd: "c = 37" "d \<noteq> 37" using whole pct_run_stop [of "dropWhile ?P s" c d r] s'_def by auto
    let ?cv = "d \<in> {100, 120, 112, 115}"
    obtain x as tr where x: "?cv \<longrightarrow> args = x # as" "urender m r (if ?cv then as else args) = Some tr" "t' = (if ?cv then utext m d x else [37, d]) @ tr"
      using t(1) cd 4(3) by (cases args) (auto simp: map_option_eq_Some split: if_splits)
    obtain w2 where w2: "uconv m d args w1 = Inr (if ?cv then as else args, w2)" "printed w1 (if ?cv then utext m d x else [37, d]) w2"
      using uconv_printed [of d args x as m w1] x(1) by blast
    have "length s' \<ge> 2" "s' ! 1 = d" "drop 2 s' = r" using 4(3) by simp_all
    then obtain w' where "uprintf m r (if ?cv then as else args) w2 = Inr w'" "printed w2 tr w'"
      using "1.IH"(2) [OF 4(1) a_def refl p [symmetric] refl w1_def _ _ _ refl] 4(2) x(2) w2(1) by auto
    then show ?thesis using 4 w2 x t(2) printed_trans [OF w1] printed_trans [OF w2(2)] by (subst u) auto
  qed
qed

end
