(* ===== verification/Usercall.thy ===== *)
theory Usercall
  imports Boot Userlib
begin

text \<open>
  The system calls as a user program makes them: the stubs of \<^verbatim>\<open>src/user/lib/syscall.c\<close> over the call numbers of \<^verbatim>\<open>src/user/lib/syscall_ids.h\<close> and the
  register convention of \<^verbatim>\<open>src/user/lib/arch/riscv/syscall_arch.h\<close>, \<^verbatim>\<open>main.c\<close> and \<^verbatim>\<open>stdlib.c\<close> of the same library, and what they meet in the kernel: a
  stub is a number and arguments, \<open>ecall\<close> hands them to \<open>trap_vector\<close>. The stub \<^verbatim>\<open>clone\<close> only calls the assembly routine of \<^verbatim>\<open>src/user/src/oscomp/clone.s\<close>, which is not modelled.
\<close>

section \<open>Call numbers\<close>

definition SYS_openat :: u64 where "SYS_openat = 56"
definition SYS_close :: u64 where "SYS_close = 57"
definition SYS_read :: u64 where "SYS_read = 63"
definition SYS_write :: u64 where "SYS_write = 64"
definition SYS_getpid :: u64 where "SYS_getpid = 172"
definition SYS_getppid :: u64 where "SYS_getppid = 173"
definition SYS_sched_yield :: u64 where "SYS_sched_yield = 124"
definition SYS_clone :: u64 where "SYS_clone = 220"
definition SYS_exit :: u64 where "SYS_exit = 93"
definition SYS_wait4 :: u64 where "SYS_wait4 = 260"
definition SYS_execve :: u64 where "SYS_execve = 221"
definition SYS_times :: u64 where "SYS_times = 153"
definition SYS_gettimeofday :: u64 where "SYS_gettimeofday = 169"
definition SYS_time :: u64 where "SYS_time = 1062"
definition SYS_nanosleep :: u64 where "SYS_nanosleep = 101"
definition SYS_setpriority :: u64 where "SYS_setpriority = 140"
definition SYS_mmap :: u64 where "SYS_mmap = 222"
definition SYS_munmap :: u64 where "SYS_munmap = 215"
definition SYS_spawn :: u64 where "SYS_spawn = 400"
definition SYS_mailread :: u64 where "SYS_mailread = 401"
definition SYS_mailwrite :: u64 where "SYS_mailwrite = 402"
definition SYS_fstat :: u64 where "SYS_fstat = 80"
definition SYS_linkat :: u64 where "SYS_linkat = 37"
definition SYS_unlinkat :: u64 where "SYS_unlinkat = 35"
definition SYS_uname :: u64 where "SYS_uname = 160"
definition SYS_brk :: u64 where "SYS_brk = 214"
definition SYS_getcwd :: u64 where "SYS_getcwd = 17"
definition SYS_chdir :: u64 where "SYS_chdir = 49"
definition SYS_mkdirat :: u64 where "SYS_mkdirat = 34"
definition SYS_getdents64 :: u64 where "SYS_getdents64 = 61"
definition SYS_pipe2 :: u64 where "SYS_pipe2 = 59"
definition SYS_dup :: u64 where "SYS_dup = 23"
definition SYS_dup3 :: u64 where "SYS_dup3 = 24"
definition SYS_mount :: u64 where "SYS_mount = 40"
definition SYS_umount2 :: u64 where "SYS_umount2 = 39"

section \<open>Stubs\<close>

text \<open>The number for register \<open>a7\<close> and the arguments for \<open>a0\<close>, \<open>a1\<close> and so on, each converted to \<^verbatim>\<open>long\<close>.\<close>

type_synonym ucall = "u64 \<times> u64 list"

definition long :: "i32 \<Rightarrow> u64" where "long x = word_of_int (sint x)"

definition UAT_FDCWD :: i32 where "UAT_FDCWD = - 100"
definition O_RDWR :: u64 where "O_RDWR = 2"
definition USIGCHLD :: u64 where "USIGCHLD = 17"

definition u_open :: "u64 \<Rightarrow> i32 \<Rightarrow> ucall" where
  "u_open path flags = (SYS_openat, [long UAT_FDCWD, path, long flags, O_RDWR])"

definition u_openat :: "i32 \<Rightarrow> u64 \<Rightarrow> i32 \<Rightarrow> ucall" where
  "u_openat dirfd path flags = (SYS_openat, [long dirfd, path, long flags, 0x180])"

definition u_close :: "i32 \<Rightarrow> ucall" where
  "u_close fd = (SYS_close, [long fd])"

definition u_read :: "i32 \<Rightarrow> u64 \<Rightarrow> u64 \<Rightarrow> ucall" where
  "u_read fd buf len = (SYS_read, [long fd, buf, len])"

definition u_write :: "i32 \<Rightarrow> u64 \<Rightarrow> u64 \<Rightarrow> ucall" where
  "u_write fd buf len = (SYS_write, [long fd, buf, len])"

definition u_getpid :: ucall where
  "u_getpid = (SYS_getpid, [])"

definition u_getppid :: ucall where
  "u_getppid = (SYS_getppid, [])"

definition u_sched_yield :: ucall where
  "u_sched_yield = (SYS_sched_yield, [])"

definition u_fork :: ucall where
  "u_fork = (SYS_clone, [USIGCHLD, 0])"

definition u_exit :: "i32 \<Rightarrow> ucall" where
  "u_exit code = (SYS_exit, [long code])"

definition u_waitpid :: "i32 \<Rightarrow> u64 \<Rightarrow> i32 \<Rightarrow> ucall" where
  "u_waitpid p code options = (SYS_wait4, [long p, code, long options, 0])"

definition u_exec :: "u64 \<Rightarrow> ucall" where
  "u_exec name = (SYS_execve, [name])"

definition u_execve :: "u64 \<Rightarrow> u64 \<Rightarrow> u64 \<Rightarrow> ucall" where
  "u_execve name argv argp = (SYS_execve, [name, argv, argp])"

definition u_times :: "u64 \<Rightarrow> ucall" where
  "u_times mytimes = (SYS_times, [mytimes])"

definition u_sys_get_time :: "u64 \<Rightarrow> i32 \<Rightarrow> ucall" where
  "u_sys_get_time ts tz = (SYS_gettimeofday, [ts, long tz])"

definition u_time :: "u64 \<Rightarrow> ucall" where
  "u_time tloc = (SYS_time, [tloc])"

definition u_sleep :: "u64 \<Rightarrow> ucall" where
  "u_sleep tv = (SYS_nanosleep, [tv, tv])"

definition u_set_priority :: "i32 \<Rightarrow> ucall" where
  "u_set_priority prio = (SYS_setpriority, [long prio])"

definition u_mmap :: "u64 \<Rightarrow> u64 \<Rightarrow> i32 \<Rightarrow> i32 \<Rightarrow> i32 \<Rightarrow> u64 \<Rightarrow> ucall" where
  "u_mmap start len prot flags fd off = (SYS_mmap, [start, len, long prot, long flags, long fd, off])"

definition u_munmap :: "u64 \<Rightarrow> u64 \<Rightarrow> ucall" where
  "u_munmap start len = (SYS_munmap, [start, len])"

definition u_spawn :: "u64 \<Rightarrow> ucall" where
  "u_spawn name = (SYS_spawn, [name])"

definition u_mailread :: "u64 \<Rightarrow> i32 \<Rightarrow> ucall" where
  "u_mailread buf len = (SYS_mailread, [buf, long len])"

definition u_mailwrite :: "i32 \<Rightarrow> u64 \<Rightarrow> i32 \<Rightarrow> ucall" where
  "u_mailwrite p buf len = (SYS_mailwrite, [long p, buf, long len])"

definition u_fstat :: "i32 \<Rightarrow> u64 \<Rightarrow> ucall" where
  "u_fstat fd st = (SYS_fstat, [long fd, st])"

definition u_sys_linkat :: "i32 \<Rightarrow> u64 \<Rightarrow> i32 \<Rightarrow> u64 \<Rightarrow> u32 \<Rightarrow> ucall" where
  "u_sys_linkat olddirfd oldpath newdirfd newpath flags = (SYS_linkat, [long olddirfd, oldpath, long newdirfd, newpath, ucast flags])"

definition u_sys_unlinkat :: "i32 \<Rightarrow> u64 \<Rightarrow> u32 \<Rightarrow> ucall" where
  "u_sys_unlinkat dirfd path flags = (SYS_unlinkat, [long dirfd, path, ucast flags])"

definition u_uname :: "u64 \<Rightarrow> ucall" where
  "u_uname buf = (SYS_uname, [buf])"

definition u_brk :: "u64 \<Rightarrow> ucall" where
  "u_brk addr = (SYS_brk, [addr])"

definition u_getcwd :: "u64 \<Rightarrow> u64 \<Rightarrow> ucall" where
  "u_getcwd buf n = (SYS_getcwd, [buf, n])"

definition u_chdir :: "u64 \<Rightarrow> ucall" where
  "u_chdir path = (SYS_chdir, [path])"

definition u_mkdir :: "u64 \<Rightarrow> u32 \<Rightarrow> ucall" where
  "u_mkdir path mode = (SYS_mkdirat, [long UAT_FDCWD, path, ucast mode])"

definition u_getdents :: "i32 \<Rightarrow> u64 \<Rightarrow> u64 \<Rightarrow> ucall" where
  "u_getdents fd dirp64 len = (SYS_getdents64, [long fd, dirp64, len])"

definition u_pipe :: "u64 \<Rightarrow> ucall" where
  "u_pipe fd = (SYS_pipe2, [fd, 0])"

definition u_dup :: "i32 \<Rightarrow> ucall" where
  "u_dup fd = (SYS_dup, [long fd])"

definition u_dup2 :: "i32 \<Rightarrow> i32 \<Rightarrow> ucall" where
  "u_dup2 old new = (SYS_dup3, [long old, long new, 0])"

definition u_mount :: "u64 \<Rightarrow> u64 \<Rightarrow> u64 \<Rightarrow> u64 \<Rightarrow> u64 \<Rightarrow> ucall" where
  "u_mount special dir fstype flags data = (SYS_mount, [special, dir, fstype, flags, data])"

definition u_umount :: "u64 \<Rightarrow> ucall" where
  "u_umount special = (SYS_umount2, [special, 0])"

definition u_wait :: "u64 \<Rightarrow> ucall" where "u_wait code = u_waitpid (- 1) code 0"

definition u_link :: "u64 \<Rightarrow> u64 \<Rightarrow> ucall" where
  "u_link old_path new_path = u_sys_linkat UAT_FDCWD old_path UAT_FDCWD new_path 0"

definition u_unlink :: "u64 \<Rightarrow> ucall" where "u_unlink path = u_sys_unlinkat UAT_FDCWD path 0"

text \<open>What \<^verbatim>\<open>get_time\<close> and \<^verbatim>\<open>sleep\<close> make of the result and of the words the call stored.\<close>

definition get_time :: "i32 \<Rightarrow> u64 \<Rightarrow> u64 \<Rightarrow> i64" where
  "get_time err sec usec = (if err = 0 then (sec AND 0xffff) * 1000 + usec div 1000 else - 1)"

definition sleep_result :: "u64 \<Rightarrow> u64 \<Rightarrow> i32" where
  "sleep_result r sec = (if r \<noteq> 0 then ucast sec else 0)"

text \<open>\<^verbatim>\<open>clone\<close> hands the end of the new stack to \<^verbatim>\<open>__clone\<close>, a parameter here: no file of the sources defines it. The argument \<open>arg\<close> is dropped.\<close>

definition u_clone :: "(u64 \<Rightarrow> u64 \<Rightarrow> u64 \<Rightarrow> u64 \<Rightarrow> u64 \<Rightarrow> u64 \<Rightarrow> i32) \<Rightarrow> u64 \<Rightarrow> u64 \<Rightarrow> u64 \<Rightarrow> u64 \<Rightarrow> u64 \<Rightarrow> i32" where
  "u_clone do_clone fn arg stack stack_size flags =
     (let stack = (if stack \<noteq> 0 then stack + stack_size else stack) in do_clone fn stack flags 0 0 0)"

text \<open>\<^verbatim>\<open>__start_main\<close>: the first word at \<open>p\<close> is the argument count, the arguments follow.\<close>

definition start_main :: "(u64 \<Rightarrow> u64) \<Rightarrow> (i32 \<Rightarrow> u64 \<Rightarrow> i32) \<Rightarrow> u64 \<Rightarrow> ucall" where
  "start_main mem main p = u_exit (main (ucast (mem p)) (p + 8))"

text \<open>\<^verbatim>\<open>panic\<close> of the library: the calls it makes, when the message has a terminator.\<close>

definition upanic :: "bmem \<Rightarrow> nat \<Rightarrow> ucall list option" where
  "upanic m s = map_option (\<lambda>n. [u_write 1 (of_nat s) (of_nat n), u_exit (- 100)]) (ustrlen m s)"

section \<open>The environment call\<close>

definition put_arg :: "nat \<Rightarrow> u64 \<Rightarrow> reg \<Rightarrow> reg" where
  "put_arg i v u =
     (if i = 0 then u\<lparr>r_a0 := v\<rparr> else if i = 1 then u\<lparr>r_a1 := v\<rparr> else if i = 2 then u\<lparr>r_a2 := v\<rparr>
      else if i = 3 then u\<lparr>r_a3 := v\<rparr> else if i = 4 then u\<lparr>r_a4 := v\<rparr> else u\<lparr>r_a5 := v\<rparr>)"

definition call_regs :: "ucall \<Rightarrow> reg \<Rightarrow> reg" where
  "call_regs c u = (fold (\<lambda>(i, v). put_arg i v) (enumerate 0 (snd c)) u)\<lparr>r_a7 := fst c\<rparr>"

definition ecall :: "'u world \<Rightarrow> ucall \<Rightarrow> u64 \<Rightarrow> reg \<Rightarrow> 'u machine \<Rightarrow> (reg option \<times> 'u machine) res option" where
  "ecall w c pc u m = trap_vector w 8 pc (call_regs c u) m"

section \<open>What reaches the system call table\<close>

lemma put_arg_sp [simp]: "r_sp (put_arg i v u) = r_sp u"
  by (simp add: put_arg_def)

lemma call_regs_sp [simp]: "r_sp (call_regs c u) = r_sp u"
proof -
  have "r_sp (fold (\<lambda>(i, v). put_arg i v) xs u) = r_sp u" for xs by (induction xs arbitrary: u) auto
  then show ?thesis by (simp add: call_regs_def)
qed

lemma call_regs_nr [simp]: "r_a7 (call_regs c u) = fst c"
  by (simp add: call_regs_def)

text \<open>The machine on entry to the handler: the registers are in the context of the caller.\<close>

definition call_entry :: "u64 \<Rightarrow> reg \<Rightarrow> 'u machine \<Rightarrow> task_struct \<Rightarrow> 'u machine" where
  "call_entry pc u m t = set_mode 1 (m\<lparr>kern := set_task (current (kern m)) (t\<lparr>ctx := reg_save u pc (ctx t)\<rparr>) (kern m)\<rparr>)"

definition stack_in :: "u64 \<Rightarrow> kstate \<Rightarrow> bool" where
  "stack_in sp k \<longleftrightarrow> stack_top k (current k) - 4095 \<le> sp \<and> sp \<le> stack_top k (current k)"

lemma ecall_enters:
  assumes inv: "mwf m" and t: "TASK (kern m) ! current (kern m) = Some t" and sp: "stack_in (r_sp u) (kern m)"
  shows "ecall w c pc u m =
    Some (kbind (do_syscall w (call_entry pc (call_regs c u) m t)) (\<lambda>(r, m'). case r of
      Gone \<Rightarrow> Inr (None, m')
    | Result v st \<Rightarrow> kbind (set_ctx (current (kern m)) (\<lambda>c. c\<lparr>r_epc := pc + 4\<rparr>) m') (\<lambda>m'.
        kbind (the_task (kern m') (current (kern m))) (\<lambda>t. Inr (Some (ctx t), set_mode 0 m')))))"
proof -
  have pv: "pinv (kern m)" using inv by (simp add: mwf_def)
  have lt: "current (kern m) < 64" "length (TASK (kern m)) = 64" using pv by (auto simp: pinv_def sinv_def table_ok_def)
  have pc: "pcb_id t = current (kern m)" using pinv_task(1) [OF pv lt(1) t] .
  have s: "set_ctx (current (kern m)) (reg_save (call_regs c u) pc) m =
      Inr (m\<lparr>kern := set_task (current (kern m)) (t\<lparr>ctx := reg_save (call_regs c u) pc (ctx t)\<rparr>) (kern m)\<rparr>)" using t lt by (simp add: set_ctx_Inr)
  have d: "Dect_stack (r_sp u) (set_task (current (kern m)) (t\<lparr>ctx := x\<rparr>) (kern m)) = Inr ()" for x
    using lt pc sp by (auto simp: Dect_stack_def the_task_def stack_in_def stack_top_def set_task_def Let_def not_less)
  show ?thesis unfolding ecall_def trap_vector_def trap_handler_def Let_def using s d
    by (simp add: call_entry_def kbind_assoc split_def cong: kbind_cong) (auto intro!: kbind_cong split: sys_out.splits)
qed

lemma call_entry_task [simp]:
  "length (TASK (kern m)) = 64 \<Longrightarrow> current (kern m) < 64 \<Longrightarrow> the_task (kern (call_entry pc u m t)) (current (kern m)) = Inr (t\<lparr>ctx := reg_save u pc (ctx t)\<rparr>)"
  "current (kern (call_entry pc u m t)) = current (kern m)"
  by (simp_all add: call_entry_def set_mode_def the_task_def)

lemma reg_save_a7 [simp]: "r_a7 (reg_save u pc c) = r_a7 u"
  by (simp add: reg_save_def)

text \<open>
  A stub whose number has no entry makes the kernel call a null pointer, or read past the end of the table: only eight numbers are served, and nothing
  checks the number. \<^verbatim>\<open>write\<close> is among the others, so every program that prints ends this way.
\<close>

lemma unserved_call:
  assumes inv: "mwf m" and t: "TASK (kern m) ! current (kern m) = Some t" and sp: "stack_in (r_sp u) (kern m)"
    and nr: "fst c \<notin> {NR_gethid, NR_getpid, NR_getppid, NR_fork, NR_execve, NR_exit, NR_waitpid, NR_shutdown}"
  shows "ecall w c pc u m = Some (Inl (if fst c < 261 then NullDeref else OutOfBounds))"
proof -
  have lt: "current (kern m) < 64" "length (TASK (kern m)) = 64" using inv by (auto simp: mwf_def pinv_def sinv_def table_ok_def)
  have "do_syscall w (call_entry pc (call_regs c u) m t) = Inl (if fst c < 261 then NullDeref else OutOfBounds)"
    using nr lt by (simp add: do_syscall_def sys_call_def Let_def)
  then show ?thesis unfolding ecall_enters [OF inv t sp] by simp
qed

lemmas call_numbers = NR_gethid_def NR_getpid_def NR_getppid_def NR_fork_def NR_execve_def NR_exit_def NR_waitpid_def NR_shutdown_def

lemma write_faults:
  assumes "mwf m" and "TASK (kern m) ! current (kern m) = Some t" and "stack_in (r_sp u) (kern m)"
  shows "ecall w (u_write fd buf len) pc u m = Some (Inl NullDeref)" "ecall w (u_read fd buf len) pc u m = Some (Inl NullDeref)"
    "ecall w (u_open path flags) pc u m = Some (Inl NullDeref)" "ecall w (u_sched_yield) pc u m = Some (Inl NullDeref)"
    "ecall w (u_spawn name) pc u m = Some (Inl OutOfBounds)" "ecall w (u_time tloc) pc u m = Some (Inl OutOfBounds)"
  by (subst unserved_call [OF assms]; simp add: u_write_def u_read_def u_open_def u_sched_yield_def u_spawn_def u_time_def call_numbers
      SYS_write_def SYS_read_def SYS_openat_def SYS_sched_yield_def SYS_spawn_def SYS_time_def)+

section \<open>fork from the user's side\<close>

lemma fork_returns:
  assumes inv: "pinv k" and h: "minv (heap k)" "used_pages (pg (heap k)) + 2 \<le> unat (num_pages (pg (heap k)))"
    and free: "1 \<le> j" "j < 64" "TASK k ! j = None"
  shows "\<exists>p k'. sys_fork k = Inr (p, k')"
proof -
  obtain c where c: "the_task k (current k) = Inr c" "length (TASK k) = 64" using inv sinv_current [of k] by (auto simp: pinv_def)
  obtain i where i: "first_index (\<lambda>i. TASK k ! i = None) 1 64 = Some i" using first_index_None [of "\<lambda>i. TASK k ! i = None" 1 64] free by (cases "first_index (\<lambda>i. TASK k ! i = None) 1 64") auto
  have r: "i < 64" using first_index_Some [OF i] by simp
  have "unat SIZEOF_TASK \<le> 4096" by (simp add: SIZEOF_TASK_def)
  then obtain p h' where "kmalloc SIZEOF_TASK (heap k) = Inr (p, h')" "p \<noteq> 0" using kmalloc_room [OF h(1) _ h(2)] by blast
  then show ?thesis using c i r by (simp add: sys_fork_def find_new_id_def copy_process_def MAX_TASK_def Let_def the_task_def)
qed

text \<open>A call that the kernel serves with a result comes back behind the \<^verbatim>\<open>ecall\<close> with that result and the other registers as they were.\<close>

lemma ecall_returns:
  assumes inv: "mwf m" and c: "TASK (kern m) ! current (kern m) = Some c" and sp: "stack_in (r_sp u) (kern m)"
    and sc: "sys_call w (reg_save (call_regs q u) pc (ctx c)) (call_entry pc (call_regs q u) m c) = Inr (Result v st, m1)"
    and m1: "TASK (kern m1) ! current (kern m) = Some (c\<lparr>ctx := reg_save (call_regs q u) pc (ctx c)\<rparr>)" "length (TASK (kern m1)) = 64"
  defines "r \<equiv> (call_regs q u)\<lparr>r_a0 := v, r_epc := pc + 4, r_temp := r_temp (ctx c)\<rparr>"
  shows "ecall w q pc u m = Some (Inr (Some r, set_mode 0 (m1\<lparr>kern := set_task (current (kern m)) (c\<lparr>ctx := r\<rparr>) (kern m1)\<rparr>)))"
proof -
  let ?cur = "current (kern m)" let ?m = "call_entry pc (call_regs q u) m c" let ?c = "c\<lparr>ctx := reg_save (call_regs q u) pc (ctx c)\<rparr>"
  let ?k2 = "set_task ?cur (?c\<lparr>ctx := (ctx ?c)\<lparr>r_a0 := v\<rparr>\<rparr>) (kern m1)"
  have lt: "?cur < 64" "length (TASK (kern m)) = 64" using inv by (auto simp: mwf_def pinv_def sinv_def table_ok_def)
  have sx: "set_ctx ?cur (\<lambda>c. c\<lparr>r_a0 := v\<rparr>) m1 = Inr (m1\<lparr>kern := ?k2\<rparr>)" using m1 lt by (simp add: set_ctx_Inr)
  have "do_syscall w ?m = Inr (Result v st, m1\<lparr>kern := ?k2\<rparr>)" unfolding do_syscall_def Let_def call_entry_task using sc sx lt by simp
  moreover have "r = (ctx ?c)\<lparr>r_a0 := v, r_epc := pc + 4\<rparr>" unfolding r_def by (simp add: reg_save_def)
  ultimately show ?thesis unfolding ecall_enters [OF inv c sp] using m1 lt by (simp add: set_ctx_def the_task_def set_task_def)
qed

text \<open>The way of \<^verbatim>\<open>fork\<close> through the kernel, once \<^verbatim>\<open>sys_fork\<close> has returned; \<open>q\<close> is any stub with its number.\<close>

lemma ecall_fork:
  assumes inv: "mwf m" and c: "TASK (kern m) ! current (kern m) = Some c" and sp: "stack_in (r_sp u) (kern m)" and q: "fst q = NR_fork"
    and f: "sys_fork (set_task (current (kern m)) (c\<lparr>ctx := reg_save (call_regs q u) pc (ctx c)\<rparr>) (kern m)) = Inr (p, k1)"
  obtains M c' where "ecall w q pc u m = Some (Inr (Some ((call_regs q u)\<lparr>r_a0 := of_int p, r_epc := pc + 4, r_temp := r_temp (ctx c)\<rparr>), M))"
    and "mwf M" and "kern M = set_task (current (kern m)) (c\<lparr>ctx := c'\<rparr>) k1"
proof -
  let ?cur = "current (kern m)" let ?m = "call_entry pc (call_regs q u) m c"
  let ?c = "c\<lparr>ctx := reg_save (call_regs q u) pc (ctx c)\<rparr>" let ?k = "set_task ?cur ?c (kern m)"
  have pv: "pinv (kern m)" using inv by (simp add: mwf_def)
  have lt: "?cur < 64" "length (TASK (kern m)) = 64" using pv by (auto simp: pinv_def sinv_def table_ok_def)
  have km: "kern ?m = ?k" by (simp add: call_entry_def set_mode_def)
  have "sinv ?k" using set_ctx_pinv [OF pv c] by (simp add: pinv_def)
  then obtain i d a h where "TASK ?k ! i = None" "k1 = copy_memory (stack_top ?k i) (pcb_id d) (set_task i (child_task a d (?k\<lparr>NEW_PID := p, NEW_PCBID := i\<rparr>)) (?k\<lparr>NEW_PID := p, NEW_PCBID := i, heap := h\<rparr>))"
    by (rule sys_fork_eq [OF _ f])
  then have k1: "TASK k1 ! ?cur = Some ?c" "length (TASK k1) = 64" using lt by (cases "i = ?cur"; simp)+
  have nr: "r_a7 (ctx ?c) = NR_fork" using q by simp
  have sc: "sys_call w (ctx ?c) ?m = Inr (Result (of_int p) None, ?m\<lparr>kern := k1\<rparr>)"
    unfolding sys_call_def Let_def nr km using f by (simp add: call_numbers)
  have e: "ecall w q pc u m = Some (Inr (Some ((call_regs q u)\<lparr>r_a0 := of_int p, r_epc := pc + 4, r_temp := r_temp (ctx c)\<rparr>),
      set_mode 0 (?m\<lparr>kern := set_task ?cur (c\<lparr>ctx := (call_regs q u)\<lparr>r_a0 := of_int p, r_epc := pc + 4, r_temp := r_temp (ctx c)\<rparr>\<rparr>) k1\<rparr>)))"
    using ecall_returns [OF inv c sp, of w q pc "of_int p" None "?m\<lparr>kern := k1\<rparr>"] sc k1 by simp
  show ?thesis by (rule that [OF e]) (use trap_vector_facts [OF inv e [unfolded ecall_def]] in \<open>auto simp: set_mode_def\<close>)
qed

text \<open>The number that the user's \<open>fork()\<close> passes.\<close>

lemma u_fork_number: "fst u_fork = NR_fork"
  by (simp add: u_fork_def SYS_clone_def NR_fork_def)



end
