(* ===== verification/Switch.thy ===== *)
theory Switch
  imports Userlib Trap
begin

text \<open>
  The assembly of \<^verbatim>\<open>src/kernel/switch.S\<close>: \<^verbatim>\<open>switch_to\<close>, which leaves one task on its kernel stack and goes on with another, and the
  entry and exit of \<^verbatim>\<open>trap_vector\<close>, which move the registers of a program to and from the context of its task. Both are executed
  instruction by instruction over a memory of bytes. The entry is shown to implement \<open>reg_save\<close> of the theory \<open>Trap\<close>, and a task that is
  switched away from and to again is shown to go on with the registers it had.
\<close>

section \<open>Registers and instructions\<close>

datatype rname = RA | SP | GP | TP | T0 | T1 | T2 | S0 | S1 | A0 | A1 | A2 | A3 | A4 | A5 | A6 | A7
  | S2 | S3 | S4 | S5 | S6 | S7 | S8 | S9 | S10 | S11 | T3 | T4 | T5 | T6

record hart =
  regs :: "rname \<Rightarrow> u64"
  sscratch :: u64
  sepc :: u64
  mem :: bmem

datatype instr = Sd rname nat rname | Ld rname nat rname | Mv rname rname | Addi rname rname u64
  | Csrw_sscratch rname | Csrr_sscratch rname | Csrrw_sscratch rname | Csrw_sepc rname | Csrr_sepc rname

definition at :: "hart \<Rightarrow> rname \<Rightarrow> nat \<Rightarrow> nat" where
  "at h b d = unat (regs h b + of_nat d)"

definition set_reg :: "rname \<Rightarrow> u64 \<Rightarrow> hart \<Rightarrow> hart" where
  "set_reg r v h = h\<lparr>regs := (regs h)(r := v)\<rparr>"

fun exec :: "instr \<Rightarrow> hart \<Rightarrow> hart" where
  "exec (Sd r d b) h = h\<lparr>mem := store_word (mem h) (at h b d) (regs h r)\<rparr>"
| "exec (Ld r d b) h = set_reg r (load_word (mem h) (at h b d)) h"
| "exec (Mv r s) h = set_reg r (regs h s) h"
| "exec (Addi r s i) h = set_reg r (regs h s + i) h"
| "exec (Csrw_sscratch r) h = h\<lparr>sscratch := regs h r\<rparr>"
| "exec (Csrr_sscratch r) h = set_reg r (sscratch h) h"
| "exec (Csrrw_sscratch r) h = set_reg r (sscratch h) (h\<lparr>sscratch := regs h r\<rparr>)"
| "exec (Csrw_sepc r) h = h\<lparr>sepc := regs h r\<rparr>"
| "exec (Csrr_sepc r) h = set_reg r (sepc h) h"

text \<open>The macros, as the places they give to the registers.\<close>

definition save_layout :: "(rname \<times> nat) list" where
  "save_layout = [(RA, 0), (SP, 8), (GP, 16), (TP, 24), (T0, 32), (T1, 40), (T2, 48), (S0, 56), (S1, 64), (A0, 72), (A1, 80), (A2, 88), (A3, 96),
     (A4, 104), (A5, 112), (A6, 120), (A7, 128), (S2, 136), (S3, 144), (S4, 152), (S5, 160), (S6, 168), (S7, 176), (S8, 184), (S9, 192), (S10, 200),
     (S11, 208), (T3, 216), (T4, 224), (T5, 232)]"

definition context_layout :: "(rname \<times> nat) list" where
  "context_layout = [(RA, 0), (SP, 8), (S0, 16), (S1, 24), (S2, 32), (S3, 40), (S4, 48), (S5, 56), (S6, 64), (S7, 72), (S8, 80), (S9, 88), (S10, 96),
     (S11, 104)]"

definition stores :: "rname \<Rightarrow> (rname \<times> nat) list \<Rightarrow> instr list" where
  "stores b = map (\<lambda>(r, d). Sd r d b)"

definition loads :: "rname \<Rightarrow> (rname \<times> nat) list \<Rightarrow> instr list" where
  "loads b = map (\<lambda>(r, d). Ld r d b)"

definition reg_restore :: "rname \<Rightarrow> instr list" where
  "reg_restore b = loads b (save_layout @ [(T6, 240)])"

definition context_save :: "rname \<Rightarrow> instr list" where
  "context_save b = stores b context_layout"

definition context_restore :: "rname \<Rightarrow> instr list" where
  "context_restore b = loads b context_layout"

text \<open>The entry of a trap up to the first call, and the way back from \<^verbatim>\<open>set_mode\<close> on.\<close>

definition trap_entry :: "hart \<Rightarrow> hart" where
  "trap_entry = fold exec ([Csrrw_sscratch T6] @ stores T6 save_layout @
     [Mv T5 T6, Csrr_sscratch T6, Sd T6 240 T5, Csrr_sepc T6, Sd T6 248 T5, Csrw_sscratch T5])"

definition ret_from_sys_call :: "hart \<Rightarrow> hart" where
  "ret_from_sys_call = fold exec ([Csrr_sscratch T6, Ld T5 248 T6, Csrw_sepc T5] @ reg_restore T6)"

definition ret_from_exception :: "hart \<Rightarrow> hart" where
  "ret_from_exception = fold exec [Csrr_sscratch T6, Sd A0 248 T6]"

text \<open>How \<^verbatim>\<open>switch_to\<close> ends: \<^verbatim>\<open>ret\<close> to the address in \<open>ra\<close>, or through \<^verbatim>\<open>ret_from_sys_call\<close> to user mode.\<close>

datatype ending = Ret | ToUser

definition leave :: "hart \<Rightarrow> hart" where
  "leave = fold exec ([Addi SP SP (- 104), Sd SP 256 A0, Mv T6 SP] @ context_save T6)"

definition enter :: "hart \<Rightarrow> ending \<times> hart" where
  "enter h =
     (let h = fold exec [Csrw_sscratch A1, Csrr_sscratch T6, Ld T5 256 T6] h
      in if regs h T5 = 0 then (ToUser, h)
         else (Ret, fold exec ([Mv SP T5, Mv T6 SP] @ context_restore T6 @ [Addi SP SP 104]) h))"

definition switch_to :: "hart \<Rightarrow> ending \<times> hart" where
  "switch_to h = enter (if regs h A0 = 0 then h else leave h)"

section \<open>Words in memory\<close>

definition words_apart :: "nat \<Rightarrow> nat \<Rightarrow> bool" where
  "words_apart a b \<longleftrightarrow> a + 8 \<le> b \<or> b + 8 \<le> a"

lemma bytes_le_cong: "(\<And>i. i < n \<Longrightarrow> m (a + i) = m' (a + i)) \<Longrightarrow> bytes_le m a n = bytes_le m' a n"
proof (induction n arbitrary: a)
  case (Suc n)
  have "m a = m' a" using Suc.prems [of 0] by simp
  moreover have "bytes_le m (Suc a) n = bytes_le m' (Suc a) n" using Suc.prems [of "Suc i" for i] by (intro Suc.IH) auto
  ultimately show ?case by simp
qed simp

lemma load_word_cong: "(\<And>i. i < 8 \<Longrightarrow> m (a + i) = m' (a + i)) \<Longrightarrow> load_word m a = load_word m' a"
  by (simp only: load_word_def bytes_le_cong [of 8 m a m'])

lemma store_word_at: "store_word m a x b = (if a \<le> b \<and> b < a + 8 then ucast (drop_bit (8 * (b - a)) x) else m b)"
  by (simp add: store_word_def store_bytes_eq)

lemma load_store_same [simp]: "load_word (store_word m a x) a = x"
proof (rule bit_word_eqI)
  fix n assume "n < LENGTH(64)"
  then have n: "n div 8 < 8" "8 * (n div 8) + n mod 8 = n" "n mod 8 < 8" by auto
  have "bit (load_word (store_word m a x) a) n = bit (ucast (drop_bit (8 * (n div 8)) (load_word (store_word m a x) a)) :: u8) (n mod 8)"
    using n by (simp add: bit_ucast_iff bit_drop_bit_eq)
  also have "\<dots> = bit (ucast (drop_bit (8 * (n div 8)) x) :: u8) (n mod 8)"
    using n by (simp only: load_byte [OF n(1)] store_word_at) simp
  also have "\<dots> = bit x n" using n by (simp add: bit_ucast_iff bit_drop_bit_eq)
  finally show "bit (load_word (store_word m a x) a) n = bit x n" .
qed

lemma load_store_apart: "words_apart a b \<Longrightarrow> load_word (store_word m b x) a = load_word m a"
  by (rule load_word_cong) (auto simp: store_word_at words_apart_def)

section \<open>Saving and loading registers\<close>

lemma at_eq: "unat (regs h b) + d < 2 ^ 64 \<Longrightarrow> at h b d = unat (regs h b) + d"
  unfolding at_def by (subst unat_add_lem [THEN iffD1]) (simp_all add: unat_of_nat)

text \<open>A layout: the words do not overlap and lie within \<open>n\<close> bytes, and each register has one place.\<close>

definition layout :: "nat \<Rightarrow> (rname \<times> nat) list \<Rightarrow> bool" where
  "layout n L \<longleftrightarrow> distinct (map fst L) \<and> sorted_wrt (\<lambda>x y. snd x + 8 \<le> snd y) L \<and> (\<forall>x\<in>set L. snd x + 8 \<le> n)"

lemma layout_Cons [simp]:
  "layout n (x # L) \<longleftrightarrow> layout n L \<and> fst x \<notin> fst ` set L \<and> (\<forall>y\<in>set L. snd x + 8 \<le> snd y) \<and> snd x + 8 \<le> n"
  by (auto simp: layout_def)

definition put :: "nat \<Rightarrow> (rname \<Rightarrow> u64) \<Rightarrow> (rname \<times> nat) list \<Rightarrow> bmem \<Rightarrow> bmem" where
  "put a f = fold (\<lambda>(r, d) m. store_word m (a + d) (f r))"

definition get :: "bmem \<Rightarrow> nat \<Rightarrow> (rname \<times> nat) list \<Rightarrow> (rname \<Rightarrow> u64) \<Rightarrow> rname \<Rightarrow> u64" where
  "get m a = fold (\<lambda>(r, d) f. f(r := load_word m (a + d)))"

lemma put_simps [simp]: "put a f [] m = m" "put a f ((r, d) # L) m = put a f L (store_word m (a + d) (f r))"
  by (simp_all add: put_def)

lemma get_simps [simp]: "get m a [] f = f" "get m a ((r, d) # L) f = get m a L (f(r := load_word m (a + d)))"
  by (simp_all add: get_def)

lemma exec_stores: "layout n L \<Longrightarrow> unat (regs h b) + n \<le> 2 ^ 64 \<Longrightarrow>
    fold exec (stores b L) h = h\<lparr>mem := put (unat (regs h b)) (regs h) L (mem h)\<rparr>"
proof (induction L arbitrary: h)
  case (Cons x L)
  obtain r d where x: "x = (r, d)" by fastforce
  let ?h = "h\<lparr>mem := store_word (mem h) (unat (regs h b) + d) (regs h r)\<rparr>"
  have "exec (Sd r d b) h = ?h" using Cons.prems x at_eq [of h b d] by simp
  then show ?case using Cons.IH [of ?h] Cons.prems x by (simp add: stores_def)
qed (simp add: stores_def)

lemma exec_loads: "layout n L \<Longrightarrow> unat (regs h b) + n \<le> 2 ^ 64 \<Longrightarrow> b \<notin> fst ` set L \<Longrightarrow>
    fold exec (loads b L) h = h\<lparr>regs := get (mem h) (unat (regs h b)) L (regs h)\<rparr>"
proof (induction L arbitrary: h)
  case (Cons x L)
  obtain r d where x: "x = (r, d)" by fastforce
  let ?h = "set_reg r (load_word (mem h) (unat (regs h b) + d)) h"
  have "exec (Ld r d b) h = ?h" using Cons.prems x at_eq [of h b d] by simp
  moreover have "unat (regs ?h b) + n \<le> 2 ^ 64" "regs ?h b = regs h b" using Cons.prems x by (auto simp: set_reg_def)
  ultimately show ?case using Cons.IH [of ?h] Cons.prems x by (simp add: loads_def set_reg_def fun_upd_def)
qed (simp add: loads_def)

lemma put_other: "layout n L \<Longrightarrow> b < a \<or> a + n \<le> b \<Longrightarrow> put a f L m b = m b"
proof (induction L arbitrary: m)
  case (Cons x L)
  then show ?case by (cases x) (auto simp: store_word_at)
qed simp

lemma load_put_other: "(\<forall>x\<in>set L. words_apart c (a + snd x)) \<Longrightarrow> load_word (put a f L m) c = load_word m c"
proof (induction L arbitrary: m)
  case (Cons x L)
  then show ?case by (cases x) (auto simp: load_store_apart)
qed simp

lemma load_put: "layout n L \<Longrightarrow> (r, d) \<in> set L \<Longrightarrow> load_word (put a f L m) (a + d) = f r"
proof (induction L arbitrary: m)
  case (Cons x L)
  show ?case
  proof (cases "x = (r, d)")
    case True
    have "\<forall>y\<in>set L. words_apart (a + d) (a + snd y)" using Cons.prems True by (auto simp: words_apart_def)
    then show ?thesis using True by (simp add: load_put_other)
  next
    case False
    then show ?thesis using Cons by (cases x) auto
  qed
qed simp

lemma get_eq: "layout n L \<Longrightarrow> get m a L f r = (case map_of L r of None \<Rightarrow> f r | Some d \<Rightarrow> load_word m (a + d))"
proof (induction L arbitrary: f)
  case (Cons x L)
  then show ?case by (cases x) (auto split: option.splits dest!: map_of_SomeD simp: image_iff)
qed simp

text \<open>Loading what was stored gives back the registers of the layout and keeps the others.\<close>

lemma get_put: "layout n L \<Longrightarrow> r \<in> fst ` set L \<Longrightarrow> get (put a f L m) a L g r = f r"
  by (auto simp: get_eq load_put dest: map_of_SomeD map_of_eq_None_iff [THEN iffD1] split: option.splits)

lemma get_cong: "layout n L \<Longrightarrow> (\<And>b. a \<le> b \<Longrightarrow> b < a + n \<Longrightarrow> m b = m' b) \<Longrightarrow> get m a L f = get m' a L f"
proof (induction L arbitrary: f)
  case (Cons x L)
  obtain r d where x: "x = (r, d)" by fastforce
  have "load_word m (a + d) = load_word m' (a + d)" using Cons.prems x by (intro load_word_cong) auto
  then show ?case using Cons x by simp
qed simp

lemma layouts: "layout 112 context_layout" "layout 240 save_layout"
  by (simp_all add: context_layout_def save_layout_def layout_def)

section \<open>Trap entry and exit\<close>

text \<open>\<^verbatim>\<open>struct reg\<close> in memory: the thirty-one registers, the program counter and the word \<^verbatim>\<open>temp\<close>.\<close>

definition place :: "rname \<Rightarrow> nat" where
  "place r = (case map_of (save_layout @ [(T6, 240)]) r of Some d \<Rightarrow> d | None \<Rightarrow> 0)"

definition ctx_of :: "(rname \<Rightarrow> u64) \<Rightarrow> u64 \<Rightarrow> u64 \<Rightarrow> reg" where
  "ctx_of f pc t = \<lparr>r_ra = f RA, r_sp = f SP, r_gp = f GP, r_tp = f TP, r_t0 = f T0, r_t1 = f T1, r_t2 = f T2, r_s0 = f S0, r_s1 = f S1,
     r_a0 = f A0, r_a1 = f A1, r_a2 = f A2, r_a3 = f A3, r_a4 = f A4, r_a5 = f A5, r_a6 = f A6, r_a7 = f A7,
     r_s2 = f S2, r_s3 = f S3, r_s4 = f S4, r_s5 = f S5, r_s6 = f S6, r_s7 = f S7, r_s8 = f S8, r_s9 = f S9, r_s10 = f S10, r_s11 = f S11,
     r_t3 = f T3, r_t4 = f T4, r_t5 = f T5, r_t6 = f T6, r_epc = pc, r_temp = t\<rparr>"

definition context_at :: "bmem \<Rightarrow> nat \<Rightarrow> reg" where
  "context_at m a = ctx_of (\<lambda>r. load_word m (a + place r)) (load_word m (a + 248)) (load_word m (a + 256))"

lemma place_cases: "r \<noteq> T6 \<Longrightarrow> (r, place r) \<in> set save_layout" "place T6 = 240" "map_of save_layout T6 = None"
  "map_of save_layout r = (if r = T6 then None else Some (place r))"
  by (cases r; simp add: place_def save_layout_def)+

lemma set_reg_simps [simp]: "regs (set_reg r v h) = (regs h)(r := v)" "mem (set_reg r v h) = mem h" "sscratch (set_reg r v h) = sscratch h"
  "sepc (set_reg r v h) = sepc h"
  by (simp_all add: set_reg_def)

lemma trap_entry_eq:
  assumes b: "unat (sscratch h) + 264 \<le> 2 ^ 64"
  shows "trap_entry h = (let a = unat (sscratch h) in h\<lparr>regs := (regs h)(T5 := sscratch h, T6 := sepc h),
    mem := store_word (store_word (put a ((regs h)(T6 := sscratch h)) save_layout (mem h)) (a + 240) (regs h T6)) (a + 248) (sepc h)\<rparr>)"
proof -
  let ?h = "set_reg T6 (sscratch h) (h\<lparr>sscratch := regs h T6\<rparr>)"
  have s: "fold exec (stores T6 save_layout) ?h = ?h\<lparr>mem := put (unat (regs ?h T6)) (regs ?h) save_layout (mem ?h)\<rparr>"
    using b by (intro exec_stores [OF layouts(2)]) simp
  have "at g T5 d = unat (sscratch h) + d" if "regs g T5 = sscratch h" "d < 264" for g d using at_eq [of g T5 d] b that by simp
  note c = this [of _ 240, simplified] this [of _ 248, simplified]
  show ?thesis unfolding trap_entry_def fold_append comp_apply by (simp add: s) (simp add: c set_reg_def fun_upd_twist Let_def)
qed

lemma ret_from_sys_call_eq:
  assumes b: "unat (sscratch h) + 264 \<le> 2 ^ 64"
  shows "ret_from_sys_call h = h\<lparr>regs := \<lambda>r. load_word (mem h) (unat (sscratch h) + place r), sepc := load_word (mem h) (unat (sscratch h) + 248)\<rparr>"
proof -
  let ?a = "unat (sscratch h)"
  let ?h = "h\<lparr>regs := (regs h)(T6 := sscratch h, T5 := load_word (mem h) (?a + 248)), sepc := load_word (mem h) (?a + 248)\<rparr>"
  have t: "at g T6 d = ?a + d" if "regs g T6 = sscratch h" "d < 264" for g d using at_eq [of g T6 d] b that by simp
  have i: "fold exec [Csrr_sscratch T6, Ld T5 248 T6, Csrw_sepc T5] h = ?h" using t [of "set_reg T6 (sscratch h) h" 248] by (simp add: set_reg_def)
  have l: "fold exec (loads T6 save_layout) ?h = ?h\<lparr>regs := get (mem ?h) (unat (regs ?h T6)) save_layout (regs ?h)\<rparr>"
    using b by (intro exec_loads [OF layouts(2)]) (simp_all add: save_layout_def)
  let ?g = "?h\<lparr>regs := get (mem h) ?a save_layout (regs ?h)\<rparr>"
  have "regs ?g T6 = sscratch h" by (simp add: get_eq [OF layouts(2)] place_cases)
  then have "at ?g T6 240 = ?a + 240" using t by simp
  moreover have "(get (mem h) ?a save_layout (regs ?h))(T6 := load_word (mem h) (?a + 240)) = (\<lambda>r. load_word (mem h) (?a + place r))"
    by (rule ext) (simp add: get_eq [OF layouts(2)] place_cases)
  ultimately show ?thesis unfolding ret_from_sys_call_def reg_restore_def fold_append comp_apply i using l by (simp add: loads_def set_reg_def)
qed

text \<open>The words of a context after the entry wrote it.\<close>

lemma place_bound: "place r + 8 \<le> 248" "r \<noteq> T6 \<Longrightarrow> place r + 8 \<le> 240"
  by (cases r; simp add: place_def save_layout_def)+

lemma entry_words:
  fixes a f m x y
  defines "m' \<equiv> store_word (store_word (put a f save_layout m) (a + 240) x) (a + 248) y"
  shows "load_word m' (a + place r) = (if r = T6 then x else f r)" "load_word m' (a + 248) = y" "load_word m' (a + 256) = load_word m (a + 256)"
    "b < a \<or> a + 256 \<le> b \<Longrightarrow> m' b = m b"
proof -
  have "words_apart (a + place r) (a + 248)" using place_bound(1) [of r] by (simp add: words_apart_def)
  then have "load_word m' (a + place r) = load_word (store_word (put a f save_layout m) (a + 240) x) (a + place r)"
    unfolding m'_def by (rule load_store_apart)
  moreover have "words_apart (a + place r) (a + 240)" if "r \<noteq> T6" using place_bound(2) [OF that] by (simp add: words_apart_def)
  ultimately show "load_word m' (a + place r) = (if r = T6 then x else f r)"
    using load_put [OF layouts(2) place_cases(1), of r a f m] by (auto simp: place_cases(2) load_store_apart)
  show "load_word m' (a + 248) = y" unfolding m'_def by simp
  have o: "m' b = m b" if "b < a \<or> a + 256 \<le> b" for b
    using that put_other [OF layouts(2), of b a f m] unfolding m'_def by (auto simp: store_word_at)
  then show "b < a \<or> a + 256 \<le> b \<Longrightarrow> m' b = m b" .
  show "load_word m' (a + 256) = load_word m (a + 256)" by (rule load_word_cong) (simp add: o)
qed

lemma ret_from_exception_eq:
  assumes b: "unat (sscratch h) + 264 \<le> 2 ^ 64"
  shows "ret_from_exception h = h\<lparr>regs := (regs h)(T6 := sscratch h), mem := store_word (mem h) (unat (sscratch h) + 248) (regs h A0)\<rparr>"
proof -
  let ?h = "set_reg T6 (sscratch h) h"
  have "at ?h T6 248 = unat (sscratch h) + 248" using at_eq [of ?h T6 248] b by simp
  then show ?thesis by (simp add: ret_from_exception_def set_reg_def)
qed

text \<open>The assembly around \<^verbatim>\<open>trap_handler\<close>, for the context whose address is in \<^verbatim>\<open>sscratch\<close>.\<close>

lemma trap_frame_facts:
  assumes a: "a = unat (sscratch h)" and room: "a + 264 \<le> 2 ^ 64"
  shows "context_at (mem (trap_entry h)) a = reg_save (ctx_of (regs h) pc t) (sepc h) (context_at (mem h) a) \<and>
    sscratch (trap_entry h) = sscratch h \<and> (\<forall>b. b < a \<or> a + 256 \<le> b \<longrightarrow> mem (trap_entry h) b = mem h b) \<and>
    (\<forall>r. r \<noteq> T5 \<longrightarrow> r \<noteq> T6 \<longrightarrow> regs (trap_entry h) r = regs h r) \<and>
    context_at (mem (ret_from_exception h)) a = (context_at (mem h) a)\<lparr>r_epc := regs h A0\<rparr> \<and>
    ctx_of (regs (ret_from_sys_call h)) (sepc (ret_from_sys_call h)) (r_temp (context_at (mem h) a)) = context_at (mem h) a"
proof -
  note eqs = trap_entry_eq [OF room [unfolded a], folded a] ret_from_sys_call_eq [OF room [unfolded a], folded a]
    ret_from_exception_eq [OF room [unfolded a], folded a]
  note w = entry_words [where a = a and f = "(regs h)(T6 := sscratch h)" and m = "mem h" and x = "regs h T6" and y = "sepc h"]
  have f: "(\<lambda>r. if r = T6 then regs h T6 else ((regs h)(T6 := sscratch h)) r) = regs h" by auto
  have "words_apart (a + place r) (a + 248)" for r using place_bound(1) [of r] by (simp add: words_apart_def)
  moreover have "words_apart (a + 256) (a + 248)" by (simp add: words_apart_def)
  ultimately have x: "context_at (mem (ret_from_exception h)) a = (context_at (mem h) a)\<lparr>r_epc := regs h A0\<rparr>"
    by (simp add: eqs context_at_def load_store_apart ctx_of_def)
  have "mem (trap_entry h) = store_word (store_word (put a ((regs h)(T6 := sscratch h)) save_layout (mem h)) (a + 240) (regs h T6)) (a + 248) (sepc h)"
    by (simp add: eqs Let_def del: fun_upd_apply)
  then have "context_at (mem (trap_entry h)) a = ctx_of (regs h) (sepc h) (load_word (mem h) (a + 256))"
    unfolding context_at_def by (simp only: w(1-3) f)
  then have "context_at (mem (trap_entry h)) a = reg_save (ctx_of (regs h) pc t) (sepc h) (context_at (mem h) a)"
    by (simp add: reg_save_def ctx_of_def context_at_def)
  moreover have "ctx_of (regs (ret_from_sys_call h)) (sepc (ret_from_sys_call h)) (r_temp (context_at (mem h) a)) = context_at (mem h) a"
    by (simp add: eqs context_at_def ctx_of_def)
  moreover have "\<forall>b. b < a \<or> a + 256 \<le> b \<longrightarrow> mem (trap_entry h) b = mem h b" using w(4) by (simp add: eqs Let_def)
  ultimately show ?thesis using x by (simp add: eqs Let_def)
qed

section \<open>Switching\<close>

text \<open>
  What \<^verbatim>\<open>switch_to\<close> writes when it leaves a task: the word \<^verbatim>\<open>temp\<close> of its context and the fourteen registers below its stack pointer. The
  frame has room for thirteen, so the last word lies above the new stack space, where the caller keeps its own data.
\<close>

definition frame :: "hart \<Rightarrow> nat set" where
  "frame h = {unat (regs h SP) - 104 ..< unat (regs h SP) + 8}"

definition temp_word :: "hart \<Rightarrow> nat set" where
  "temp_word h = {unat (regs h A0) + 256 ..< unat (regs h A0) + 264}"

definition saved :: "hart \<Rightarrow> nat set" where
  "saved h = frame h \<union> temp_word h"

text \<open>There is a stack and a context, and they do not overlap.\<close>

definition stacked :: "hart \<Rightarrow> bool" where
  "stacked h \<longleftrightarrow> 104 < unat (regs h SP) \<and> unat (regs h SP) + 8 \<le> 2 ^ 64 \<and> regs h A0 \<noteq> 0 \<and> unat (regs h A0) + 264 \<le> 2 ^ 64 \<and>
     (unat (regs h A0) + 264 + 104 \<le> unat (regs h SP) \<or> unat (regs h SP) + 8 \<le> unat (regs h A0) + 256)"

lemma leave_eq:
  assumes s: "stacked h"
  shows "leave h = h\<lparr>regs := (regs h)(SP := regs h SP - 104, T6 := regs h SP - 104),
    mem := put (unat (regs h SP) - 104) ((regs h)(SP := regs h SP - 104, T6 := regs h SP - 104)) context_layout
      (store_word (mem h) (unat (regs h A0) + 256) (regs h SP - 104))\<rparr>"
proof -
  let ?sp = "regs h SP - 104"
  have u: "unat ?sp = unat (regs h SP) - 104" using s by (subst unat_sub) (auto simp: stacked_def word_le_nat_alt)
  let ?g = "set_reg SP ?sp h"
  have "at ?g A0 256 = unat (regs h A0) + 256" using at_eq [of ?g A0 256] s by (simp add: stacked_def)
  then have g: "fold exec [Addi SP SP (- 104), Sd SP 256 A0, Mv T6 SP] h =
      h\<lparr>regs := (regs h)(SP := ?sp, T6 := ?sp), mem := store_word (mem h) (unat (regs h A0) + 256) ?sp\<rparr>" (is "_ = ?h")
    by (simp add: set_reg_def)
  have "fold exec (stores T6 context_layout) ?h = ?h\<lparr>mem := put (unat (regs ?h T6)) (regs ?h) context_layout (mem ?h)\<rparr>"
    using s u by (intro exec_stores [OF layouts(1)]) (simp add: stacked_def)
  then show ?thesis unfolding leave_def context_save_def fold_append comp_apply g using u by simp
qed

text \<open>What a task leaves behind.\<close>

lemma leave_saves:
  assumes s: "stacked h"
  shows "b \<notin> saved h \<Longrightarrow> mem (leave h) b = mem h b"
    "load_word (mem (leave h)) (unat (regs h A0) + 256) = regs h SP - 104"
    "(r, d) \<in> set context_layout \<Longrightarrow> load_word (mem (leave h)) (unat (regs h SP) - 104 + d) = (if r = SP then regs h SP - 104 else regs h r)"
proof -
  let ?p = "unat (regs h SP) - 104" and ?c = "unat (regs h A0) + 256"
  show "b \<notin> saved h \<Longrightarrow> mem (leave h) b = mem h b"
    using put_other [OF layouts(1), of b ?p] s by (auto simp: leave_eq [OF s] saved_def frame_def temp_word_def stacked_def store_word_at)
  have "\<forall>x\<in>set context_layout. words_apart ?c (?p + snd x)" using s by (auto simp: stacked_def words_apart_def context_layout_def)
  then show "load_word (mem (leave h)) ?c = regs h SP - 104" by (simp add: leave_eq [OF s] load_put_other del: fun_upd_apply)
  assume a: "(r, d) \<in> set context_layout"
  then have "r \<noteq> T6" by (auto simp: context_layout_def)
  then show "load_word (mem (leave h)) (?p + d) = (if r = SP then regs h SP - 104 else regs h r)"
    by (simp add: leave_eq [OF s] load_put [OF layouts(1) a])
qed

lemma enter_eq:
  assumes b: "unat (regs h A1) + 264 \<le> 2 ^ 64"
  defines "p \<equiv> load_word (mem h) (unat (regs h A1) + 256)"
  shows "p = 0 \<Longrightarrow> enter h = (ToUser, h\<lparr>regs := (regs h)(T6 := regs h A1, T5 := 0), sscratch := regs h A1\<rparr>)"
    "p \<noteq> 0 \<Longrightarrow> unat p + 112 \<le> 2 ^ 64 \<Longrightarrow> \<exists>f. enter h = (Ret, h\<lparr>regs := f, sscratch := regs h A1\<rparr>) \<and>
       (\<forall>(r, d)\<in>set context_layout. f r = load_word (mem h) (unat p + d) + (if r = SP then 104 else 0))"
proof -
  let ?g = "set_reg T6 (regs h A1) (h\<lparr>sscratch := regs h A1\<rparr>)"
  have "at ?g T6 256 = unat (regs h A1) + 256" using at_eq [of ?g T6 256] b by simp
  then have g: "fold exec [Csrw_sscratch A1, Csrr_sscratch T6, Ld T5 256 T6] h =
      h\<lparr>regs := (regs h)(T6 := regs h A1, T5 := p), sscratch := regs h A1\<rparr>" (is "_ = ?h")
    by (simp add: set_reg_def p_def)
  show "p = 0 \<Longrightarrow> enter h = (ToUser, h\<lparr>regs := (regs h)(T6 := regs h A1, T5 := 0), sscratch := regs h A1\<rparr>)"
    unfolding enter_def g by simp
  assume p: "p \<noteq> 0" "unat p + 112 \<le> 2 ^ 64"
  let ?k = "set_reg T6 p (set_reg SP p ?h)"
  have k: "fold exec [Mv SP T5, Mv T6 SP] ?h = ?k" by (simp add: set_reg_def)
  have c: "fold exec (loads T6 context_layout) ?k = ?k\<lparr>regs := get (mem ?k) (unat (regs ?k T6)) context_layout (regs ?k)\<rparr>"
    using p(2) by (intro exec_loads [OF layouts(1)]) (simp_all add: context_layout_def)
  let ?f = "get (mem h) (unat p) context_layout (regs ?k)"
  have "enter h = (Ret, h\<lparr>regs := ?f(SP := ?f SP + 104), sscratch := regs h A1\<rparr>)"
    unfolding enter_def g Let_def context_restore_def fold_append comp_apply k c using p(1) by (simp add: set_reg_def)
  moreover have "distinct (map fst context_layout)" using layouts(1) by (simp add: layout_def)
  then have "(r, d) \<in> set context_layout \<Longrightarrow> ?f r = load_word (mem h) (unat p + d)" for r d
    by (simp add: get_eq [OF layouts(1)])
  ultimately show "\<exists>f. enter h = (Ret, h\<lparr>regs := f, sscratch := regs h A1\<rparr>) \<and>
       (\<forall>(r, d)\<in>set context_layout. f r = load_word (mem h) (unat p + d) + (if r = SP then 104 else 0))"
    by (intro exI [of _ "?f(SP := ?f SP + 104)"]) auto
qed

lemma loads_mem [simp]: "mem (fold exec (loads b L) h) = mem h"
  by (induction L arbitrary: h) (auto simp: loads_def)

lemma enter_mem [simp]: "mem (snd (enter h)) = mem h"
  by (simp add: enter_def Let_def context_restore_def)

text \<open>A hart with a stack, the contexts of two tasks in \<open>a0\<close> and \<open>a1\<close>, and small numbers in the other registers.\<close>

definition demo_hart :: "u64 \<Rightarrow> u64 \<Rightarrow> u64 \<Rightarrow> hart" where
  "demo_hart sp prev succ = \<lparr>regs = (\<lambda>_. 11)(RA := 0x80200400, SP := sp, A0 := prev, A1 := succ), sscratch = prev, sepc = 0x80201000, mem = (\<lambda>_. 0)\<rparr>"

text \<open>
  C5. A task that \<^verbatim>\<open>switch_to\<close> leaves is later resumed where it was. When nobody has written to the words that the switch saved, and the task that is
  left for it saves its own registers elsewhere, the next switch to it comes back to the address it was called from, with the stack pointer and the registers \<open>s0\<close> to \<open>s11\<close>
  as they were, whatever happened in between. Nothing but the word \<^verbatim>\<open>temp\<close> and the frame is written; but the frame is one word too short:
  the word at the stack pointer of the caller is replaced by \<open>s11\<close>.
\<close>

theorem switch_resumes:
  assumes s: "stacked h" and h1: "switch_to h = (e, h1)" and kept: "\<forall>b\<in>saved h. mem h2 b = mem h1 b" and again: "regs h2 A1 = regs h A0"
    and other: "regs h2 A0 = 0 \<or> stacked h2 \<and> saved h2 \<inter> saved h = {}"
  shows "(\<exists>h3. switch_to h2 = (Ret, h3) \<and> (\<forall>r\<in>{RA, SP, S0, S1, S2, S3, S4, S5, S6, S7, S8, S9, S10, S11}. regs h3 r = regs h r) \<and> sscratch h3 = regs h A0) \<and>
    (\<forall>b. b \<notin> saved h \<longrightarrow> mem h1 b = mem h b) \<and> load_word (mem h1) (unat (regs h SP)) = regs h S11"
proof -
  let ?p = "unat (regs h SP) - 104" and ?c = "unat (regs h A0)"
  have m1: "mem h1 = mem (leave h)" using h1 s enter_mem [of "leave h"] by (simp add: switch_to_def stacked_def del: enter_mem)
  define g where "g = (if regs h2 A0 = 0 then h2 else leave h2)"
  have g: "regs g A1 = regs h A0" using again other by (auto simp: g_def leave_eq)
  have keep: "mem g b = mem (leave h) b" if "b \<in> saved h" for b
    using that kept m1 other leave_saves(1) [of h2 b] by (auto simp: g_def)
  have u: "unat (regs h SP - 104) = ?p" using s by (subst unat_sub) (auto simp: stacked_def word_le_nat_alt)
  have t: "load_word (mem g) (?c + 256) = regs h SP - 104"
    unfolding leave_saves(2) [OF s, symmetric] by (rule load_word_cong, rule keep) (auto simp: saved_def temp_word_def)
  have f: "load_word (mem g) (?p + d) = load_word (mem (leave h)) (?p + d)" if "(r, d) \<in> set context_layout" for r d
    using that s by (intro load_word_cong keep) (auto simp: saved_def frame_def context_layout_def stacked_def)
  have nz: "regs h SP - 104 \<noteq> 0" using u s by (metis stacked_def unat_0 zero_less_diff less_irrefl)
  have "unat (regs g A1) + 264 \<le> 2 ^ 64" "unat (regs h SP - 104) + 112 \<le> 2 ^ 64" using g u s by (auto simp: stacked_def)
  then obtain k where k: "enter g = (Ret, g\<lparr>regs := k, sscratch := regs h A0\<rparr>)"
    "\<forall>(r, d)\<in>set context_layout. k r = load_word (mem g) (?p + d) + (if r = SP then 104 else 0)"
    using enter_eq(2) [of g] nz by (auto simp: g t u)
  have kr: "k r = regs h r" if "(r, d) \<in> set context_layout" for r d
    using k(2) that f [OF that] leave_saves(3) [OF s that] by (cases "r = SP") auto
  have "regs h S11 = load_word (mem h1) (?p + 104)" using leave_saves(3) [OF s, of S11 104] m1 by (simp add: context_layout_def)
  then have "load_word (mem h1) (unat (regs h SP)) = regs h S11" using s by (simp add: stacked_def)
  moreover have "\<forall>r\<in>{RA, SP, S0, S1, S2, S3, S4, S5, S6, S7, S8, S9, S10, S11}. k r = regs h r"
    using kr by (auto simp: context_layout_def)
  moreover have "switch_to h2 = (Ret, g\<lparr>regs := k, sscratch := regs h A0\<rparr>)" using k(1) by (simp add: switch_to_def g_def)
  ultimately show ?thesis using leave_saves(1) [OF s] m1 by auto
qed

theorem switch_resumes_witness:
  "\<exists>e h1 h3. switch_to (demo_hart 0x80010000 0x80001000 0x80002000) = (e, h1) \<and>
    switch_to (h1\<lparr>regs := (regs h1)(A0 := 0, A1 := 0x80001000)\<rparr>) = (Ret, h3) \<and> regs h3 RA = 0x80200400 \<and> regs h3 SP = 0x80010000 \<and> regs h3 S11 = 11 \<and>
    load_word (mem h1) 0x80010000 = 11"
proof -
  let ?h = "demo_hart 0x80010000 0x80001000 0x80002000"
  obtain e h1 where h1: "switch_to ?h = (e, h1)" by fastforce
  let ?h2 = "h1\<lparr>regs := (regs h1)(A0 := 0, A1 := 0x80001000)\<rparr>"
  have s: "stacked ?h" by (simp add: stacked_def demo_hart_def)
  show ?thesis using switch_resumes [OF s h1, of ?h2] h1 by (auto simp: demo_hart_def)
qed

text \<open>A task that never ran has the word \<^verbatim>\<open>temp\<close> zero: switching to it goes to user mode with the registers and the program counter of its context.\<close>

lemma switch_starts:
  assumes s: "regs h A0 = 0 \<or> stacked h \<and> saved h \<inter> {unat (regs h A1) ..< unat (regs h A1) + 264} = {}"
    and b: "unat (regs h A1) + 264 \<le> 2 ^ 64" and t: "r_temp (context_at (mem h) (unat (regs h A1))) = 0"
  shows "\<exists>g. switch_to h = (ToUser, g) \<and>
    ctx_of (regs (ret_from_sys_call g)) (sepc (ret_from_sys_call g)) 0 = context_at (mem h) (unat (regs h A1))"
proof -
  let ?a = "unat (regs h A1)"
  define g where "g = (if regs h A0 = 0 then h else leave h)"
  have g: "regs g A1 = regs h A1" using s by (auto simp: g_def leave_eq)
  have m: "mem g b = mem h b" if "?a \<le> b" "b < ?a + 264" for b
    using that s leave_saves(1) [of h b] by (auto simp: g_def disjoint_iff)
  have w: "load_word (mem g) (?a + d) = load_word (mem h) (?a + d)" if "d \<le> 256" for d
    using that by (intro load_word_cong m) auto
  have c: "load_word (mem g) (?a + place r) = load_word (mem h) (?a + place r)" for r using place_bound(1) [of r] by (intro w) simp
  have z: "load_word (mem h) (?a + 256) = 0" using t by (simp add: context_at_def ctx_of_def)
  have e: "switch_to h = (ToUser, g\<lparr>regs := (regs g)(T6 := regs g A1, T5 := 0), sscratch := regs g A1\<rparr>)"
    unfolding switch_to_def g_def [symmetric] using enter_eq(1) [of g] b by (simp add: g w z)
  show ?thesis unfolding e using ret_from_sys_call_eq b by (simp add: g context_at_def c w z)
qed

section \<open>Whose registers\<close>

text \<open>
  A hart together with the address of the context of the task that is current. \<^verbatim>\<open>Init_sched\<close> stores the address of the first context in \<^verbatim>\<open>sscratch\<close>;
  after that only the assembly writes to that register: programs and the C code of the kernel (\<open>runs\<close>) do not.
\<close>

inductive fstep :: "hart \<times> u64 \<Rightarrow> hart \<times> u64 \<Rightarrow> bool" where
  enters: "fstep (h, c) (trap_entry h, c)"
| returns: "fstep (h, c) (ret_from_sys_call (ret_from_exception h), c)"
| begins: "fstep (h, c) (ret_from_sys_call h, c)"
| switches: "regs h A1 = n \<Longrightarrow> fstep (h, c) (snd (switch_to h), n)"
| runs: "sscratch h' = sscratch h \<Longrightarrow> fstep (h, c) (h', c)"

inductive_cases fstepE: "fstep (h, c) (h', c')"

definition first_frame :: "hart \<times> u64 \<Rightarrow> bool" where "first_frame = (\<lambda>(h, c). sscratch h = c)"

lemma stores_regs [simp]: "regs (fold exec (stores b L) h) = regs h" "sscratch (fold exec (stores b L) h) = sscratch h" "sepc (fold exec (stores b L) h) = sepc h"
  by (induction L arbitrary: h) (auto simp: stores_def)

lemma loads_csr [simp]: "sscratch (fold exec (loads b L) h) = sscratch h"
  by (induction L arbitrary: h) (auto simp: loads_def)

lemma sscratch_steps [simp]:
  "sscratch (trap_entry h) = sscratch h" "sscratch (ret_from_sys_call h) = sscratch h" "sscratch (ret_from_exception h) = sscratch h"
  by (simp_all add: trap_entry_def ret_from_sys_call_def ret_from_exception_def reg_restore_def)

lemma sscratch_switch: "sscratch (snd (switch_to h)) = regs h A1"
proof -
  have "sscratch (snd (enter g)) = regs g A1" for g by (simp add: enter_def Let_def context_restore_def)
  moreover have "regs (leave h) A1 = regs h A1" by (simp add: leave_def context_save_def)
  ultimately show ?thesis by (simp add: switch_to_def)
qed

interpretation frames: invariant_system first_frame fstep "\<lambda>(h, c). sscratch h = c"
proof unfold_locales
  fix s t assume a: "case s of (h, c) \<Rightarrow> sscratch h = c" "fstep s t"
  then obtain h c h' c' where s: "s = (h, c)" "t = (h', c')" "sscratch h = c" "fstep (h, c) (h', c')" by (cases s, cases t) auto
  from s(4) have "sscratch h' = c'" by (rule fstepE) (use s(3) in \<open>auto simp: sscratch_switch\<close>)
  then show "case t of (h, c) \<Rightarrow> sscratch h = c" using s(2) by simp
qed (simp add: first_frame_def)



end
