(* ===== verification/Start.thy ===== *)
theory Start
  imports Usercall Switch
begin

text \<open>
  From the end of the initialisation to the first process: the calls into the firmware (\<^verbatim>\<open>src/include/sbi.h\<close>), the rest of \<^verbatim>\<open>kernel_start\<close>
  with \<^verbatim>\<open>move_to_user_mode\<close> (\<^verbatim>\<open>src/include/asm/riscv64.h\<close>), the system call stubs of the programs that are linked with the kernel
  (\<^verbatim>\<open>src/include/asm/system.h\<close>, \<^verbatim>\<open>src/kernel/system_call.c\<close>), and the first call of \<^verbatim>\<open>fork\<close>.
\<close>

section \<open>The firmware\<close>

text \<open>A call as the registers hold it, and the answer in \<open>a0\<close> and \<open>a1\<close>; the firmware is a parameter that answers from the calls made so far.\<close>

record sbi_call =
  ext_id :: u64
  func_id :: u64
  sbi_args :: "u64 list"

record sbiret =
  sbi_error :: i64
  sbi_value :: i64

type_synonym firmware = "sbi_call list \<Rightarrow> u64 \<times> u64"

definition LEGACY_SET_TIMER :: u64 where "LEGACY_SET_TIMER = 0"
definition TIMER_EXT :: u64 where "TIMER_EXT = 0x54494D45"
definition SBI_SEND_IPI :: u64 where "SBI_SEND_IPI = 0x735049"
definition FREQUNCE :: u64 where "FREQUNCE = 1000 * 1000 * 1000"
definition CLOCK_PIECE :: u64 where "CLOCK_PIECE = FREQUNCE div 1000"

definition SBI_CALL :: "firmware \<Rightarrow> u64 \<Rightarrow> u64 \<Rightarrow> u64 \<Rightarrow> u64 \<Rightarrow> u64 \<Rightarrow> u64 \<Rightarrow> sbi_call list \<Rightarrow> sbiret \<times> sbi_call list" where
  "SBI_CALL fw ext funct arg0 arg1 arg2 arg3 l =
     (let l = l @ [\<lparr>ext_id = ext, func_id = funct, sbi_args = [arg0, arg1, arg2, arg3]\<rparr>]; (a0, a1) = fw l
      in (\<lparr>sbi_error = a0, sbi_value = a1\<rparr>, l))"

definition SBI_CALL_0 :: "firmware \<Rightarrow> u64 \<Rightarrow> u64 \<Rightarrow> sbi_call list \<Rightarrow> sbiret \<times> sbi_call list" where
  "SBI_CALL_0 fw ext funct = SBI_CALL fw ext funct 0 0 0 0"

definition SBI_CALL_1 :: "firmware \<Rightarrow> u64 \<Rightarrow> u64 \<Rightarrow> u64 \<Rightarrow> sbi_call list \<Rightarrow> sbiret \<times> sbi_call list" where
  "SBI_CALL_1 fw ext funct arg0 = SBI_CALL fw ext funct arg0 0 0 0"

definition SBI_CALL_2 :: "firmware \<Rightarrow> u64 \<Rightarrow> u64 \<Rightarrow> u64 \<Rightarrow> u64 \<Rightarrow> sbi_call list \<Rightarrow> sbiret \<times> sbi_call list" where
  "SBI_CALL_2 fw ext funct arg0 arg1 = SBI_CALL fw ext funct arg0 arg1 0 0"

definition SBI_CALL_3 :: "firmware \<Rightarrow> u64 \<Rightarrow> u64 \<Rightarrow> u64 \<Rightarrow> u64 \<Rightarrow> u64 \<Rightarrow> sbi_call list \<Rightarrow> sbiret \<times> sbi_call list" where
  "SBI_CALL_3 fw ext funct arg0 arg1 arg2 = SBI_CALL fw ext funct arg0 arg1 arg2 0"

definition SBI_CALL_4 :: "firmware \<Rightarrow> u64 \<Rightarrow> u64 \<Rightarrow> u64 \<Rightarrow> u64 \<Rightarrow> u64 \<Rightarrow> u64 \<Rightarrow> sbi_call list \<Rightarrow> sbiret \<times> sbi_call list" where
  "SBI_CALL_4 fw ext funct arg0 arg1 arg2 arg3 = SBI_CALL fw ext funct arg0 arg1 arg2 arg3"

definition sbi_set_timer :: "firmware \<Rightarrow> u64 \<Rightarrow> sbi_call list \<Rightarrow> sbiret \<times> sbi_call list" where
  "sbi_set_timer fw stime_value = SBI_CALL_1 fw TIMER_EXT 0 stime_value"

definition sbi_legacy_set_timer :: "firmware \<Rightarrow> u64 \<Rightarrow> sbi_call list \<Rightarrow> sbiret \<times> sbi_call list" where
  "sbi_legacy_set_timer fw stime_value = SBI_CALL_1 fw LEGACY_SET_TIMER 0 stime_value"

text \<open>\<open>now\<close> is what the memory-mapped clock at \<^verbatim>\<open>CLIENT_MTIMER\<close> reads.\<close>

definition SET_TIMER :: "firmware \<Rightarrow> u64 \<Rightarrow> sbi_call list \<Rightarrow> sbiret \<times> sbi_call list" where
  "SET_TIMER fw now = sbi_legacy_set_timer fw (now + CLOCK_PIECE)"

text \<open>\<^verbatim>\<open>setMode\<close> starts a hart at the entry of the kernel; it sets no fourth argument and drops the answer.\<close>

definition setMode :: "firmware \<Rightarrow> i32 \<Rightarrow> sbi_call list \<Rightarrow> sbi_call list" where
  "setMode fw hartId l = l @ [\<lparr>ext_id = 0x48534D, func_id = 0, sbi_args = [scast hartId, 0x80200000, 19260817]\<rparr>]"

definition sbi_send_ipi :: "firmware \<Rightarrow> u64 \<Rightarrow> sbi_call list \<Rightarrow> sbi_call list" where
  "sbi_send_ipi fw hart_mask l = snd (SBI_CALL_1 fw SBI_SEND_IPI 0 hart_mask l)"

section \<open>System call stubs of the kernel's own programs\<close>

definition syscall0 :: "u64 \<Rightarrow> ucall" where "syscall0 nr = (nr, [])"

definition syscall1 :: "u64 \<Rightarrow> u64 \<Rightarrow> ucall" where "syscall1 nr a = (nr, [a])"

definition syscall3 :: "u64 \<Rightarrow> u64 \<Rightarrow> u64 \<Rightarrow> u64 \<Rightarrow> ucall" where "syscall3 nr a b c = (nr, [a, b, c])"

text \<open>What a stub returns: \<^verbatim>\<open>ret\<close> is unsigned, so the error branch is never taken.\<close>

definition sysret :: "u64 \<Rightarrow> u64" where "sysret ret = (if 0 \<le> ret then ret else - 1)"

lemma sysret [simp]: "sysret ret = ret"
  by (simp add: sysret_def)

definition k_gethid :: ucall where "k_gethid = syscall0 NR_gethid"
definition k_getpid :: ucall where "k_getpid = syscall0 NR_getpid"
definition k_getppid :: ucall where "k_getppid = syscall0 NR_getppid"
definition k_fork :: ucall where "k_fork = syscall0 NR_fork"
definition k_execve :: "u64 \<Rightarrow> u64 \<Rightarrow> u64 \<Rightarrow> ucall" where "k_execve filepath argv envp = syscall3 NR_execve filepath argv envp"
definition k_exit :: "i32 \<Rightarrow> ucall" where "k_exit error_code = syscall1 NR_exit (scast error_code)"
definition k_waitpid :: "i32 \<Rightarrow> u64 \<Rightarrow> i32 \<Rightarrow> ucall" where "k_waitpid p stat_addr options = syscall3 NR_waitpid (scast p) stat_addr (scast options)"
definition k_shutdown :: ucall where "k_shutdown = syscall0 NR_shutdown"

lemmas kernel_stubs = k_gethid_def k_getpid_def k_getppid_def k_fork_def k_execve_def k_exit_def k_waitpid_def k_shutdown_def
  syscall0_def syscall1_def syscall3_def

text \<open>
  The calls that only ask: the hart, the number of the process and the number of its father come back in \<open>a0\<close>, and nothing of the machine changes but the
  saved registers of the caller. \<^verbatim>\<open>shutdown\<close> writes one word to the control register of the board.
\<close>

lemma asking_calls:
  fixes pc
  assumes inv: "mwf m" and t: "TASK (kern m) ! current (kern m) = Some t" and sp: "stack_in (r_sp u) (kern m)"
    and q: "(q, v) \<in> {(k_gethid, w_hart w), (k_getpid, of_int (pid t)), (k_getppid, of_int (father_pid t))}"
  defines "r \<equiv> (call_regs q u)\<lparr>r_a0 := v, r_epc := pc + 4, r_temp := r_temp (ctx t)\<rparr>"
  shows "ecall w q pc u m = Some (Inr (Some r, m\<lparr>kern := set_task (current (kern m)) (t\<lparr>ctx := r\<rparr>) (kern m), MODE := 0\<rparr>))"
proof -
  let ?m = "call_entry pc (call_regs q u) m t" and ?c = "t\<lparr>ctx := reg_save (call_regs q u) pc (ctx t)\<rparr>"
  have lt: "current (kern m) < 64" "length (TASK (kern m)) = 64" using inv by (auto simp: mwf_def pinv_def sinv_def table_ok_def)
  have k: "TASK (kern ?m) ! current (kern m) = Some ?c" "length (TASK (kern ?m)) = 64" "the_task (kern ?m) (current (kern ?m)) = Inr ?c"
    using lt by (simp_all add: call_entry_def set_mode_def the_task_def)
  have "sys_call w (reg_save (call_regs q u) pc (ctx t)) ?m = Inr (Result v None, ?m)"
    using q k(3) by (auto simp: sys_call_def Let_def kernel_stubs call_numbers sys_small)
  from ecall_returns [OF inv t sp this k(1,2)] show ?thesis by (simp add: r_def call_entry_def set_mode_def set_task_def)
qed

lemma shutdown_call:
  assumes inv: "mwf m" and t: "TASK (kern m) ! current (kern m) = Some t" and sp: "stack_in (r_sp u) (kern m)"
  shows "\<exists>r m'. ecall w k_shutdown pc u m = Some (Inr (Some r, m')) \<and> bus m' = bus m @ [Wr 0x100000 0x5555]"
proof -
  let ?m = "call_entry pc (call_regs k_shutdown u) m t"
  have lt: "current (kern m) < 64" "length (TASK (kern m)) = 64" using inv by (auto simp: mwf_def pinv_def sinv_def table_ok_def)
  have "sys_call w (reg_save (call_regs k_shutdown u) pc (ctx t)) ?m = Inr (Result (ucast (SYS_CTL SYS_PASS)) None, ?m\<lparr>bus := sys_shutdown (bus ?m)\<rparr>)"
    by (simp add: sys_call_def Let_def kernel_stubs call_numbers)
  from ecall_returns [OF inv t sp this] lt show ?thesis
    by (simp add: call_entry_def set_mode_def sys_shutdown_def mm_write_def SYS_CTL_ADDR_def SYS_CTL_def SYS_PASS_def)
qed

text \<open>\<^verbatim>\<open>exit\<close> does not come back.\<close>

lemma exit_call:
  assumes inv: "mwf m" and t: "TASK (kern m) ! current (kern m) = Some t" and sp: "stack_in (r_sp u) (kern m)"
    and e: "ecall w (k_exit code) pc u m = Some (Inr (r, m'))"
  shows "r = None"
proof -
  have lt: "current (kern m) < 64" "length (TASK (kern m)) = 64" using inv by (auto simp: mwf_def pinv_def sinv_def table_ok_def)
  have g: "x = Gone" if "do_syscall w (call_entry pc (call_regs (k_exit code) u) m t) = Inr (x, m1)" for x m1
    using lt that by (auto simp: do_syscall_def sys_call_def Let_def kbind_eq_Inr kernel_stubs call_numbers)
  obtain x m1 where "do_syscall w (call_entry pc (call_regs (k_exit code) u) m t) = Inr (x, m1)"
    using e unfolding ecall_enters [OF inv t sp] by (auto simp: kbind_eq_Inr)
  then show ?thesis using e g unfolding ecall_enters [OF inv t sp] by auto
qed

section \<open>To user mode\<close>

text \<open>
  \<^verbatim>\<open>move_to_user_mode\<close>: the timer is armed, the stack becomes the stack of task 0, and \<^verbatim>\<open>sret\<close> continues at the return address \<open>ra\<close>. The part
  of \<^verbatim>\<open>timer_selfadd\<close> that is a firmware call is recorded here.
\<close>

definition move_to_user_mode :: "firmware \<Rightarrow> u64 \<Rightarrow> u64 \<Rightarrow> reg \<Rightarrow> kstate \<Rightarrow> sbi_call list \<Rightarrow> reg \<times> kstate \<times> sbi_call list" where
  "move_to_user_mode fw now ra u k l = (u\<lparr>r_epc := ra, r_sp := stack_top k 0\<rparr>, timer_selfadd k, snd (SET_TIMER fw now l))"

text \<open>
  \<^verbatim>\<open>kernel_start\<close> to the point where it calls \<^verbatim>\<open>fork\<close>. Another hart than 0 first asks the firmware to start hart 1 and to send an interrupt, with
  the address of its mask, and then waits for \<open>start_lock\<close>.
\<close>

definition kernel_main :: "'u world \<Rightarrow> firmware \<Rightarrow> u64 \<Rightarrow> u64 \<Rightarrow> u64 \<Rightarrow> u64 \<Rightarrow> u64 \<Rightarrow> reg \<Rightarrow>
    u32 \<times> 'u machine \<times> sbi_call list \<Rightarrow> (u32 \<times> reg \<times> 'u machine \<times> sbi_call list) res" where
  "kernel_main w fw now msk vector hartid ra u =
     (\<lambda>(start_lock, m, l).
       let l = (if hartid = 0 then l else sbi_send_ipi fw msk (setMode fw 1 l))
       in kbind (kernel_start w vector hartid (start_lock, m)) (\<lambda>(start_lock, m).
          case move_to_user_mode fw now ra u (kern m) l of (u, k, l) \<Rightarrow> Inr (start_lock, u, m\<lparr>kern := k\<rparr>, l)))"

text \<open>Another hart: it asks for hart 1 and an interrupt, and then waits for hart 0 to finish; while hart 0 has not, it does not get any further. Then it
  goes to user mode on the stack of task 0, which hart 0 runs on, and it never sets a trap vector or an interrupt enable of its own.\<close>

lemma other_hart:
  assumes "hartid \<noteq> 0"
  shows "kernel_main w fw now msk vector hartid ra u (1, m, l) = Inl Hang"
    "\<exists>u' m' l'. kernel_main w fw now msk vector hartid ra u (0, m, l) = Inr (0, u', m', l') \<and> r_sp u' = stack_top (kern m) 0 \<and> csr m' = csr m \<and> map ext_id l' = map ext_id l @ [0x48534D, SBI_SEND_IPI, LEGACY_SET_TIMER]"
  using assms by (simp_all add: kernel_main_def kernel_start_def spin_lock_held spin_unlock_def spin_atomic_lock_def move_to_user_mode_def SET_TIMER_def
      sbi_legacy_set_timer_def SBI_CALL_1_def SBI_CALL_def sbi_send_ipi_def setMode_def Let_def split_def)

text \<open>\<^verbatim>\<open>if(!fork())Init(); while(1){}\<close>, for what \<^verbatim>\<open>fork\<close> left in \<open>a0\<close>.\<close>

datatype after_fork = Runs_Init | Idles

definition kernel_loop :: "u64 \<Rightarrow> after_fork" where
  "kernel_loop a0 = (if (ucast (sysret a0) :: i32) = 0 then Runs_Init else Idles)"

section \<open>The first fork\<close>

text \<open>A table with the first task only: the new task gets slot 1 and number 1.\<close>

lemma first_fork:
  assumes T: "TASK k = Some c # replicate 63 None" and k: "current k = 0" "NEW_PID k = 0"
    and h: "minv (heap k)" "used_pages (pg (heap k)) + 2 \<le> unat (num_pages (pg (heap k)))"
  obtains p h' k1 where "sys_fork k = Inr (1, k1)" and "TASK k1 = Some c # Some (child_task p c (k\<lparr>NEW_PID := 1, NEW_PCBID := 1\<rparr>)) # replicate 62 None"
    and "heap k1 = h'" "minv h'" "page_cost 2 (heap k) h'" "queue_head k1 = queue_head k" "tail k1 = tail k" "current k1 = 0" "task_stack k1 = task_stack k"
proof -
  have "unat SIZEOF_TASK \<le> 4096" by (simp add: SIZEOF_TASK_def)
  then obtain p h' where p: "kmalloc SIZEOF_TASK (heap k) = Inr (p, h')" "p \<noteq> 0" "minv h'" "page_cost 2 (heap k) h'"
    using kmalloc_room [OF h(1) _ h(2)] by blast
  have f: "first_index (\<lambda>i. TASK k ! i = None) 1 64 = Some 1" unfolding T by (simp add: first_index.simps)
  have r: "replicate 63 None = None # (replicate 62 None :: task_struct option list)" by (simp add: numeral_eq_Suc)
  show ?thesis
  proof (rule that)
    show "sys_fork k = Inr (1, copy_memory (stack_top k 1) (pcb_id c) (set_task 1 (child_task p c (k\<lparr>NEW_PID := 1, NEW_PCBID := 1\<rparr>)) (k\<lparr>NEW_PID := 1, NEW_PCBID := 1, heap := h'\<rparr>)))"
      using f p k T by (simp add: sys_fork_def find_new_id_def copy_process_def MAX_TASK_def Let_def the_task_def set_task_def stack_top_def)
  qed (use p T r in \<open>simp_all add: k copy_memory_def set_task_def\<close>)
qed

text \<open>Releasing a live object of a sound heap always returns.\<close>

lemma kfree_returns:
  assumes inv: "minv s" and a: "a \<in> live_objs s"
  shows "\<exists>s'. kfree a 0 s = Inr s'"
proof -
  obtain b d where b: "b < 10" and din: "d \<in> set (bucket s b)" and l: "a \<in> live_of (hmem (pg s)) (sizes ! b) d" using a by (auto simp: live_objs_def)
  obtain l1 l2 where ds: "bucket s b = l1 @ d # l2" using split_list [OF din] by blast
  have fs: "a \<noteq> 0" "page_of a = block d" by (rule live_object [OF inv b din l], simp)+
  let ?pg = "(pg s)\<lparr>hmem := (hmem (pg s))(a := freeptr d)\<rparr>"
  have sp: "single_pages (pg s)" using inv by (simp add: minv_def)
  obtain g where "page_free (block d) ?pg = Inr g" using page_free_one [of ?pg "block d"] sp minv_page_ok(2) [OF inv b din] by auto
  then show ?thesis using kfree_unfold [OF inv b ds fs] by (simp add: Let_def)
qed

text \<open>
  One task beside the idle one that is ready, or waits with a signal, empty queues, and at most a zombie in slot 2: \<^verbatim>\<open>schedule\<close> queues the task, takes it out again
  and makes it current. The heap is sound again afterwards when the pages of queue nodes were all in use.
\<close>

definition woken :: "task_struct \<Rightarrow> task_struct" where
  "woken t = (if state t = TASK_WAIT \<and> signal t AND NOT SIG_STOP \<noteq> 0 then t\<lparr>state := TASK_READY, signal := 0\<rparr> else t)"

lemma node_bucket: "minv h \<Longrightarrow> find_bdir SIZEOF_QUEUE (block_dir h) 0 = Inr 2"
proof -
  assume h: "minv h"
  have z: "unat SIZEOF_QUEUE = 24" by (simp add: SIZEOF_QUEUE_def)
  obtain b where b: "find_bdir SIZEOF_QUEUE (block_dir h) 0 = Inr b" "b < 10" "24 \<le> sizes ! b" "\<forall>k<b. sizes ! k < 24"
    using find_bdir_minv [OF h, of SIZEOF_QUEUE] unfolding z by auto
  have "\<not> 2 < b" using b(4) by (auto simp: sizes_def)
  moreover have "b \<noteq> 0" "b \<noteq> 1" by (rule notI; use b(3) in \<open>simp add: sizes_def\<close>)+
  ultimately show ?thesis using b(1) by (simp add: numeral_2_eq_2 less_Suc_eq not_less)
qed

lemma lone_schedule:
  assumes T: "TASK s = Some c # Some t # x # replicate 61 None" and x: "\<forall>z. x = Some z \<longrightarrow> state z = TASK_ZOMBINE \<and> \<not> in_Queue z"
    and q: "queue_head s = replicate 5 []" "length (tail s) = 5" and t: "state (woken t) = TASK_READY" "\<not> in_Queue t" "order t = 0"
    and h: "minv (heap s)" "used_pages (pg (heap s)) + 2 \<le> unat (num_pages (pg (heap s)))"
  shows "\<exists>s'. schedule s = Inr s' \<and> current s' = 1 \<and> TASK s' = Some c # Some ((requeued (woken t))\<lparr>in_Queue := False, state := TASK_RUNNING\<rparr>) # x # replicate 61 None \<and>
    (busy 2 (heap s) \<longrightarrow> minv (heap s') \<and> live_objs (heap s') = live_objs (heap s))"
proof -
  have two: "for_tasks 63 f r = kbind (case x of None \<Rightarrow> Inr r | Some z \<Rightarrow> f (Suc (Suc 0)) z r) (for_tasks (Suc 0) f)"
    if "TASK r = Some a # Some b # x # replicate 61 None" for f r a b
  proof -
    have "TASK r ! k = None" if "2 < k" "k < 64" for k using that \<open>TASK r = _\<close> by (auto simp: nth_Cons split: nat.splits)
    then have "for_tasks 63 f r = for_tasks 2 f r" using \<open>TASK r = _\<close> by (intro for_tasks_skip) auto
    then show ?thesis using \<open>TASK r = _\<close> by (simp add: numeral_2_eq_2)
  qed
  let ?t = "woken t" let ?s = "s\<lparr>TASK := Some c # Some ?t # x # replicate 61 None\<rparr>"
  have s1: "alter_state s = Inr ?s" unfolding alter_state_def MAX_TASK_def using T x
    by (cases x) (auto simp: two [OF T] alter_state_body_def woken_def set_task_def)
  have z: "unat SIZEOF_QUEUE \<le> 4096" by (simp add: SIZEOF_QUEUE_def)
  have sp: "single_pages (pg (heap s))" using h(1) by (simp add: minv_def)
  obtain p h' b P where k: "kmalloc SIZEOF_QUEUE (heap s) = Inr (p, h')" "minv h'" "p \<in> live_objs h'" "b < 10" "page_ok P" "p \<in> objects P (sizes ! b)"
    using kmalloc_cases [OF h(1) z] two_pages [OF sp h(2)] by auto
  have p: "p \<noteq> 0" using object_page(2) [OF k(5,6)] sizes_facts(2) [OF k(4)] by simp
  obtain h2 where h2: "kfree p 0 h' = Inr h2" using kfree_returns [OF k(2,3)] by blast
  have h3: "busy 2 (heap s) \<longrightarrow> minv h2 \<and> live_objs h2 = live_objs (heap s)"
    using kmalloc_kfree [OF h(1) z node_bucket [OF h(1)] _ k(1)] h2 by auto
  let ?n = "\<lparr>qaddr = p, qpid = pid ?t, qtask = 1\<rparr>"
  let ?s2 = "?s\<lparr>heap := h', tail := (tail s)[0 := p], queue_head := (queue_head s)[0 := [?n]], TASK := Some c # Some (requeued ?t) # x # replicate 61 None\<rparr>"
  have o: "requeue_order ?t = 0" "\<not> in_Queue ?t" using t by (simp_all add: requeue_order_def woken_def split: if_splits)
  have "enqueue 0 1 (pid ?t) ?s = Inr (?s\<lparr>heap := h', tail := (tail s)[0 := p], queue_head := (queue_head s)[0 := [?n]]\<rparr>)"
    using q k(1) p by (simp add: enqueue_def)
  moreover have "for_tasks 63 set_Queue_body ?s = for_tasks (Suc 0) set_Queue_body ?s"
    using two [of ?s c ?t set_Queue_body] x by (cases x) (simp_all add: set_Queue_body_def)
  ultimately have s2: "set_Queue ?s = Inr ?s2" unfolding set_Queue_def MAX_TASK_def using t(1) o by (simp add: set_Queue_body_def set_task_def)
  have "first_index (\<lambda>k. queue_head ?s2 ! k \<noteq> []) 0 5 = Some 0" using q by (simp add: first_index.simps [of _ 0])
  then have "pick_next ?s2 = Inr (1, set_task 1 ((requeued ?t)\<lparr>in_Queue := False, state := TASK_RUNNING\<rparr>) (?s2\<lparr>heap := h2, queue_head := (queue_head ?s2)[0 := []]\<rparr>))"
    using q h2 by (simp add: pick_next_def dequeue_def the_task_def)
  then show ?thesis using s1 s2 h3 by (simp add: schedule_def set_task_def)
qed

text \<open>The same through a timer interrupt, whatever the idle task was doing.\<close>

lemma first_tick:
  assumes T: "TASK (kern m) = Some c # Some t # replicate 62 None" and c: "pid c = 0" "pcb_id c = 0" and cur: "current (kern m) = 0"
    and q: "queue_head (kern m) = replicate 5 []" "length (tail (kern m)) = 5" and t: "state t = TASK_READY" "\<not> in_Queue t" "order t = 0"
    and h: "minv (heap (kern m))" "used_pages (pg (heap (kern m))) + 2 \<le> unat (num_pages (pg (heap (kern m))))"
    and tm: "timers m = []" and sp: "stack_in (r_sp u) (kern m)"
  shows "\<exists>m'. trap_vector w 0x8000000000000005 pc u m = Some (Inr (None, m')) \<and> current (kern m') = 1"
proof -
  let ?x = "reg_save u pc (ctx c)"
  let ?m = "set_mode 1 (m\<lparr>kern := set_task 0 (c\<lparr>ctx := ?x\<rparr>) (kern m)\<rparr>)"
  have s: "set_ctx 0 (reg_save u pc) m = Inr (m\<lparr>kern := set_task 0 (c\<lparr>ctx := ?x\<rparr>) (kern m)\<rparr>)" using T by (simp add: set_ctx_Inr)
  have d: "Dect_stack (r_sp u) (set_task 0 (c\<lparr>ctx := ?x\<rparr>) (kern m)) = Inr ()"
    using T c sp cur by (auto simp: Dect_stack_def the_task_def stack_in_def stack_top_def set_task_def Let_def not_less)
  let ?s = "set_task 0 (c\<lparr>ctx := ?x, time := time c + 1\<rparr>) (timer_selfadd (kern ?m))"
  have r: "replicate 62 None = None # (replicate 61 None :: task_struct option list)" by (simp add: numeral_eq_Suc)
  have "TASK ?s = Some (c\<lparr>ctx := ?x, time := time c + 1\<rparr>) # Some t # None # replicate 61 None"
    using T by (simp add: set_mode_def set_task_def timer_selfadd_def r)
  note ls = lone_schedule [OF this]
  have "\<exists>s'. schedule ?s = Inr s' \<and> current s' = 1"
    using ls q t h by (auto simp: set_mode_def set_task_def timer_selfadd_def woken_def)
  then obtain s' where s': "schedule ?s = Inr s'" "current s' = 1" by blast
  have "timer_interrupt_handler (w_fire w) [] (kern ?m) = schedule ?s"
    using T c cur by (simp add: timer_interrupt_handler_def do_timer_def the_task_def set_mode_def timer_selfadd_def set_task_def)
  then have "trap_handler w 0x8000000000000005 pc ?m = Some (Inr (Away, ?m\<lparr>kern := s'\<rparr>))"
    using s' tm cur by (simp add: trap_handler_def trap_interrupt_def set_mode_def)
  then show ?thesis using s d s'(2) cur by (simp add: trap_vector_def Let_def set_mode_def)
qed

lemma top_in_stack: "unat (task_stack k) + 64 * 4096 \<le> 2 ^ 64 \<Longrightarrow> current k = 0 \<Longrightarrow> stack_in (stack_top k 0) k"
  by (simp add: stack_in_def stack_top_def word_le_nat_alt unat_word_ariths)

text \<open>The machine of \<open>demo_boot\<close> with nineteen pages of heap.\<close>

definition demo_boot19 :: "(u8 list \<times> u8 list \<times> nat) machine" where
  "demo_boot19 = demo_boot\<lparr>kern := boot_state\<lparr>heap := heap_empty\<lparr>pg := pool4\<lparr>heap_size := 4096 * 19, descs := replicate 11 0\<rparr>\<rparr>\<rparr>\<rparr>"



section \<open>The first process and its programs\<close>

text \<open>
  A program that runs in user mode, as the system calls it makes and what it does with their results. What the programs print goes to the serial port
  without a system call and is left out.
\<close>

datatype prog = Ask ucall "u64 \<Rightarrow> prog" | Loops | Returns i32 | Fails

text \<open>The result of a stub as an \<^verbatim>\<open>int\<close>.\<close>

definition int_of :: "u64 \<Rightarrow> i32" where "int_of r = ucast (sysret r)"

definition exec_test :: "u64 \<Rightarrow> prog" where
  "exec_test argv = Ask (k_execve 0 argv 0) (\<lambda>_. Loops)"

text \<open>
  \<^verbatim>\<open>Init\<close> after it has mounted the volume (\<open>Init_root\<close>): three children, each of which starts a test through an argument vector on its own stack; the
  process itself waits for them, and for the process with number 5, and switches the machine off.
\<close>

definition Init_tests :: "u64 \<Rightarrow> u64 \<Rightarrow> u64 \<Rightarrow> prog" where
  "Init_tests argv0 argv1 argv2 =
     Ask k_fork (\<lambda>pid0. if int_of pid0 = 0 then exec_test argv0 else
     Ask k_fork (\<lambda>pid1. if int_of pid1 = 0 then exec_test argv1 else
     Ask k_fork (\<lambda>pid2. if int_of pid2 = 0 then exec_test argv2 else
     Ask (k_waitpid (int_of pid0) 0 0) (\<lambda>_.
     Ask (k_waitpid (int_of pid1) 0 0) (\<lambda>_.
     Ask (k_waitpid (int_of pid2) 0 0) (\<lambda>_.
     Ask (k_waitpid 5 0 0) (\<lambda>_.
     Ask k_shutdown (\<lambda>_. Loops))))))))"

definition test_getpid :: prog where
  "test_getpid = Ask k_getpid (\<lambda>pid. if int_of pid <s 0 then Fails else Returns 0)"

definition test_getppid :: prog where
  "test_getppid = Ask k_getppid (\<lambda>ppid. Returns 0)"

definition test_fork :: "u64 \<Rightarrow> prog" where
  "test_fork wstatus =
     Ask k_fork (\<lambda>cpid. if int_of cpid = - 1 then Fails
       else if 0 <s int_of cpid then Ask (k_waitpid (- 1) wstatus 0) (\<lambda>_. Returns 0)
       else Ask (k_exit 0) (\<lambda>_. Returns 0))"

text \<open>All calls a program may make, whatever the results, and the calls it makes for given results.\<close>

primrec all_calls :: "(ucall \<Rightarrow> bool) \<Rightarrow> prog \<Rightarrow> bool" where
  "all_calls P (Ask c f) \<longleftrightarrow> P c \<and> (\<forall>r. all_calls P (f r))"
| "all_calls P Loops \<longleftrightarrow> True"
| "all_calls P (Returns x) \<longleftrightarrow> True"
| "all_calls P Fails \<longleftrightarrow> True"

fun calls :: "prog \<Rightarrow> u64 list \<Rightarrow> ucall list \<times> prog" where
  "calls (Ask c f) (r # rs) = (case calls (f r) rs of (cs, p) \<Rightarrow> (c # cs, p))"
| "calls p rs = ([], p)"

definition in_table :: "ucall \<Rightarrow> bool" where
  "in_table c \<longleftrightarrow> fst c \<in> {NR_gethid, NR_getpid, NR_getppid, NR_fork, NR_execve, NR_exit, NR_waitpid, NR_shutdown}"

text \<open>In contrast to the programs of the user library (\<open>unserved_call\<close>), these programs only make calls that the kernel serves.\<close>

lemma programs_served:
  "all_calls in_table (Init_tests a b c)" "all_calls in_table test_getpid" "all_calls in_table test_getppid" "all_calls in_table (test_fork s)"
  by (simp_all add: Init_tests_def exec_test_def test_getpid_def test_getppid_def test_fork_def in_table_def kernel_stubs)

text \<open>The way of the first process itself.\<close>

lemma Init_parent:
  assumes "int_of p0 \<noteq> 0" "int_of p1 \<noteq> 0" "int_of p2 \<noteq> 0"
  shows "calls (Init_tests a b c) [p0, p1, p2, r0, r1, r2, r3, r4] =
    ([k_fork, k_fork, k_fork, k_waitpid (int_of p0) 0 0, k_waitpid (int_of p1) 0 0, k_waitpid (int_of p2) 0 0, k_waitpid 5 0 0, k_shutdown], Loops)"
  using assms by (simp add: Init_tests_def)

section \<open>exit and waitpid\<close>


text \<open>Process 1 waits, its child with number 2 runs; the child's descriptor is an object of the heap.\<close>

definition waiting_task :: task_struct where
  "waiting_task = (init_task 0x80500000 0x80600000)\<lparr>pid := 1, pcb_id := 1, state := TASK_WAIT\<rparr>"

definition child_of_one :: "u64 \<Rightarrow> task_struct" where
  "child_of_one p = (init_task p 0x80600000)\<lparr>pid := 2, pcb_id := 2, father_pid := 1, state := TASK_RUNNING\<rparr>"

definition family :: "u64 \<Rightarrow> mstate \<Rightarrow> kstate" where
  "family p h = boot_state\<lparr>TASK := Some (init_task 0x80700000 0x80600000) # Some waiting_task # Some (child_of_one p) # replicate 61 None,
     current := 2, NEW_PID := 2, heap := h\<rparr>"

lemma family_slot:
  "i < 64 \<Longrightarrow> TASK (family p h) ! i = (if i = 0 then Some (init_task 0x80700000 0x80600000) else if i = 1 then Some waiting_task
     else if i = 2 then Some (child_of_one p) else None)"
  by (auto simp: family_def nth_Cons numeral_2_eq_2 split: nat.splits)

lemma family_pinv: "pinv (family p h)"
proof -
  let ?s = "family p h"
  have len: "length (TASK ?s) = 64" and q: "queue_head ?s = replicate 5 []" "length (tail ?s) = 5" "current ?s = 2" "NEW_PID ?s = 2"
    by (simp_all add: family_def boot_state_def)
  have "queues_ok ?s" using q by (auto simp: queues_ok_def)
  moreover have "task_ok ?s i" if "0 < i" "i < 64" for i
    using family_slot [OF that(2)] by (auto simp: task_ok_def waiting_task_def child_of_one_def init_task_def split: if_splits)
  ultimately have "sinv ?s" using len q family_slot [of 0 p h] family_slot [of 2 p h]
    by (simp add: sinv_def table_ok_def) (simp add: child_of_one_def init_task_def)
  moreover have "idents ?s ! i = (if i = 0 then Some (0, 0, 0) else if i = 1 then Some (1, 1, 0) else if i = 2 then Some (2, 2, 0) else None)"
    if "i < 64" for i
    using family_slot [OF that] that len by (simp add: idents_nth ident_def waiting_task_def child_of_one_def init_task_def)
  then have "ids_ok (idents ?s) (NEW_PID ?s)" using len q by (auto simp: ids_ok_def split: if_splits)
  ultimately show ?thesis by (simp add: pinv_def)
qed

text \<open>The call of \<open>exit\<close> and the second pass of \<open>waitpid\<close> in that family: both return.\<close>

lemma task_object:
  "\<exists>p h. minv h \<and> p \<in> live_objs h \<and> busy 2 h \<and> used_pages (pg h) + 2 \<le> unat (num_pages (pg h))"
proof -
  have z: "unat SIZEOF_TASK = 1864" by (simp add: SIZEOF_TASK_def)
  obtain p h where k: "kmalloc SIZEOF_TASK heap_empty = Inr (p, h)" "minv h" "p \<in> live_objs h"
    using kmalloc_cases [OF heap_empty_minv, of SIZEOF_TASK] pool4_two_pages z by auto
  obtain b where b: "find_bdir SIZEOF_TASK (block_dir heap_empty) 0 = Inr b" "1864 \<le> sizes ! b"
    using find_bdir_minv [OF heap_empty_minv, of SIZEOF_TASK] unfolding z by auto
  have "2 \<noteq> b" by (rule notI, use b(2) in \<open>simp add: sizes_def\<close>)
  then have "bucket h 2 = bucket heap_empty 2" by (rule kmalloc_others [OF b(1) k(1)])
  then have "busy 2 h" by (simp add: busy_def bucket_def heap_empty_def block_dir0_def bucket_sizes_def)
  moreover have "pg_abs pool4 (replicate 4 FreePage)" using pool4_abs by (simp add: numeral_eq_Suc)
  then have "used_pages pool4 = 0" by (rule fresh_heap(2)) (simp_all add: pool4_def)
  then have "used_pages (pg h) + 2 \<le> unat (num_pages (pg h))"
    using kmalloc_cost [OF _ k(1)] heap_empty_minv by (simp add: minv_def page_cost_def heap_empty_def pool4_def)
  ultimately show ?thesis using k(2,3) by blast
qed

lemma family_exit:
  assumes h: "minv h" "busy 2 h" "used_pages (pg h) + 2 \<le> unat (num_pages (pg h))"
  shows "\<exists>s' z f. do_exit 7 (family p h) = Inr s' \<and> current s' = 1 \<and> minv (heap s') \<and> live_objs (heap s') = live_objs h \<and>
    TASK s' = Some (init_task 0x80700000 0x80600000) # Some f # Some z # replicate 61 None \<and> pid f = 1 \<and> signal f = 0 \<and>
    state z = TASK_ZOMBINE \<and> pid z = 2 \<and> father_pid z = 1 \<and> taddr z = p"
proof -
  let ?z = "(child_of_one p)\<lparr>state := TASK_ZOMBINE, counter := 0, in_Queue := False, order := - 1\<rparr>"
  let ?f = "waiting_task\<lparr>signal := signal waiting_task OR SIG_CHLD\<rparr>"
  let ?s = "set_task 1 ?f (set_task 2 ?z (family p h))"
  have T: "TASK (family p h) = Some (init_task 0x80700000 0x80600000) # Some waiting_task # Some (child_of_one p) # replicate 61 None" "current (family p h) = 2"
    by (simp_all add: family_def)
  have d: "pid (child_of_one p) = 2" "father_pid (child_of_one p) = 1" "father_pid waiting_task = 0" "pid waiting_task = 1" "taddr (child_of_one p) = p"
    "state waiting_task = TASK_WAIT" "\<not> in_Queue waiting_task" "order waiting_task = 0"
    by (simp_all add: child_of_one_def waiting_task_def init_task_def)
  have "for_tasks 63 (reparent_body 2) (family p h) = for_tasks 2 (reparent_body 2) (family p h)"
    by (rule for_tasks_skip) (auto simp: T(1) family_slot)
  then have loop: "for_tasks 63 (reparent_body 2) (family p h) = Inr (family p h)"
    using T d by (simp add: numeral_2_eq_2 reparent_body_def)
  have "tell_father 1 (set_task 2 ?z (family p h)) = signal_task 1 (set_task 2 ?z (family p h))"
    using T d by (simp add: tell_father_def MAX_TASK_def set_task_def first_index.simps [of _ "Suc 0"])
  then have tell: "tell_father 1 (set_task 2 ?z (family p h)) = Inr ?s" using T by (simp add: signal_task_def the_task_def set_task_def)
  have s: "TASK ?s = Some (init_task 0x80700000 0x80600000) # Some ?f # Some ?z # replicate 61 None" "queue_head ?s = replicate 5 []" "length (tail ?s) = 5" "heap ?s = h"
    using T by (simp_all add: set_task_def family_def boot_state_def)
  have w: "state (woken ?f) = TASK_READY" "signal (woken ?f) = 0" "pid (woken ?f) = 1" using d chld_pending by (simp_all add: woken_def)
  obtain s' where s': "schedule ?s = Inr s'" "current s' = 1" "minv (heap s')" "live_objs (heap s') = live_objs h"
    "TASK s' = Some (init_task 0x80700000 0x80600000) # Some ((requeued (woken ?f))\<lparr>in_Queue := False, state := TASK_RUNNING\<rparr>) # Some ?z # replicate 61 None"
    using lone_schedule [OF s(1) _ s(2,3) w(1)] d h s(4) by auto
  have "do_exit 7 (family p h) = Inr s'" using loop tell T d s'(1) by (simp add: do_exit_def the_task_def MAX_TASK_def)
  moreover have "pid (requeued (woken ?f)) = 1" "signal (requeued (woken ?f)) = 0" using w by (simp_all add: requeued_def)
  ultimately show ?thesis using s' d by auto
qed

lemma scan_skip:
  "m \<le> n \<Longrightarrow> n < length (TASK s) \<Longrightarrow> the_task s (current s) = Inr c \<Longrightarrow> (\<forall>i. m < i \<longrightarrow> i \<le> n \<longrightarrow> TASK s ! i = None) \<Longrightarrow>
   waitpid_scan p n fl s = waitpid_scan p m fl s"
proof (induction n)
  case (Suc n)
  then show ?case by (cases "m = Suc n") auto
qed simp


end
