(* ===== verification/Spec2Isabelle.thy ===== *)
theory Spec2Isabelle
  imports Prelude Pages Malloc Sched Proc Kstring Ktime Lock Printf Virtio Buffer Fat Dirent Inode File Uart Paging Exec Device Trap Boot Userlib Usercall Switch Start
begin

text \<open>
  A verification development for 404OS, a small RISC-V kernel in C with a FAT32 file system.

  \<^bold>\<open>The program.\<close> At start-up \<^verbatim>\<open>kernel_start\<close> (\<^verbatim>\<open>src/kernel/kernel.c\<close>) brings up the page allocator, the bucket allocator, the
  serial port, the trap vector, the scheduler, the interrupt controller, the timer, the block cache and the disk, and goes to user mode. From then on
  the kernel runs only in traps (\<^verbatim>\<open>src/kernel/switch.S\<close>, \<^verbatim>\<open>src/trap\<close>): a timer tick may call the scheduler, an external interrupt serves the
  keyboard or the disk, an environment call goes through the table of system calls (\<^verbatim>\<open>src/kernel/sys.c\<close>) to the process management
  (\<^verbatim>\<open>src/kernel/sched\<close>). Files are reached through paths and descriptors (\<^verbatim>\<open>src/fs/ops.c\<close>, \<^verbatim>\<open>fd.c\<close>, \<^verbatim>\<open>fat32_file.c\<close>), inodes
  and the allocation table (\<^verbatim>\<open>src/fs/fat32_inode.c\<close>), the block cache (\<^verbatim>\<open>src/driver/buffer.c\<close>) and the virtio driver
  (\<^verbatim>\<open>src/driver/virtio.c\<close>).

  \<^bold>\<open>Conventions.\<close> Structures are records, machine integers are words of their width (reference counts and indices that cannot
  wrap are natural numbers), functions pass the state explicitly. A function that can fail returns \<open>kerror + 'a\<close>: a \<^verbatim>\<open>panic\<close>, a null
  dereference, an access outside an array, a failed assertion are values. Every early return and error exit of the code is a branch. Pointers into
  tables are indices; where the code depends on addresses (heap objects, free chains, page tables, stacks) they are kept. Hardware is
  either an environment step that its specification prescribes (the disk, \<open>device_serve\<close>) or a parameter with a named hypothesis
  (\<open>serial_port\<close>, \<open>disk_present\<close>). A loop that need not end is a \<^verbatim>\<open>partial_function\<close> whose value \<open>None\<close> means that it
  does not return; the properties then state that it does return. In the file system theories \<open>okf n r x Q\<close> says that the operation \<open>x\<close> succeeds
  with \<open>Q\<close> when \<open>n\<close> of the \<open>r\<close> free buffers are left: buffers are never released (see below), so every statement about the file system carries
  the room it needs, one buffer for each sector touched.

  \<^bold>\<open>The theories.\<close>
  \<^item> \<open>Prelude\<close>: words, the error monad, checked array access, the interfaces \<open>invariant_system\<close> (a transition system with an
    inductive invariant) and \<open>slot_pool\<close> (a table that hands out slots).
  \<^item> \<open>Pages\<close> (\<^verbatim>\<open>mm/page.c\<close>): page descriptors, first fit; it refines an abstract sequence of free pages and blocks and is a \<open>slot_pool\<close>.
  \<^item> \<open>Malloc\<close> (\<^verbatim>\<open>mm/malloc.c\<close>): size classes with chains of free objects in memory; the heap invariant \<open>minv\<close>, freshness of objects,
    the round trip of an object through allocation and release, and the descriptors that a release can lose.
  \<^item> \<open>Sched\<close>, \<open>Proc\<close> (\<^verbatim>\<open>kernel/sched\<close>, \<^verbatim>\<open>kernel/sys.c\<close>, \<^verbatim>\<open>signal.c\<close>, \<^verbatim>\<open>timer/timer.c\<close>): ready queues, choice and fairness of
    \<^verbatim>\<open>schedule\<close>; fork, exit, waitpid, signals and ticks, and the invariant \<open>pinv\<close> of all states they reach.
  \<^item> \<open>Kstring\<close>, \<open>Ktime\<close>, \<open>Lock\<close>, \<open>Printf\<close> (\<^verbatim>\<open>string\<close>, \<^verbatim>\<open>kernel/ctype.c\<close>, \<^verbatim>\<open>timer/time.c\<close>, \<^verbatim>\<open>kernel/lock\<close>, \<^verbatim>\<open>print\<close>):
    strings over byte memory, the calendar, mutual exclusion of the spin lock for any number of harts, and formatted output against a
    reference rendering.
  \<^item> \<open>Virtio\<close>, \<open>Buffer\<close> (\<^verbatim>\<open>driver\<close>): descriptor rings and requests; the cache as an implementation of the interface \<open>block_store\<close>, on which the
    file system is proved.
  \<^item> \<open>Fat\<close>, \<open>Dirent\<close>, \<open>Inode\<close>, \<open>File\<close> (\<^verbatim>\<open>fs\<close>): geometry, cluster chains and allocation; directory entries and long names as
    bytes; inodes; paths, open files, listing. Reading is proved to return the bytes of the file and path walking to follow the elements of the path; the
    places where the code loses data are theorems too.
  \<^item> \<open>Uart\<close>, \<open>Device\<close>, \<open>Paging\<close> (\<^verbatim>\<open>driver/uart.c\<close>, \<^verbatim>\<open>trap/plic.c\<close>, \<^verbatim>\<open>Init_virtio\<close>, \<^verbatim>\<open>mm/pg.c\<close>): registers, the handshake with the disk, page tables.
  \<^item> \<open>Exec\<close>, \<open>Trap\<close>, \<open>Boot\<close> (\<^verbatim>\<open>kernel/sched/exec.c\<close>, \<^verbatim>\<open>trap/trap.c\<close>, \<^verbatim>\<open>kernel/switch.S\<close>, \<^verbatim>\<open>kernel/kernel.c\<close>): the ELF loader, traps
    over the state of all components, start-up.
  \<^item> \<open>Userlib\<close>, \<open>Usercall\<close> (\<^verbatim>\<open>user/lib\<close>): the library of the user programs. Its string routines work on words of eight bytes and are proved equal
    to the byte-wise ones, its output is proved against a reference rendering; the system call stubs are followed through \<open>trap_vector\<close> into the
    kernel and back.
  \<^item> \<open>Switch\<close> (\<^verbatim>\<open>kernel/switch.S\<close>): the assembly, executed instruction by instruction over bytes; the trap entry and exits implement what \<open>Trap\<close>
    says of them in every state that traps and switches reach, and \<^verbatim>\<open>switch_to\<close>, which the scheduler models as the change of \<open>current\<close>, resumes a task with its registers.
  \<^item> \<open>Start\<close> (\<^verbatim>\<open>include/sbi.h\<close>, \<^verbatim>\<open>include/asm\<close>, \<^verbatim>\<open>kernel/kernel.c\<close>, \<^verbatim>\<open>init/init.c\<close>): firmware calls, the rest of start-up, the first \<^verbatim>\<open>fork\<close> and the
    first tick, the stubs and the programs of the first process, exit and waitpid together.

  This theory adds the machine as a transition system, start-up followed by traps, and its invariant. No state of it has a pending timer callback: nothing
  in the sources calls \<^verbatim>\<open>add_timer\<close>.

  \<^bold>\<open>What the properties show.\<close> Safety and invariants of the allocators, the scheduler, the process table, the lock and the inode table; refinement
  of the page allocator, the block cache and file reads against abstract specifications; functional correctness of fork (in the kernel, and from the
  user's stub to both returns, and from start-up to the first process), exit, waitpid and the way
  a sleeping father is woken by the exit of its child, the disk driver, cluster chains, formatted output, calendar time; equivalence of the word-wise string
  routines with the byte-wise ones; round trips of long names, of printed numbers and of a task through \<^verbatim>\<open>switch_to\<close>; that traps are transparent, start-up ends in a sound state and every
  state after it is sound. Where the code does not do what it means to, the property says exactly what it does
  (leaked buffers, lost writes, shifted cluster numbers, dropped descriptors).

  \<^bold>\<open>Not modelled.\<close> The boot assembly and the memory layout symbols (\<^verbatim>\<open>BOOT/boot.S\<close>, \<^verbatim>\<open>mm/mem.S\<close>), which run before \<^verbatim>\<open>kernel_start\<close>. The debugging
  printers (\<^verbatim>\<open>sys_print_rawfile\<close>, \<^verbatim>\<open>show_task_queue\<close>, \<^verbatim>\<open>show_hello\<close>), the text that the programs of the first process print, and commented-out
  code. The test programs of the user library (\<^verbatim>\<open>user/src\<close>) and the files CMake generated (\<^verbatim>\<open>user/build\<close>). Interleavings of several
  harts inside the kernel are modelled for the spin lock only: the kernel starts its services on hart 0.
\<close>


section \<open>The machine as a transition system\<close>

text \<open>
  The machine is in the state in which \<^verbatim>\<open>kernel_start\<close> of hart 0 went to user mode, or a later one: a trap was taken, with any cause, at any program counter and with any
  registers of the program, or a task that \<^verbatim>\<open>waitpid\<close> had put to sleep went on in the kernel.
\<close>

definition started :: "'u world \<Rightarrow> u64 \<Rightarrow> 'u machine \<Rightarrow> bool" where
  "started w vector m \<longleftrightarrow> disk_present (w_dev w) \<and> w_hart w = 0 \<and>
     (\<exists>n m0 fw now msk ra u l u' fcs. boot_image n m0 \<and> 15 \<le> n \<and> kernel_main w fw now msk vector 0 ra u (1, m0, []) = Inr (l, u', m, fcs))"

inductive mstep :: "'u world \<Rightarrow> 'u machine \<Rightarrow> 'u machine \<Rightarrow> bool" for w :: "'u world" where
  mstep_trap: "trap_vector w cause pc u m = Some (Inr (r, m')) \<Longrightarrow> mstep w m m'"
| mstep_resume: "waitpid_resume p (kern m) = Inr (r, k) \<Longrightarrow> mstep w m (m\<lparr>kern := k\<rparr>)"

inductive_cases mstepE: "mstep w m m'"

text \<open>What holds in between: the process table is sound, traps still arrive at the kernel, the disk has not been reset.\<close>

definition running :: "'u world \<Rightarrow> u64 \<Rightarrow> 'u machine \<Rightarrow> bool" where
  "running w vector m \<longleftrightarrow> w_hart w = 0 \<and> mwf m \<and> csr_stvec (csr m) = vector \<and> csr_sie (csr m) AND (SEIE OR STIE) = SEIE OR STIE \<and>
     status_writes (bus m) = [0, 1, 3, 11, 15]"

text \<open>What no trap touches.\<close>

definition same_setup :: "'u machine \<Rightarrow> 'u machine \<Rightarrow> bool" where
  "same_setup m m' \<longleftrightarrow> csr m' = csr m \<and> status_writes (bus m') = status_writes (bus m)"

text \<open>Going to user mode adds a tick to the state that the initialisation left.\<close>

lemma kernel_main_Inr:
  assumes "kernel_main w fw now msk vector 0 ra u (k, m0, c) = Inr (l, u', m, fcs)"
  obtains m1 where "kernel_start w vector 0 (k, m0) = Inr (l, m1)" "m = m1\<lparr>kern := timer_selfadd (kern m1)\<rparr>"
  using assms by (auto simp: kernel_main_def move_to_user_mode_def kbind_eq_Inr)

lemma same_setup_refl [simp]: "same_setup m m"
  by (simp add: same_setup_def)

lemma same_setup_trans: "same_setup m m1 \<Longrightarrow> same_setup m1 m2 \<Longrightarrow> same_setup m m2"
  by (simp add: same_setup_def)

lemma same_setup_simps [simp]:
  "same_setup m (m1\<lparr>kern := k\<rparr>) = same_setup m m1" "same_setup (m\<lparr>kern := k\<rparr>) m1 = same_setup m m1"
  "same_setup m (m1\<lparr>files := v\<rparr>) = same_setup m m1" "same_setup m (m1\<lparr>port := u\<rparr>) = same_setup m m1"
  "same_setup m (set_mode x m1) = same_setup m m1" "same_setup (set_mode x m) m1 = same_setup m m1"
  by (simp_all add: same_setup_def set_mode_def)

lemma set_ctx_setup: "set_ctx i f m = Inr m' \<Longrightarrow> same_setup m m'"
  by (auto simp: set_ctx_Inr)

lemma sys_call_setup:
  assumes "sys_call w c m = Inr (r, m')"
  shows "same_setup m m'"
proof -
  have s: "same_setup m (m\<lparr>bus := sys_shutdown (bus m)\<rparr>)"
    by (simp add: same_setup_def sys_shutdown_def mm_write_def SYS_CTL_ADDR_def virtio_regs)
  have "sys_exec w x y m = Inr (r, m') \<Longrightarrow> same_setup m m'" for x y by (auto simp: sys_exec_def kbind_eq_Inr)
  then show ?thesis using assms s unfolding sys_call_def Let_def by (simp only: kbind_eq_Inr split: if_splits) auto
qed

lemma do_syscall_setup:
  assumes "do_syscall w m = Inr (r, m')"
  shows "same_setup m m'"
proof -
  obtain c q m1 where q: "sys_call w c m = Inr (q, m1)"
    "(case q of Gone \<Rightarrow> Inr (Gone, m1) | Result v st \<Rightarrow> kbind (set_ctx (current (kern m)) (\<lambda>c. c\<lparr>r_a0 := v\<rparr>) m1) (\<lambda>m. Inr (Result v st, m))) = Inr (r, m')"
    using assms by (auto simp: do_syscall_def Let_def kbind_eq_Inr)
  then have "same_setup m1 m'" using set_ctx_setup by (cases q) (auto simp: kbind_eq_Inr)
  then show ?thesis using sys_call_setup [OF q(1)] same_setup_trans by blast
qed

lemma irq_setup:
  assumes "w_hart w = 0" "machine_interrupt_handler w m = Some (Inr m')"
  shows "same_setup m m'"
proof -
  obtain irq l where c: "claim (w_dev w) (w_hart w) (bus m) = (irq, l)" by fastforce
  obtain m1 where m1: "serve_irq w irq (m\<lparr>bus := l\<rparr>) = Some (Inr m1)" "m' = (if irq \<noteq> 0 then m1\<lparr>bus := complete (w_hart w) irq (bus m1)\<rparr> else m1)"
    using assms(2) c by (auto simp: machine_interrupt_handler_def kbind_eq_Inr)
  have l: "same_setup m (m\<lparr>bus := l\<rparr>)" using c by (auto simp: same_setup_def claim_def mm_read_def)
  have "same_setup (m\<lparr>bus := l\<rparr>) m1" using m1(1) by (auto simp: serve_irq_def kbind_eq_Inr split: if_splits)
  moreover have "same_setup m1 m'" using m1(2) assms(1)
    by (simp add: same_setup_def complete_def PLIC_SCOMPLETE_def PLIC_BASE_def virtio_regs)
  ultimately show ?thesis using l same_setup_trans by blast
qed

lemma trap_setup:
  assumes w: "w_hart w = 0" and d: "trap_vector w cause pc u m = Some (Inr (r, m'))"
  shows "same_setup m m'"
proof -
  let ?i = "current (kern m)"
  obtain m1 where m1: "set_ctx ?i (reg_save u pc) m = Inr m1" using d by (auto simp: trap_vector_def Let_def kbind_def split: sum.splits)
  obtain x m2 where h: "trap_handler w cause pc (set_mode 1 m1) = Some (Inr (x, m2))"
    "(case x of Away \<Rightarrow> Inr (None, m2) | Back e \<Rightarrow> kbind (set_ctx ?i (\<lambda>c. c\<lparr>r_epc := e\<rparr>) m2) (\<lambda>m. kbind (the_task (kern m) ?i) (\<lambda>t. Inr (Some (ctx t), set_mode 0 m)))) = Inr (r, m')"
    using d m1 by (auto simp: trap_vector_def Let_def kbind_eq_Inr split: sum.splits)
  have "same_setup (set_mode 1 m1) m2"
    using h(1) irq_setup [OF w, of "set_mode 1 m1" m2] do_syscall_setup [of w "set_mode 1 m1" _ m2]
    by (auto simp: trap_handler_def trap_interrupt_def Let_def kbind_eq_Inr split: if_splits)
  moreover have "same_setup m2 m'" using h(2) set_ctx_setup by (cases x) (auto simp: kbind_eq_Inr)
  ultimately show ?thesis using set_ctx_setup [OF m1] same_setup_trans by simp blast
qed

interpretation mach: invariant_system "started w vector" "mstep w" "running w vector" for w :: "'u world" and vector
proof unfold_locales
  fix m assume "started w vector m"
  then obtain n m0 fw now msk ra u l u' fcs where s: "disk_present (w_dev w)" "w_hart w = 0" "boot_image n m0" "15 \<le> n"
    and k: "kernel_main w fw now msk vector 0 ra u (1, m0, []) = Inr (l, u', m, fcs)" by (auto simp: started_def)
  obtain m1 where m1: "kernel_start w vector 0 (1, m0) = Inr (l, m1)" "m = m1\<lparr>kern := timer_selfadd (kern m1)\<rparr>" by (rule kernel_main_Inr [OF k])
  have "(c OR SEIE OR STIE) AND (SEIE OR STIE) = SEIE OR STIE" for c by (rule bit_word_eqI) (auto simp: bit_simps)
  then show "running w vector m" using boot_facts [OF s(3,4,1,2), of vector] s(2) m1 by (auto simp: running_def mwf_def timer_selfadd_def)
next
  fix m m' assume r: "running w vector m" "mstep w m m'"
  from this(2,1) show "running w vector m'"
  proof cases
    case (mstep_trap cause pc u r)
    then show ?thesis using trap_vector_facts [OF _ mstep_trap] trap_setup [OF _ mstep_trap] r(1) by (auto simp: running_def same_setup_def)
  next
    case (mstep_resume p r k)
    then show ?thesis using waitpid_resume_pinv [OF _ mstep_resume(2)] r(1) by (simp add: running_def mwf_def)
  qed
qed



end
